(* ===== verification/Prelude.thy ===== *)
theory Prelude
  imports Main "HOL-Library.Word"
begin

text \<open>
  Shared vocabulary of the development: bytes as \<open>8 word\<close>, Python's slice
  read and slice assignment on lists, exceptions as the left side of a sum with
  a bind that propagates them, and the bit-level facts on bytes that the frame
  buffer, the display driver and the rotation theories all use.
\<close>

unbundle bit_operations_syntax

type_synonym byte = "8 word"

named_theorems byte_bits "bit-level facts on single bytes"
named_theorems slice_simps "facts on Python slices of lists"

subsection \<open>Python slices\<close>

text \<open>\<open>xs[a:b]\<close> for \<open>0 \<le> a\<close>, \<open>0 \<le> b\<close>; bounds beyond the list are clamped.\<close>

definition py_slice :: "'a list \<Rightarrow> nat \<Rightarrow> nat \<Rightarrow> 'a list" where
  "py_slice xs a b = take (b - a) (drop a xs)"

text \<open>
  \<open>xs[a:b] = ys\<close> replaces the slice by \<open>ys\<close>, whatever the length of \<open>ys\<close>: the
  list grows or shrinks when the lengths differ (bytearray behaves so).
\<close>

definition py_slice_assign :: "'a list \<Rightarrow> nat \<Rightarrow> nat \<Rightarrow> 'a list \<Rightarrow> 'a list" where
  "py_slice_assign xs a b ys = take a xs @ ys @ drop (max a b) xs"

lemma length_py_slice [slice_simps]:
  "length (py_slice xs a b) = min (b - a) (length xs - a)"
  by (simp add: py_slice_def)

lemma nth_py_slice [slice_simps]:
  "i < b - a \<Longrightarrow> a + i < length xs \<Longrightarrow> py_slice xs a b ! i = xs ! (a + i)"
  by (simp add: py_slice_def)

lemma length_py_slice_assign [slice_simps]:
  "a \<le> b \<Longrightarrow> b \<le> length xs \<Longrightarrow>
   length (py_slice_assign xs a b ys) = length xs - (b - a) + length ys"
  by (simp add: py_slice_assign_def)

lemma nth_py_slice_assign [slice_simps]:
  assumes "a \<le> b" "b \<le> length xs" "length ys = b - a" "i < length xs"
  shows "py_slice_assign xs a b ys ! i = (if a \<le> i \<and> i < b then ys ! (i - a) else xs ! i)"
  using assms by (auto simp: py_slice_assign_def nth_append min_def)

subsection \<open>Exceptions\<close>

text \<open>A computation that may raise: \<open>Inl\<close> is the exception, which the rest skips.\<close>

definition ebind :: "'e + 'a \<Rightarrow> ('a \<Rightarrow> 'e + 'b) \<Rightarrow> 'e + 'b" where
  "ebind m f = (case m of Inl e \<Rightarrow> Inl e | Inr a \<Rightarrow> f a)"

lemma ebind_simps [simp]:
  "ebind (Inl e) f = Inl e"
  "ebind (Inr a) f = f a"
  by (simp_all add: ebind_def)

lemma ebind_Inr_iff:
  "ebind m f = Inr b \<longleftrightarrow> (\<exists>a. m = Inr a \<and> f a = Inr b)"
  by (cases m) auto

lemma ebind_assoc:
  "ebind (ebind m f) g = ebind m (\<lambda>a. ebind (f a) g)"
  by (cases m) auto

text \<open>A loop whose body may raise: a property kept by every step holds at the end, and
  a loop whose every step succeeds succeeds.\<close>

lemma fold_ebind_inv:
  assumes step: "\<And>x b b'. P b \<Longrightarrow> g x b = Inr b' \<Longrightarrow> P b'"
  shows "fold (\<lambda>x r. ebind r (g x)) xs r = Inr b' \<Longrightarrow> (\<And>b. r = Inr b \<Longrightarrow> P b) \<Longrightarrow> P b'"
proof (induction xs arbitrary: r)
  case Nil then show ?case by simp
next
  case (Cons x xs)
  show ?case
  proof (rule Cons.IH)
    show "fold (\<lambda>x r. ebind r (g x)) xs (ebind r (g x)) = Inr b'" using Cons.prems(1) by simp
    show "P b" if "ebind r (g x) = Inr b" for b
      using that Cons.prems(2) step by (cases r) auto
  qed
qed

lemma fold_ebind_total:
  assumes step: "\<And>x a. x \<in> set xs \<Longrightarrow> P a \<Longrightarrow> \<exists>a'. g x a = Inr a' \<and> P a'"
  shows "P a \<Longrightarrow> \<exists>a'. fold (\<lambda>x r. ebind r (g x)) xs (Inr a) = Inr a' \<and> P a'"
  using step
proof (induction xs arbitrary: a)
  case Nil then show ?case by simp
next
  case (Cons x xs)
  obtain a1 where a1: "g x a = Inr a1" "P a1" using Cons.prems by auto
  have "\<exists>a'. fold (\<lambda>x r. ebind r (g x)) xs (Inr a1) = Inr a' \<and> P a'"
    using Cons.IH [OF a1(2)] Cons.prems(2) by auto
  then show ?case using a1(1) by simp
qed

subsection \<open>Single bits of a byte\<close>

text \<open>\<open>1 << k\<close> for a bit offset \<open>k < 8\<close>.\<close>

definition bitmask :: "nat \<Rightarrow> byte" where
  "bitmask k = push_bit k 1"

lemma bit_bitmask [byte_bits]: "bit (bitmask k) j \<longleftrightarrow> j = k \<and> k < 8"
  by (auto simp: bitmask_def bit_exp_iff)

lemma bit_or_bitmask [byte_bits]:
  "bit (b OR bitmask k) j \<longleftrightarrow> bit b j \<or> (j = k \<and> k < 8)"
  by (simp add: bit_or_iff bit_bitmask)

lemma bit_and_not_bitmask [byte_bits]:
  "bit (b AND NOT (bitmask k)) j \<longleftrightarrow> bit b j \<and> \<not> (j = k \<and> k < 8)"
  by (auto simp: bit_and_iff bit_not_iff bit_bitmask dest: bit_imp_le_length)

lemma byte_eqI:
  fixes a b :: byte
  assumes "\<And>j. j < 8 \<Longrightarrow> bit a j = bit b j"
  shows "a = b"
  using assms by (intro bit_word_eqI) simp

lemma and_bitmask_nonzero [byte_bits]: "(b AND bitmask k \<noteq> 0) \<longleftrightarrow> bit b k"
  by (simp add: bitmask_def and_exp_eq_0_iff_not_bit push_bit_of_1)

lemma set_bitmask [byte_bits]: "(b AND NOT (bitmask k)) OR bitmask k = b OR bitmask k"
  by (rule byte_eqI) (auto simp: bit_or_bitmask bit_and_not_bitmask)

subsection \<open>Arithmetic of row-major addresses\<close>

lemma mult_add_less_inj:
  fixes a b s x x' :: nat
  assumes "a * s + x = b * s + x'" "x < s" "x' < s"
  shows "a = b \<and> x = x'"
proof -
  have "(a * s + x) div s = a" "(b * s + x') div s = b" using assms(2,3) by simp_all
  with assms(1) have "a = b" by simp
  with assms(1) show ?thesis by simp
qed

lemma div_mod_8_inj:
  fixes y y' :: nat
  assumes "y div 8 = y' div 8" "y mod 8 = y' mod 8"
  shows "y = y'"
  using assms by (metis div_mult_mod_eq)

end
