(* ===== verification/Framebuf.thy ===== *)
theory Framebuf
  imports Prelude
begin

text \<open>
  The monochrome frame buffer of MicroPython's \<open>framebuf\<close> module, which every
  source file draws through: a byte array and its geometry. Two pixel formats are
  used by the repository: \<open>MONO_VLSB\<close> (one byte is eight vertical pixels, bit 0 the
  top one; the SSD1306 page layout) and \<open>MONO_HLSB\<close> (one byte is eight horizontal
  pixels, bit 7 the leftmost; the PBM layout). The module is not part of the
  repository; its pixel semantics are modelled from the spec and the module's
  documented behaviour: coordinates outside the buffer are ignored.
\<close>

unbundle bit_operations_syntax

datatype fb_format = MONO_VLSB | MONO_HLSB

record framebuffer =
  fb_bytes :: "byte list"
  fb_width :: nat
  fb_height :: nat
  fb_stride :: nat
  fb_format :: fb_format

text \<open>\<open>FrameBuffer(buf, w, h, fmt)\<close>: the horizontal format rounds the stride up to whole bytes.\<close>

definition FrameBuffer :: "byte list \<Rightarrow> nat \<Rightarrow> nat \<Rightarrow> fb_format \<Rightarrow> framebuffer" where
  "FrameBuffer buf w h fmt =
     \<lparr>fb_bytes = buf, fb_width = w, fb_height = h,
      fb_stride = (case fmt of MONO_VLSB \<Rightarrow> w | MONO_HLSB \<Rightarrow> (w + 7) div 8 * 8),
      fb_format = fmt\<rparr>"

text \<open>Byte index and bit offset of an in-range pixel.\<close>

definition fb_pos :: "framebuffer \<Rightarrow> nat \<Rightarrow> nat \<Rightarrow> nat \<times> nat" where
  "fb_pos fb x y = (case fb_format fb of
       MONO_VLSB \<Rightarrow> (y div 8 * fb_stride fb + x, y mod 8)
     | MONO_HLSB \<Rightarrow> ((x + y * fb_stride fb) div 8, 7 - x mod 8))"

definition fb_in :: "framebuffer \<Rightarrow> int \<Rightarrow> int \<Rightarrow> bool" where
  "fb_in fb x y \<longleftrightarrow> 0 \<le> x \<and> x < int (fb_width fb) \<and> 0 \<le> y \<and> y < int (fb_height fb)"

text \<open>\<open>setpixel\<close>: clear the bit, then set it when the colour is non-zero.\<close>

definition fb_setpixel :: "framebuffer \<Rightarrow> nat \<Rightarrow> nat \<Rightarrow> int \<Rightarrow> framebuffer" where
  "fb_setpixel fb x y c =
     (let (i, k) = fb_pos fb x y; b = fb_bytes fb ! i
      in fb\<lparr>fb_bytes := (fb_bytes fb)[i := (b AND NOT (bitmask k)) OR (if c \<noteq> 0 then bitmask k else 0)]\<rparr>)"

definition fb_getpixel :: "framebuffer \<Rightarrow> nat \<Rightarrow> nat \<Rightarrow> bool" where
  "fb_getpixel fb x y = (let (i, k) = fb_pos fb x y in bit (fb_bytes fb ! i) k)"

text \<open>\<open>fb.pixel(x, y, c)\<close> and \<open>fb.pixel(x, y)\<close>; a read outside returns None, which is false.\<close>

definition pixel :: "framebuffer \<Rightarrow> int \<Rightarrow> int \<Rightarrow> int \<Rightarrow> framebuffer" where
  "pixel fb x y c = (if fb_in fb x y then fb_setpixel fb (nat x) (nat y) c else fb)"

definition get_pixel :: "framebuffer \<Rightarrow> int \<Rightarrow> int \<Rightarrow> bool" where
  "get_pixel fb x y = (fb_in fb x y \<and> fb_getpixel fb (nat x) (nat y))"

text \<open>\<open>fill_rect\<close> clips the rectangle to the buffer, then sets it row by row.\<close>

definition fb_fill_rows :: "framebuffer \<Rightarrow> nat list \<Rightarrow> nat list \<Rightarrow> int \<Rightarrow> framebuffer" where
  "fb_fill_rows fb ys xs c = fold (\<lambda>y fb'. fold (\<lambda>x fb''. fb_setpixel fb'' x y c) xs fb') ys fb"

definition fill_rect :: "framebuffer \<Rightarrow> int \<Rightarrow> int \<Rightarrow> int \<Rightarrow> int \<Rightarrow> int \<Rightarrow> framebuffer" where
  "fill_rect fb x y w h c =
     (if h < 1 \<or> w < 1 \<or> x + w \<le> 0 \<or> y + h \<le> 0 \<or> y \<ge> int (fb_height fb) \<or> x \<ge> int (fb_width fb)
      then fb
      else let xend = min (int (fb_width fb)) (x + w); yend = min (int (fb_height fb)) (y + h);
               x0 = max x 0; y0 = max y 0
           in fb_fill_rows fb [nat y0..<nat yend] [nat x0..<nat xend] c)"

definition fill :: "framebuffer \<Rightarrow> int \<Rightarrow> framebuffer" where
  "fill fb c = fill_rect fb 0 0 (int (fb_width fb)) (int (fb_height fb)) c"

text \<open>The buffer is large enough for its geometry (the constructor checks it).\<close>

definition fb_wf :: "framebuffer \<Rightarrow> bool" where
  "fb_wf fb \<longleftrightarrow> fb_width fb \<le> fb_stride fb \<and>
     (case fb_format fb of
        MONO_VLSB \<Rightarrow> (fb_height fb + 7) div 8 * fb_stride fb \<le> length (fb_bytes fb)
      | MONO_HLSB \<Rightarrow> 8 dvd fb_stride fb \<and> fb_stride fb * fb_height fb div 8 \<le> length (fb_bytes fb))"

text \<open>A buffer with no padding bits: every bit of every byte is a pixel.\<close>

definition fb_exact :: "framebuffer \<Rightarrow> bool" where
  "fb_exact fb \<longleftrightarrow> fb_width fb = fb_stride fb \<and>
     (case fb_format fb of
        MONO_VLSB \<Rightarrow> 8 dvd fb_height fb \<and> length (fb_bytes fb) = fb_stride fb * (fb_height fb div 8)
      | MONO_HLSB \<Rightarrow> 8 dvd fb_stride fb \<and> length (fb_bytes fb) = fb_stride fb div 8 * fb_height fb)"

subsection \<open>Pixel addressing\<close>

lemma fb_pos_bound:
  assumes "fb_wf fb" "x < fb_width fb" "y < fb_height fb"
  shows "fst (fb_pos fb x y) < length (fb_bytes fb) \<and> snd (fb_pos fb x y) < 8"
proof (cases "fb_format fb")
  case MONO_VLSB
  let ?s = "fb_stride fb"
  have "y div 8 + 1 \<le> (fb_height fb + 7) div 8" using assms(3) by linarith
  then have "(y div 8 + 1) * ?s \<le> (fb_height fb + 7) div 8 * ?s" by (rule mult_right_mono) simp
  moreover have "y div 8 * ?s + x < (y div 8 + 1) * ?s" using assms(1,2) by (simp add: fb_wf_def)
  ultimately show ?thesis using assms(1) MONO_VLSB by (simp add: fb_pos_def fb_wf_def)
next
  case MONO_HLSB
  let ?s = "fb_stride fb"
  from assms(1) MONO_HLSB obtain m where s: "?s = 8 * m" and len: "?s * fb_height fb div 8 \<le> length (fb_bytes fb)"
    by (auto simp: fb_wf_def)
  have "x + y * ?s < (y + 1) * ?s" using assms(1,2) by (simp add: fb_wf_def)
  also have "\<dots> \<le> fb_height fb * ?s" using assms(3) by (intro mult_right_mono) simp_all
  finally have "x + y * ?s < 8 * (m * fb_height fb)" by (simp add: s mult_ac)
  then have "(x + y * ?s) div 8 < m * fb_height fb" by linarith
  with len show ?thesis using MONO_HLSB by (simp add: fb_pos_def s)
qed


lemma fb_pos_inj:
  assumes "fb_wf fb" "x < fb_width fb" "x' < fb_width fb"
    and "fb_pos fb x y = fb_pos fb x' y'"
  shows "x = x' \<and> y = y'"
proof (cases "fb_format fb")
  case MONO_VLSB
  let ?s = "fb_stride fb"
  have xs: "x < ?s" "x' < ?s" using assms(1-3) by (auto simp: fb_wf_def)
  from assms(4) MONO_VLSB have e: "y div 8 * ?s + x = y' div 8 * ?s + x'" and m: "y mod 8 = y' mod 8"
    by (auto simp: fb_pos_def)
  from mult_add_less_inj [OF e xs] have "y div 8 = y' div 8" "x = x'" by simp_all
  with m show ?thesis using div_mod_8_inj by blast
next
  case MONO_HLSB
  let ?s = "fb_stride fb"
  from assms(1) MONO_HLSB obtain m where s: "?s = 8 * m" by (auto simp: fb_wf_def)
  have xs: "x < ?s" "x' < ?s" using assms(1-3) by (auto simp: fb_wf_def)
  from assms(4) MONO_HLSB have d: "(x + y * ?s) div 8 = (x' + y' * ?s) div 8" and o: "7 - x mod 8 = 7 - x' mod 8"
    by (auto simp: fb_pos_def)
  have "x mod 8 = x' mod 8" using o by simp
  moreover have "y * ?s = (y * m) * 8" "y' * ?s = (y' * m) * 8" by (simp_all add: s)
  then have "(x + y * ?s) mod 8 = x mod 8" "(x' + y' * ?s) mod 8 = x' mod 8"
    by (simp_all only: mod_mult_self1)
  ultimately have "(x + y * ?s) mod 8 = (x' + y' * ?s) mod 8" by simp
  with d have "x + y * ?s = x' + y' * ?s" by (rule div_mod_8_inj)
  then have "y * ?s + x = y' * ?s + x'" by simp
  from mult_add_less_inj [OF this xs] show ?thesis by simp
qed


lemma bit_update_byte:
  "k < 8 \<Longrightarrow> bit ((b AND NOT (bitmask k)) OR (if c \<noteq> 0 then bitmask k else 0)) j =
     (if j = k then c \<noteq> (0::int) else bit b j)"
  by (auto simp: bit_or_iff byte_bits)

lemma fb_pos_bytes_update [simp]: "fb_pos (fb\<lparr>fb_bytes := bs\<rparr>) = fb_pos fb"
  by (simp add: fb_pos_def fun_eq_iff split: fb_format.splits)

lemma fb_setpixel_at:
  "fb_pos fb x y = (i, k) \<Longrightarrow> fb_setpixel fb x y c =
     fb\<lparr>fb_bytes := (fb_bytes fb)[i := (fb_bytes fb ! i AND NOT (bitmask k)) OR (if c \<noteq> 0 then bitmask k else 0)]\<rparr>"
  by (simp add: fb_setpixel_def)

lemma fb_getpixel_setpixel:
  assumes "fb_wf fb" "x < fb_width fb" "y < fb_height fb" "x' < fb_width fb" "y' < fb_height fb"
  shows "fb_getpixel (fb_setpixel fb x y c) x' y' =
         (if x' = x \<and> y' = y then c \<noteq> 0 else fb_getpixel fb x' y')"
proof -
  obtain i k where p: "fb_pos fb x y = (i, k)" by fastforce
  obtain i' k' where p': "fb_pos fb x' y' = (i', k')" by fastforce
  from fb_pos_bound [OF assms(1-3)] p have ik: "i < length (fb_bytes fb)" "k < 8" by auto
  have inj: "i' = i \<Longrightarrow> k' = k \<Longrightarrow> x' = x \<and> y' = y"
    using fb_pos_inj [OF assms(1,4,2), of y' y] p p' by auto
  show ?thesis
  proof (cases "x' = x \<and> y' = y")
    case True
    with p p' have "i' = i" "k' = k" by auto
    with True ik p show ?thesis
      by (simp add: fb_getpixel_def fb_setpixel_at bit_update_byte)
  next
    case False
    with inj have "i' \<noteq> i \<or> k' \<noteq> k" by blast
    with False ik p p' show ?thesis
      by (auto simp: fb_getpixel_def fb_setpixel_at nth_list_update bit_update_byte)
  qed
qed


subsection \<open>The pixel operations\<close>

lemma fb_setpixel_geometry [simp]:
  "fb_width (fb_setpixel fb x y c) = fb_width fb"
  "fb_height (fb_setpixel fb x y c) = fb_height fb"
  "fb_stride (fb_setpixel fb x y c) = fb_stride fb"
  "fb_format (fb_setpixel fb x y c) = fb_format fb"
  "length (fb_bytes (fb_setpixel fb x y c)) = length (fb_bytes fb)"
  by (simp_all add: fb_setpixel_def split: prod.splits)

lemma fb_wf_setpixel [simp]: "fb_wf (fb_setpixel fb x y c) = fb_wf fb"
  by (simp add: fb_wf_def split: fb_format.splits)

lemma fb_in_setpixel [simp]: "fb_in (fb_setpixel fb x y c) = fb_in fb"
  by (simp add: fb_in_def fun_eq_iff)

lemma pixel_outside: "\<not> fb_in fb x y \<Longrightarrow> pixel fb x y c = fb"
  by (simp add: pixel_def)

lemma get_pixel_pixel:
  assumes "fb_wf fb"
  shows "get_pixel (pixel fb x y c) x' y' =
         (if fb_in fb x y \<and> x' = x \<and> y' = y then c \<noteq> 0 else get_pixel fb x' y')"
proof (cases "fb_in fb x y \<and> fb_in fb x' y'")
  case True
  then have "nat x < fb_width fb" "nat y < fb_height fb" "nat x' < fb_width fb" "nat y' < fb_height fb"
    by (auto simp: fb_in_def)
  from fb_getpixel_setpixel [OF assms this, of c] True show ?thesis
    by (auto simp: pixel_def get_pixel_def fb_in_def)
next
  case False
  then show ?thesis by (auto simp: pixel_def get_pixel_def)
qed

subsection \<open>Filling rectangles\<close>

lemma fb_fill_rows_Cons:
  "fb_fill_rows fb (y # ys) xs c = fb_fill_rows (fold (\<lambda>x fb'. fb_setpixel fb' x y c) xs fb) ys xs c"
  by (simp add: fb_fill_rows_def)

lemma fold_setpixel_geometry [simp]:
  "fb_width (fold (\<lambda>x fb'. fb_setpixel fb' x y c) xs fb) = fb_width fb"
  "fb_height (fold (\<lambda>x fb'. fb_setpixel fb' x y c) xs fb) = fb_height fb"
  "fb_stride (fold (\<lambda>x fb'. fb_setpixel fb' x y c) xs fb) = fb_stride fb"
  "fb_format (fold (\<lambda>x fb'. fb_setpixel fb' x y c) xs fb) = fb_format fb"
  "fb_wf (fold (\<lambda>x fb'. fb_setpixel fb' x y c) xs fb) = fb_wf fb"
  "length (fb_bytes (fold (\<lambda>x fb'. fb_setpixel fb' x y c) xs fb)) = length (fb_bytes fb)"
  by (induction xs arbitrary: fb) simp_all

lemma fb_fill_rows_geometry [simp]:
  "fb_width (fb_fill_rows fb ys xs c) = fb_width fb"
  "fb_height (fb_fill_rows fb ys xs c) = fb_height fb"
  "fb_stride (fb_fill_rows fb ys xs c) = fb_stride fb"
  "fb_format (fb_fill_rows fb ys xs c) = fb_format fb"
  "fb_wf (fb_fill_rows fb ys xs c) = fb_wf fb"
  "length (fb_bytes (fb_fill_rows fb ys xs c)) = length (fb_bytes fb)"
  by (induction ys arbitrary: fb) (simp_all add: fb_fill_rows_Cons, simp_all add: fb_fill_rows_def)

lemma fb_getpixel_fold_row:
  assumes "fb_wf fb" "\<forall>x\<in>set xs. x < fb_width fb" "y < fb_height fb"
    "x' < fb_width fb" "y' < fb_height fb"
  shows "fb_getpixel (fold (\<lambda>x fb'. fb_setpixel fb' x y c) xs fb) x' y' =
         (if x' \<in> set xs \<and> y' = y then c \<noteq> 0 else fb_getpixel fb x' y')"
  using assms
proof (induction xs arbitrary: fb)
  case Nil
  then show ?case by simp
next
  case (Cons x xs)
  let ?F = "fb_setpixel fb x y c"
  have "fb_wf ?F" "\<forall>z\<in>set xs. z < fb_width ?F" "y < fb_height ?F" "x' < fb_width ?F" "y' < fb_height ?F"
    using Cons.prems by simp_all
  note IH = Cons.IH [OF this]
  have S: "fb_getpixel (fb_setpixel fb x y c) x' y' = (if x' = x \<and> y' = y then c \<noteq> 0 else fb_getpixel fb x' y')"
    using Cons.prems(2) by (intro fb_getpixel_setpixel [OF Cons.prems(1) _ Cons.prems(3-5)]) simp
  show ?case using IH S by auto
qed

lemma fb_getpixel_fill_rows:
  assumes "fb_wf fb" "\<forall>x\<in>set xs. x < fb_width fb" "\<forall>y\<in>set ys. y < fb_height fb"
    "x' < fb_width fb" "y' < fb_height fb"
  shows "fb_getpixel (fb_fill_rows fb ys xs c) x' y' =
         (if x' \<in> set xs \<and> y' \<in> set ys then c \<noteq> 0 else fb_getpixel fb x' y')"
  using assms
proof (induction ys arbitrary: fb)
  case Nil
  then show ?case by (simp add: fb_fill_rows_def)
next
  case (Cons y ys)
  let ?fb = "fold (\<lambda>x fb'. fb_setpixel fb' x y c) xs fb"
  have "fb_wf ?fb" "\<forall>x\<in>set xs. x < fb_width ?fb" "\<forall>y\<in>set ys. y < fb_height ?fb"
    "x' < fb_width ?fb" "y' < fb_height ?fb"
    using Cons.prems by simp_all
  note IH = Cons.IH [OF this]
  have S: "fb_getpixel ?fb x' y' = (if x' \<in> set xs \<and> y' = y then c \<noteq> 0 else fb_getpixel fb x' y')"
    using Cons.prems(3) by (intro fb_getpixel_fold_row [OF Cons.prems(1,2) _ Cons.prems(4,5)]) simp
  show ?case using IH S by (auto simp: fb_fill_rows_Cons)
qed

lemma fb_setpixel_zero:
  "set (fb_bytes fb) \<subseteq> {0} \<Longrightarrow> set (fb_bytes (fb_setpixel fb x y 0)) \<subseteq> {0}"
proof -
  assume z: "set (fb_bytes fb) \<subseteq> {0}"
  obtain i k where p: "fb_pos fb x y = (i, k)" by fastforce
  let ?v = "(fb_bytes fb ! i AND NOT (bitmask k)) OR (if (0::int) \<noteq> 0 then bitmask k else 0)"
  have "i < length (fb_bytes fb) \<Longrightarrow> ?v = 0" using z by (auto dest: nth_mem)
  then have "set ((fb_bytes fb)[i := ?v]) \<subseteq> {0}"
    using z set_update_subset_insert [of "fb_bytes fb" i ?v]
    by (cases "i < length (fb_bytes fb)") (auto simp: list_update_beyond)
  then show ?thesis by (simp add: fb_setpixel_at [OF p])
qed

lemma fb_fill_rows_zero:
  "set (fb_bytes fb) \<subseteq> {0} \<Longrightarrow> set (fb_bytes (fb_fill_rows fb ys xs 0)) \<subseteq> {0}"
proof (induction ys arbitrary: fb)
  case Nil
  then show ?case by (simp add: fb_fill_rows_def)
next
  case (Cons y ys)
  have "set (fb_bytes (fold (\<lambda>x fb'. fb_setpixel fb' x y 0) xs fb)) \<subseteq> {0}"
    using Cons.prems by (induction xs arbitrary: fb) (simp_all add: fb_setpixel_zero)
  then show ?case by (simp add: fb_fill_rows_Cons Cons.IH)
qed

subsection \<open>Buffers equal pixel by pixel, and loops of pixel sets\<close>

lemma fb_exact_pos:
  assumes "fb_exact fb" "i < length (fb_bytes fb)" "j < 8"
  shows "\<exists>x y. x < fb_width fb \<and> y < fb_height fb \<and> fb_pos fb x y = (i, j)"
proof (cases "fb_format fb")
  case MONO_VLSB
  let ?s = "fb_stride fb"
  from assms(1) MONO_VLSB have w: "fb_width fb = ?s" and h: "8 dvd fb_height fb"
    and len: "length (fb_bytes fb) = ?s * (fb_height fb div 8)" by (auto simp: fb_exact_def)
  from assms(2) len have s0: "0 < ?s" by (cases "?s = 0") auto
  let ?x = "i mod ?s" and ?p = "i div ?s"
  have p: "?p < fb_height fb div 8" using assms(2) len s0 by (simp add: div_less_iff_less_mult mult.commute)
  have "8 * ?p + j < fb_height fb" using p assms(3) h by (auto elim!: dvdE)
  moreover have "fb_pos fb ?x (8 * ?p + j) = (i, j)" using MONO_VLSB assms(3)
    by (simp add: fb_pos_def)
  moreover have "?x < fb_width fb" using w s0 by simp
  ultimately show ?thesis by blast
next
  case MONO_HLSB
  let ?s = "fb_stride fb"
  from assms(1) MONO_HLSB have w: "fb_width fb = ?s" and s8: "8 dvd ?s"
    and len: "length (fb_bytes fb) = ?s div 8 * fb_height fb" by (auto simp: fb_exact_def)
  obtain b where b: "?s = 8 * b" using s8 by (auto elim!: dvdE)
  from assms(2) len b have b0: "0 < b" by (cases "b = 0") auto
  let ?y = "i div b" and ?xb = "i mod b"
  let ?x = "(7 - j) + ?xb * 8"
  have y: "?y < fb_height fb" using assms(2) len b b0 by (simp add: div_less_iff_less_mult mult.commute)
  have x: "?x < fb_width fb"
  proof -
    have "?xb < b" using b0 by simp
    then have "?xb + 1 \<le> b" by simp
    then have "8 * ?xb + 8 \<le> 8 * b" by simp
    then show ?thesis using w b assms(3) by simp
  qed
  have "?x mod 8 = (7 - j) mod 8" by (simp only: mod_mult_self1)
  then have m: "?x mod 8 = 7 - j" by simp
  have "?x + ?y * ?s = (7 - j) + (?xb + ?y * b) * 8"
    unfolding b by (simp only: distrib_right mult.assoc mult.commute [of 8] add.assoc)
  then have "(?x + ?y * ?s) div 8 = ?xb + ?y * b" using assms(3) by simp
  also have "\<dots> = i" by simp
  finally have "fb_pos fb ?x ?y = (i, j)" using MONO_HLSB m assms(3) by (simp add: fb_pos_def)
  with x y show ?thesis by blast
qed

lemma fb_bytes_eqI:
  assumes "fb_exact fb1" "fb_exact fb2" "fb_width fb1 = fb_width fb2" "fb_height fb1 = fb_height fb2"
    "fb_stride fb1 = fb_stride fb2" "fb_format fb1 = fb_format fb2"
    "\<And>x y. x < fb_width fb1 \<Longrightarrow> y < fb_height fb1 \<Longrightarrow> fb_getpixel fb1 x y = fb_getpixel fb2 x y"
  shows "fb_bytes fb1 = fb_bytes fb2"
proof (rule nth_equalityI)
  have "length (fb_bytes fb1) = length (fb_bytes fb2)"
    using assms(1-6) by (auto simp: fb_exact_def split: fb_format.splits)
  then show "length (fb_bytes fb1) = length (fb_bytes fb2)" .
  fix i assume i: "i < length (fb_bytes fb1)"
  show "fb_bytes fb1 ! i = fb_bytes fb2 ! i"
  proof (rule byte_eqI)
    fix j :: nat assume j: "j < 8"
    from fb_exact_pos [OF assms(1) i j] obtain x y where
      xy: "x < fb_width fb1" "y < fb_height fb1" "fb_pos fb1 x y = (i, j)" by blast
    have "fb_pos fb2 = fb_pos fb1" using assms(5,6) by (simp add: fb_pos_def fun_eq_iff split: fb_format.splits)
    then have "fb_pos fb2 x y = (i, j)" using xy(3) by simp
    with assms(7) [OF xy(1,2)] xy(3) show "bit (fb_bytes fb1 ! i) j = bit (fb_bytes fb2 ! i) j"
      by (simp add: fb_getpixel_def)
  qed
qed


lemma fold_nested_product:
  "fold (\<lambda>x r. fold (\<lambda>y r'. g x y r') ys r) xs r0 = fold (\<lambda>(x, y) r. g x y r) (List.product xs ys) r0"
proof (induction xs arbitrary: r0)
  case Nil
  then show ?case by simp
next
  case (Cons x xs)
  have "fold (\<lambda>y r'. g x y r') ys r0 = fold (\<lambda>(x, y) r. g x y r) (map (Pair x) ys) r0"
    by (induction ys arbitrary: r0) simp_all
  then show ?case by (simp add: Cons.IH)
qed

lemma fb_wf_pixel [simp]: "fb_wf (pixel fb x y c) = fb_wf fb"
  by (simp add: pixel_def)

lemma fb_in_pixel [simp]: "fb_in (pixel fb x y c) = fb_in fb"
  by (simp add: pixel_def)

lemma pixel_geometry [simp]:
  "fb_width (pixel fb x y c) = fb_width fb" "fb_height (pixel fb x y c) = fb_height fb"
  "fb_stride (pixel fb x y c) = fb_stride fb" "fb_format (pixel fb x y c) = fb_format fb"
  by (simp_all add: pixel_def)

lemma get_pixel_set_loop:
  assumes "fb_wf r0"
  shows "get_pixel (fold (\<lambda>a r. if P a then pixel r (fx a) (fy a) 1 else r) as r0) qx qy \<longleftrightarrow>
    get_pixel r0 qx qy \<or> (\<exists>a\<in>set as. P a \<and> fb_in r0 (fx a) (fy a) \<and> qx = fx a \<and> qy = fy a)"
  using assms
proof (induction as arbitrary: r0)
  case Nil
  then show ?case by simp
next
  case (Cons a as)
  let ?r1 = "if P a then pixel r0 (fx a) (fy a) 1 else r0"
  have wf1: "fb_wf ?r1" and in1: "fb_in ?r1 = fb_in r0" using Cons.prems by simp_all
  have g1: "get_pixel ?r1 qx qy \<longleftrightarrow> get_pixel r0 qx qy \<or> (P a \<and> fb_in r0 (fx a) (fy a) \<and> qx = fx a \<and> qy = fy a)"
    using get_pixel_pixel [OF Cons.prems, of "fx a" "fy a" 1 qx qy] by auto
  show ?case using Cons.IH [OF wf1] g1 in1 by auto
qed

lemma get_pixel_zero:
  "set (fb_bytes fb) \<subseteq> {0} \<Longrightarrow> fb_wf fb \<Longrightarrow> \<not> get_pixel fb x y"
proof
  assume z: "set (fb_bytes fb) \<subseteq> {0}" and wf: "fb_wf fb" and g: "get_pixel fb x y"
  obtain i k where p: "fb_pos fb (nat x) (nat y) = (i, k)" by fastforce
  from g have "nat x < fb_width fb" "nat y < fb_height fb" by (auto simp: get_pixel_def fb_in_def)
  from fb_pos_bound [OF wf this] p have "i < length (fb_bytes fb)" by simp
  then have "fb_bytes fb ! i = 0" using z nth_mem by blast
  with g p show False by (simp add: get_pixel_def fb_getpixel_def)
qed

lemma fb_wf_fill [simp]: "fb_wf (fill fb c) = fb_wf fb"
  by (simp add: fill_def fill_rect_def Let_def)

lemma fill_geometry [simp]:
  "fb_width (fill fb c) = fb_width fb" "fb_height (fill fb c) = fb_height fb"
  "fb_stride (fill fb c) = fb_stride fb" "fb_format (fill fb c) = fb_format fb"
  by (simp_all add: fill_def fill_rect_def Let_def)

lemma fb_in_fill [simp]: "fb_in (fill fb c) = fb_in fb"
  by (simp add: fill_def fill_rect_def Let_def fb_in_def fun_eq_iff)

lemma fb_exact_pixel [simp]: "fb_exact (pixel fb x y c) = fb_exact fb"
  by (simp add: fb_exact_def pixel_def split: fb_format.splits)

lemma set_loop_geometry:
  "fb_exact (fold (\<lambda>a r. if P a then pixel r (fx a) (fy a) 1 else r) as r0) = fb_exact r0"
  "fb_width (fold (\<lambda>a r. if P a then pixel r (fx a) (fy a) 1 else r) as r0) = fb_width r0"
  "fb_height (fold (\<lambda>a r. if P a then pixel r (fx a) (fy a) 1 else r) as r0) = fb_height r0"
  "fb_stride (fold (\<lambda>a r. if P a then pixel r (fx a) (fy a) 1 else r) as r0) = fb_stride r0"
  "fb_format (fold (\<lambda>a r. if P a then pixel r (fx a) (fy a) 1 else r) as r0) = fb_format r0"
  by (induction as arbitrary: r0; simp)+

lemma get_pixel_in:
  "x < fb_width fb \<Longrightarrow> y < fb_height fb \<Longrightarrow> get_pixel fb (int x) (int y) = fb_getpixel fb x y"
  by (simp add: get_pixel_def fb_in_def)

lemma get_pixel_fill:
  assumes "fb_wf fb"
  shows "get_pixel (fill fb c) x y \<longleftrightarrow> fb_in fb x y \<and> c \<noteq> 0"
proof (cases "fb_in fb x y")
  case True
  then have xy: "nat x < fb_width fb" "nat y < fb_height fb" and w: "0 < fb_width fb" "0 < fb_height fb"
    by (auto simp: fb_in_def)
  have "fill fb c = fb_fill_rows fb [0..<fb_height fb] [0..<fb_width fb] c"
    using w by (simp add: fill_def fill_rect_def Let_def)
  then show ?thesis
    using fb_getpixel_fill_rows [OF assms _ _ xy, of "[0..<fb_width fb]" "[0..<fb_height fb]" c] True xy
    by (simp add: get_pixel_def fb_in_def)
next
  case False
  then show ?thesis by (simp add: get_pixel_def)
qed

lemma get_pixel_fb_in: "get_pixel fb x y \<Longrightarrow> fb_in fb x y"
  by (simp add: get_pixel_def)

lemma fb_bytes_eq_get_pixel:
  assumes "fb_exact A" "fb_exact B" "fb_width A = fb_width B" "fb_height A = fb_height B"
    "fb_stride A = fb_stride B" "fb_format A = fb_format B" "\<forall>X Y. get_pixel A X Y = get_pixel B X Y"
  shows "fb_bytes A = fb_bytes B"
proof (rule fb_bytes_eqI [OF assms(1-6)])
  fix x y assume "x < fb_width A" "y < fb_height A"
  then show "fb_getpixel A x y = fb_getpixel B x y"
    using assms(3,4,7) get_pixel_in [of x A y] get_pixel_in [of x B y] by simp
qed

end
