(* ===== verification/SSD1306.thy ===== *)
theory SSD1306
  imports Framebuf
begin

text \<open>
  The display driver of \<open>src/ssd1306.py\<close> and the two-wire bus it writes to.
  The bus (\<open>machine.I2C.writeto\<close>, not part of the repository) is a log of the
  transactions written so far and an oracle saying which transaction the device
  fails to acknowledge; a failed write raises \<open>OSError\<close>, which the driver never
  catches. The driver object is a record of its fields; \<open>self.framebuf\<close> is a view
  on \<open>self.buffer\<close>, so every drawing proxy rewrites \<open>buffer\<close>. Each method returns
  the updated object or the exception it raises.
\<close>

unbundle bit_operations_syntax

subsection \<open>Bus transport\<close>

datatype drv_error = OSError | IndexError

record i2c =
  i2c_log :: "(nat \<times> byte list) list"
  i2c_nack :: "nat \<Rightarrow> bool"

text \<open>\<open>i2c.writeto(addr, buf)\<close>: one atomic transaction, or \<open>OSError\<close> when not acknowledged.\<close>

definition writeto :: "i2c \<Rightarrow> nat \<Rightarrow> byte list \<Rightarrow> drv_error + i2c" where
  "writeto bus a bs =
     (if i2c_nack bus (length (i2c_log bus)) then Inl OSError
      else Inr (bus\<lparr>i2c_log := i2c_log bus @ [(a, bs)]\<rparr>))"

subsection \<open>Driver state\<close>

definition RAM_COLS :: nat where "RAM_COLS = 132"
definition COL_OFFSET :: nat where "COL_OFFSET = 2"

record ssd1306 =
  width :: nat
  height :: nat
  external_vcc :: bool
  pages :: nat
  buffer :: "byte list"
  line :: "byte list"
  bus :: i2c
  addr :: nat
  tmp :: "byte list"

text \<open>\<open>self.framebuf\<close>: a \<open>MONO_VLSB\<close> view of \<open>self.buffer\<close>.\<close>

definition fbuf :: "ssd1306 \<Rightarrow> framebuffer" where
  "fbuf d = FrameBuffer (buffer d) (width d) (height d) MONO_VLSB"

subsection \<open>Commands and data (\<open>SSD1306_I2C\<close>)\<close>

text \<open>\<open>write_cmd\<close>: control byte \<open>0x80\<close>, then the command masked to a byte, through \<open>self._tmp\<close>.\<close>

definition write_cmd :: "ssd1306 \<Rightarrow> int \<Rightarrow> drv_error + ssd1306" where
  "write_cmd d cmd =
     (let t = [0x80, word_of_int (cmd AND 0xFF)]
      in ebind (writeto (bus d) (addr d) t) (\<lambda>b. Inr (d\<lparr>tmp := t, bus := b\<rparr>)))"

text \<open>\<open>write_data\<close>: control byte \<open>0x40\<close> and the whole buffer in one transaction.\<close>

definition write_data :: "ssd1306 \<Rightarrow> byte list \<Rightarrow> drv_error + ssd1306" where
  "write_data d buf = ebind (writeto (bus d) (addr d) (0x40 # buf)) (\<lambda>b. Inr (d\<lparr>bus := b\<rparr>))"

primrec write_cmds :: "ssd1306 \<Rightarrow> int list \<Rightarrow> drv_error + ssd1306" where
  "write_cmds d [] = Inr d"
| "write_cmds d (c # cs) = ebind (write_cmd d c) (\<lambda>d'. write_cmds d' cs)"

text \<open>The fixed configuration sequence of \<open>init_display\<close> (page addressing mode).\<close>

definition init_cmds :: "int list" where
  "init_cmds = [0xAE, 0xD5, 0x80, 0xA8, 0x3F, 0xD3, 0x00, 0x40, 0x8D, 0x14, 0x20, 0x02,
                0xA1, 0xC8, 0xDA, 0x12, 0x81, 0xCF, 0xD9, 0xF1, 0xDB, 0x40, 0xA4, 0xA6, 0xAF]"

subsection \<open>Methods of \<open>SSD1306\<close>\<close>

text \<open>\<open>_clear_controller_ram\<close>: every page, column 0, one block of \<open>RAM_COLS\<close> zero bytes.\<close>

definition clear_page :: "ssd1306 \<Rightarrow> nat \<Rightarrow> drv_error + ssd1306" where
  "clear_page d page =
     ebind (write_cmds d [0xB0 + int page, 0x00, 0x10]) (\<lambda>d'. write_data d' (replicate RAM_COLS 0))"

primrec clear_pages :: "ssd1306 \<Rightarrow> nat list \<Rightarrow> drv_error + ssd1306" where
  "clear_pages d [] = Inr d"
| "clear_pages d (p # ps) = ebind (clear_page d p) (\<lambda>d'. clear_pages d' ps)"

definition clear_controller_ram :: "ssd1306 \<Rightarrow> drv_error + ssd1306" where
  "clear_controller_ram d = clear_pages d [0..<pages d]"

definition poweroff :: "ssd1306 \<Rightarrow> drv_error + ssd1306" where
  "poweroff d = write_cmd d 0xAE"

definition contrast :: "ssd1306 \<Rightarrow> int \<Rightarrow> drv_error + ssd1306" where
  "contrast d c = ebind (write_cmd d 0x81) (\<lambda>d'. write_cmd d' (c AND 0xFF))"

definition invert :: "ssd1306 \<Rightarrow> int \<Rightarrow> drv_error + ssd1306" where
  "invert d i = write_cmd d (if i \<noteq> 0 then 0xA7 else 0xA6)"

text \<open>Drawing proxies: they act on the frame buffer view, that is on \<open>buffer\<close>.\<close>

definition fill_d :: "ssd1306 \<Rightarrow> int \<Rightarrow> ssd1306" where
  "fill_d d c = d\<lparr>buffer := fb_bytes (fill (fbuf d) c)\<rparr>"

definition pixel_d :: "ssd1306 \<Rightarrow> int \<Rightarrow> int \<Rightarrow> int \<Rightarrow> ssd1306" where
  "pixel_d d x y c = d\<lparr>buffer := fb_bytes (pixel (fbuf d) x y c)\<rparr>"

definition fill_rect_d :: "ssd1306 \<Rightarrow> int \<Rightarrow> int \<Rightarrow> int \<Rightarrow> int \<Rightarrow> int \<Rightarrow> ssd1306" where
  "fill_rect_d d x y w h c = d\<lparr>buffer := fb_bytes (fill_rect (fbuf d) x y w h c)\<rparr>"

text \<open>
  \<open>show\<close>, one page: address the page at column 0, zero the first \<open>RAM_COLS\<close>
  entries of the reused line (an index beyond the line raises), copy the page's
  bytes into the slice from \<open>COL_OFFSET\<close>, and send the whole line in one write.
\<close>

definition zero_line :: "byte list \<Rightarrow> drv_error + byte list" where
  "zero_line l = (if RAM_COLS \<le> length l then Inr (replicate RAM_COLS 0 @ drop RAM_COLS l)
                  else Inl IndexError)"

definition show_page :: "ssd1306 \<Rightarrow> nat \<Rightarrow> drv_error + ssd1306" where
  "show_page d page =
     ebind (write_cmds d [0xB0 + int page, 0x00, 0x10]) (\<lambda>d1.
       (let start = width d1 * page; stop = start + width d1 in
        ebind (zero_line (line d1)) (\<lambda>l0.
          let l = py_slice_assign l0 COL_OFFSET (COL_OFFSET + width d1) (py_slice (buffer d1) start stop)
          in write_data (d1\<lparr>line := l\<rparr>) l)))"

primrec show_pages :: "ssd1306 \<Rightarrow> nat list \<Rightarrow> drv_error + ssd1306" where
  "show_pages d [] = Inr d"
| "show_pages d (p # ps) = ebind (show_page d p) (\<lambda>d'. show_pages d' ps)"

definition show_disp :: "ssd1306 \<Rightarrow> drv_error + ssd1306" where
  "show_disp d = show_pages d [0..<pages d]"

text \<open>\<open>init_display\<close>: configuration, RAM scrub, then an empty frame.\<close>

definition init_display :: "ssd1306 \<Rightarrow> drv_error + ssd1306" where
  "init_display d =
     ebind (write_cmds d init_cmds) (\<lambda>d1.
     ebind (clear_controller_ram d1) (\<lambda>d2.
     show_disp (fill_d d2 0)))"

text \<open>\<open>SSD1306_I2C(width, height, i2c, addr)\<close>; \<open>poweron\<close> does nothing.\<close>

definition SSD1306_I2C :: "nat \<Rightarrow> nat \<Rightarrow> i2c \<Rightarrow> nat \<Rightarrow> bool \<Rightarrow> drv_error + ssd1306" where
  "SSD1306_I2C w h b a ext =
     init_display \<lparr>width = w, height = h, external_vcc = ext, pages = h div 8,
                   buffer = replicate (w * (h div 8)) 0, line = replicate RAM_COLS 0,
                   bus = b, addr = a, tmp = replicate 2 0\<rparr>"

subsection \<open>Abstract specification of the bus traffic\<close>

text \<open>
  What a flush promises, written without the loop and the reused line buffer: for
  every page in ascending order, three command transactions (page address, column 0
  low and high nibble) and one data transaction carrying \<open>COL_OFFSET\<close> zero bytes,
  the page's bytes of the frame buffer, and zero bytes up to \<open>RAM_COLS\<close>.
\<close>

definition no_nack :: "i2c \<Rightarrow> bool" where
  "no_nack b \<longleftrightarrow> (\<forall>k. \<not> i2c_nack b k)"

definition cmd_txn :: "nat \<Rightarrow> int \<Rightarrow> nat \<times> byte list" where
  "cmd_txn a c = (a, [0x80, word_of_int (c AND 0xFF)])"

definition page_line :: "nat \<Rightarrow> byte list \<Rightarrow> nat \<Rightarrow> byte list" where
  "page_line w buf p = replicate COL_OFFSET 0 @ py_slice buf (w * p) (w * p + w) @
                       replicate (RAM_COLS - COL_OFFSET - w) 0"

definition page_frame :: "nat \<Rightarrow> nat \<Rightarrow> byte list \<Rightarrow> nat \<Rightarrow> (nat \<times> byte list) list" where
  "page_frame a w buf p = map (cmd_txn a) [0xB0 + int p, 0x00, 0x10] @ [(a, 0x40 # page_line w buf p)]"

definition drv_wf :: "ssd1306 \<Rightarrow> bool" where
  "drv_wf d \<longleftrightarrow> 8 dvd height d \<and> pages d = height d div 8 \<and> length (buffer d) = width d * pages d \<and>
     length (line d) = RAM_COLS \<and> COL_OFFSET + width d \<le> RAM_COLS"

definition clear_frame :: "nat \<Rightarrow> nat \<Rightarrow> (nat \<times> byte list) list" where
  "clear_frame a p = map (cmd_txn a) [0xB0 + int p, 0x00, 0x10] @ [(a, 0x40 # replicate RAM_COLS 0)]"

abbreviation nack_at :: "ssd1306 \<Rightarrow> nat \<Rightarrow> bool" where
  "nack_at d j \<equiv> i2c_nack (bus d) (length (i2c_log (bus d)) + j)"

subsection \<open>Successful transactions\<close>

lemma writeto_ok:
  "no_nack b \<Longrightarrow> writeto b a bs = Inr (b\<lparr>i2c_log := i2c_log b @ [(a, bs)]\<rparr>)"
  by (simp add: writeto_def no_nack_def)

lemma no_nack_log [simp]: "no_nack (b\<lparr>i2c_log := l\<rparr>) = no_nack b"
  by (simp add: no_nack_def)

lemma write_cmd_ok:
  "no_nack (bus d) \<Longrightarrow> write_cmd d c =
     Inr (d\<lparr>tmp := snd (cmd_txn (addr d) c), bus := (bus d)\<lparr>i2c_log := i2c_log (bus d) @ [cmd_txn (addr d) c]\<rparr>\<rparr>)"
  by (simp add: write_cmd_def writeto_ok cmd_txn_def Let_def)

lemma write_data_ok:
  "no_nack (bus d) \<Longrightarrow> write_data d l =
     Inr (d\<lparr>bus := (bus d)\<lparr>i2c_log := i2c_log (bus d) @ [(addr d, 0x40 # l)]\<rparr>\<rparr>)"
  by (simp add: write_data_def writeto_ok)

lemma write_cmds_ok:
  "no_nack (bus d) \<Longrightarrow> \<exists>t. write_cmds d cs =
     Inr (d\<lparr>tmp := t, bus := (bus d)\<lparr>i2c_log := i2c_log (bus d) @ map (cmd_txn (addr d)) cs\<rparr>\<rparr>)"
proof (induction cs arbitrary: d)
  case Nil
  then show ?case by (intro exI [of _ "tmp d"]) simp
next
  case (Cons c cs)
  let ?d = "d\<lparr>tmp := snd (cmd_txn (addr d) c), bus := (bus d)\<lparr>i2c_log := i2c_log (bus d) @ [cmd_txn (addr d) c]\<rparr>\<rparr>"
  from Cons.prems have "no_nack (bus ?d)" by simp
  from Cons.IH [OF this] obtain t where w: "write_cmds ?d cs = Inr (?d\<lparr>tmp := t, bus := (bus ?d)\<lparr>i2c_log := i2c_log (bus ?d) @ map (cmd_txn (addr ?d)) cs\<rparr>\<rparr>)" ..
  show ?case by (rule exI [of _ t]) (simp add: write_cmd_ok Cons.prems w)
qed

lemma zero_line_ok: "length l = RAM_COLS \<Longrightarrow> zero_line l = Inr (replicate RAM_COLS 0)"
  by (simp add: zero_line_def)

lemma slice_copy:
  "COL_OFFSET + w \<le> RAM_COLS \<Longrightarrow> length src = w \<Longrightarrow>
   py_slice_assign (replicate RAM_COLS 0) COL_OFFSET (COL_OFFSET + w) src =
   replicate COL_OFFSET 0 @ src @ replicate (RAM_COLS - COL_OFFSET - w) 0"
  by (simp add: py_slice_assign_def min_def)

lemma length_page_slice:
  "w * Suc p \<le> length buf \<Longrightarrow> length (py_slice buf (w * p) (w * p + w)) = w"
  by (simp add: py_slice_def)

lemma show_page_ok:
  assumes "no_nack (bus d)" "length (line d) = RAM_COLS" "COL_OFFSET + width d \<le> RAM_COLS"
    "width d * Suc p \<le> length (buffer d)"
  shows "\<exists>t. show_page d p =
     Inr (d\<lparr>tmp := t, bus := (bus d)\<lparr>i2c_log := i2c_log (bus d) @ page_frame (addr d) (width d) (buffer d) p\<rparr>,
            line := page_line (width d) (buffer d) p\<rparr>)"
proof -
  obtain t where c: "write_cmds d [0xB0 + int p, 0x00, 0x10] =
     Inr (d\<lparr>tmp := t, bus := (bus d)\<lparr>i2c_log := i2c_log (bus d) @ map (cmd_txn (addr d)) [0xB0 + int p, 0x00, 0x10]\<rparr>\<rparr>)"
    using write_cmds_ok [OF assms(1)] by blast
  have len: "length (py_slice (buffer d) (width d * p) (width d * p + width d)) = width d"
    using assms(4) by (rule length_page_slice)
  show ?thesis
    unfolding show_page_def c ebind_simps Let_def
    by (rule exI [of _ t])
      (simp add: zero_line_ok slice_copy [OF assms(3) len] assms(1,2) write_data_ok
         page_frame_def page_line_def)
qed

lemma length_page_line:
  "COL_OFFSET + w \<le> RAM_COLS \<Longrightarrow> w * Suc p \<le> length buf \<Longrightarrow> length (page_line w buf p) = RAM_COLS"
  by (simp add: page_line_def length_page_slice)

lemma page_fits: "p < n \<Longrightarrow> w * Suc p \<le> w * (n::nat)"
  by (rule mult_le_mono2) simp

lemma show_pages_ok:
  assumes "drv_wf d" "no_nack (bus d)" "\<forall>p\<in>set ps. p < pages d"
  shows "\<exists>t l. show_pages d ps =
     Inr (d\<lparr>tmp := t, bus := (bus d)\<lparr>i2c_log := i2c_log (bus d) @ concat (map (page_frame (addr d) (width d) (buffer d)) ps)\<rparr>,
            line := l\<rparr>) \<and> length l = RAM_COLS"
  using assms
proof (induction ps arbitrary: d)
  case Nil
  then show ?case by (intro exI [of _ "tmp d"] exI [of _ "line d"]) (simp add: drv_wf_def)
next
  case (Cons p ps)
  have wf: "length (line d) = RAM_COLS" "COL_OFFSET + width d \<le> RAM_COLS" "width d * Suc p \<le> length (buffer d)"
    using Cons.prems page_fits [of p "pages d" "width d"] by (auto simp: drv_wf_def)
  obtain t where sp: "show_page d p =
     Inr (d\<lparr>tmp := t, bus := (bus d)\<lparr>i2c_log := i2c_log (bus d) @ page_frame (addr d) (width d) (buffer d) p\<rparr>,
            line := page_line (width d) (buffer d) p\<rparr>)" (is "_ = Inr ?d1")
    using show_page_ok [OF Cons.prems(2) wf] by blast
  have "drv_wf ?d1" "no_nack (bus ?d1)" "\<forall>p\<in>set ps. p < pages ?d1"
    using Cons.prems wf by (auto simp: drv_wf_def length_page_line)
  from Cons.IH [OF this] obtain t' l where
    r: "show_pages ?d1 ps = Inr (?d1\<lparr>tmp := t', bus := (bus ?d1)\<lparr>i2c_log := i2c_log (bus ?d1) @
          concat (map (page_frame (addr ?d1) (width ?d1) (buffer ?d1)) ps)\<rparr>, line := l\<rparr>)" and l: "length l = RAM_COLS"
    by blast
  show ?case by (intro exI [of _ t'] exI [of _ l]) (simp add: sp r l)
qed

lemma drv_wf_show_pages_ok:
  "drv_wf d \<Longrightarrow> no_nack (bus d) \<Longrightarrow>
   \<exists>d'. show_disp d = Inr d' \<and> drv_wf d' \<and> buffer d' = buffer d \<and> width d' = width d \<and>
        height d' = height d \<and> pages d' = pages d \<and> addr d' = addr d \<and> no_nack (bus d') \<and>
        i2c_log (bus d') = i2c_log (bus d) @ concat (map (page_frame (addr d) (width d) (buffer d)) [0..<pages d])"
  using show_pages_ok [of d "[0..<pages d]"] by (fastforce simp: show_disp_def drv_wf_def)

subsection \<open>Failed transactions\<close>

lemma write_cmd_Inr:
  "write_cmd d c = Inr d' \<Longrightarrow> \<not> nack_at d 0 \<and>
     d' = d\<lparr>tmp := snd (cmd_txn (addr d) c), bus := (bus d)\<lparr>i2c_log := i2c_log (bus d) @ [cmd_txn (addr d) c]\<rparr>\<rparr>"
  by (auto simp: write_cmd_def writeto_def cmd_txn_def Let_def split: if_splits)

lemma write_cmd_Inl: "write_cmd d c = Inl e \<longleftrightarrow> nack_at d 0 \<and> e = OSError"
  by (auto simp: write_cmd_def writeto_def Let_def)

lemma write_data_Inr:
  "write_data d l = Inr d' \<Longrightarrow> \<not> nack_at d 0 \<and>
     d' = d\<lparr>bus := (bus d)\<lparr>i2c_log := i2c_log (bus d) @ [(addr d, 0x40 # l)]\<rparr>\<rparr>"
  by (auto simp: write_data_def writeto_def split: if_splits)

lemma write_data_Inl: "write_data d l = Inl e \<longleftrightarrow> nack_at d 0 \<and> e = OSError"
  by (auto simp: write_data_def writeto_def)

lemma write_cmds_Inr:
  "write_cmds d cs = Inr d' \<Longrightarrow> (\<forall>j<length cs. \<not> nack_at d j) \<and>
     (\<exists>t. d' = d\<lparr>tmp := t, bus := (bus d)\<lparr>i2c_log := i2c_log (bus d) @ map (cmd_txn (addr d)) cs\<rparr>\<rparr>)"
proof (induction cs arbitrary: d)
  case Nil
  then show ?case by (auto intro: exI [of _ "tmp d"])
next
  case (Cons c cs)
  from Cons.prems obtain d1 where w: "write_cmd d c = Inr d1" and r: "write_cmds d1 cs = Inr d'"
    by (auto simp: ebind_Inr_iff)
  from write_cmd_Inr [OF w] have n0: "\<not> nack_at d 0" and d1: "d1 = d\<lparr>tmp := snd (cmd_txn (addr d) c),
      bus := (bus d)\<lparr>i2c_log := i2c_log (bus d) @ [cmd_txn (addr d) c]\<rparr>\<rparr>" by auto
  from Cons.IH [OF r] d1 obtain t where
    n: "\<forall>j<length cs. \<not> nack_at d (Suc j)" and
    d': "d' = d\<lparr>tmp := t, bus := (bus d)\<lparr>i2c_log := i2c_log (bus d) @ map (cmd_txn (addr d)) (c # cs)\<rparr>\<rparr>"
    by auto
  have "\<forall>j<length (c # cs). \<not> nack_at d j"
  proof (intro allI impI)
    fix j assume "j < length (c # cs)"
    then show "\<not> nack_at d j" using n0 n by (cases j) auto
  qed
  with d' show ?case by blast
qed

lemma write_cmds_Inl:
  "write_cmds d cs = Inl e \<Longrightarrow> e = OSError \<and> (\<exists>j<length cs. nack_at d j)"
proof (induction cs arbitrary: d)
  case Nil
  then show ?case by simp
next
  case (Cons c cs)
  show ?case
  proof (cases "write_cmd d c")
    case (Inl e')
    with Cons.prems show ?thesis by (auto simp: write_cmd_Inl)
  next
    case (Inr d1)
    with Cons.prems have r: "write_cmds d1 cs = Inl e" by simp
    from write_cmd_Inr [OF Inr] have "length (i2c_log (bus d1)) = Suc (length (i2c_log (bus d)))"
      "i2c_nack (bus d1) = i2c_nack (bus d)" by auto
    with Cons.IH [OF r] show ?thesis by (auto intro: exI [of _ "Suc _"])
  qed
qed


lemma show_page_Inr:
  assumes "show_page d p = Inr d'" "drv_wf d" "p < pages d"
  shows "(\<forall>j<4. \<not> nack_at d j) \<and> drv_wf d' \<and> buffer d' = buffer d \<and> width d' = width d \<and>
    pages d' = pages d \<and> addr d' = addr d \<and> i2c_nack (bus d') = i2c_nack (bus d) \<and>
    i2c_log (bus d') = i2c_log (bus d) @ page_frame (addr d) (width d) (buffer d) p"
proof -
  have wf: "length (line d) = RAM_COLS" "COL_OFFSET + width d \<le> RAM_COLS" "width d * Suc p \<le> length (buffer d)"
    using assms(2,3) page_fits [of p "pages d" "width d"] by (auto simp: drv_wf_def)
  have len: "length (py_slice (buffer d) (width d * p) (width d * p + width d)) = width d"
    using wf(3) by (rule length_page_slice)
  from assms(1) obtain d1 where c: "write_cmds d [0xB0 + int p, 0x00, 0x10] = Inr d1" and
    r: "ebind (zero_line (line d1)) (\<lambda>l0. let l = py_slice_assign l0 COL_OFFSET (COL_OFFSET + width d1)
          (py_slice (buffer d1) (width d1 * p) (width d1 * p + width d1)) in write_data (d1\<lparr>line := l\<rparr>) l) = Inr d'"
    by (auto simp: show_page_def ebind_Inr_iff Let_def)
  from write_cmds_Inr [OF c] obtain t where n: "\<forall>j<3. \<not> nack_at d j" and
    d1: "d1 = d\<lparr>tmp := t, bus := (bus d)\<lparr>i2c_log := i2c_log (bus d) @ map (cmd_txn (addr d)) [0xB0 + int p, 0x00, 0x10]\<rparr>\<rparr>"
    by auto
  from r d1 wf have w: "write_data (d1\<lparr>line := page_line (width d) (buffer d) p\<rparr>) (page_line (width d) (buffer d) p) = Inr d'"
    by (simp add: zero_line_ok slice_copy [OF wf(2) len] page_line_def Let_def)
  from write_data_Inr [OF w] d1 have n3: "\<not> nack_at d 3" and
    d': "d' = d\<lparr>tmp := t, bus := (bus d)\<lparr>i2c_log := i2c_log (bus d) @ page_frame (addr d) (width d) (buffer d) p\<rparr>,
           line := page_line (width d) (buffer d) p\<rparr>"
    by (auto simp: page_frame_def numeral_3_eq_3)
  have "\<forall>j<4. \<not> nack_at d j"
  proof (intro allI impI)
    fix j :: nat assume "j < 4"
    then have "j < 3 \<or> j = 3" by linarith
    then show "\<not> nack_at d j" using n n3 by blast
  qed
  moreover have "drv_wf d'" using assms(2) wf d' by (simp add: drv_wf_def length_page_line)
  ultimately show ?thesis using d' by simp
qed

lemma show_page_Inl:
  assumes "show_page d p = Inl e" "drv_wf d"
  shows "e = OSError \<and> (\<exists>j<4. nack_at d j)"
proof (cases "write_cmds d [0xB0 + int p, 0x00, 0x10]")
  case (Inl e')
  from write_cmds_Inl [OF Inl] obtain j where j: "j < 3" "nack_at d j" and "e' = OSError"
    by (auto simp: numeral_3_eq_3)
  moreover from assms(1) Inl have "e = e'" by (simp add: show_page_def)
  ultimately show ?thesis by (intro conjI exI [of _ j]) simp_all
next
  case (Inr d1)
  from write_cmds_Inr [OF Inr] obtain t where
    d1: "d1 = d\<lparr>tmp := t, bus := (bus d)\<lparr>i2c_log := i2c_log (bus d) @ map (cmd_txn (addr d)) [0xB0 + int p, 0x00, 0x10]\<rparr>\<rparr>"
    by auto
  with assms(2) have "length (line d1) = RAM_COLS" by (simp add: drv_wf_def)
  with assms(1) Inr have "write_data (d1\<lparr>line := py_slice_assign (replicate RAM_COLS 0) COL_OFFSET (COL_OFFSET + width d1)
          (py_slice (buffer d1) (width d1 * p) (width d1 * p + width d1))\<rparr>)
          (py_slice_assign (replicate RAM_COLS 0) COL_OFFSET (COL_OFFSET + width d1)
          (py_slice (buffer d1) (width d1 * p) (width d1 * p + width d1))) = Inl e"
    by (simp add: show_page_def zero_line_ok Let_def)
  then have "e = OSError" "nack_at d1 0" by (simp_all add: write_data_Inl)
  with d1 show ?thesis by (intro conjI exI [of _ 3]) (simp_all add: numeral_3_eq_3)
qed


lemma length_page_frame [simp]: "length (page_frame a w buf p) = 4"
  by (simp add: page_frame_def)

lemma show_pages_Inr:
  assumes "show_pages d ps = Inr d'" "drv_wf d" "\<forall>p\<in>set ps. p < pages d"
  shows "(\<forall>j<4 * length ps. \<not> nack_at d j) \<and> drv_wf d' \<and> buffer d' = buffer d \<and> width d' = width d \<and>
    pages d' = pages d \<and> addr d' = addr d \<and> i2c_nack (bus d') = i2c_nack (bus d) \<and>
    i2c_log (bus d') = i2c_log (bus d) @ concat (map (page_frame (addr d) (width d) (buffer d)) ps)"
  using assms
proof (induction ps arbitrary: d)
  case Nil
  then show ?case by simp
next
  case (Cons p ps)
  from Cons.prems(1) obtain d1 where s: "show_page d p = Inr d1" and r: "show_pages d1 ps = Inr d'"
    by (auto simp: ebind_Inr_iff)
  note P = show_page_Inr [OF s Cons.prems(2)] 
  from P Cons.prems(3) have "drv_wf d1" "\<forall>p\<in>set ps. p < pages d1" by simp_all
  note I = Cons.IH [OF r this]
  have "\<not> nack_at d j" if "j < 4 * length (p # ps)" for j
  proof (cases "j < 4")
    case True
    with P Cons.prems(3) show ?thesis by simp
  next
    case False
    with that have "j - 4 < 4 * length ps" by simp
    with I have "\<not> nack_at d1 (j - 4)" by blast
    with P Cons.prems(3) False show ?thesis by (simp add: add.assoc)
  qed
  with P I Cons.prems(3) show ?case by simp
qed

lemma show_pages_Inl:
  assumes "show_pages d ps = Inl e" "drv_wf d" "\<forall>p\<in>set ps. p < pages d"
  shows "e = OSError \<and> (\<exists>j<4 * length ps. nack_at d j)"
  using assms
proof (induction ps arbitrary: d)
  case Nil
  then show ?case by simp
next
  case (Cons p ps)
  show ?case
  proof (cases "show_page d p")
    case (Inl e')
    with Cons.prems(1) have "e = e'" by simp
    moreover from show_page_Inl [OF Inl Cons.prems(2)] obtain j where "e' = OSError" "j < 4" "nack_at d j"
      by blast
    ultimately show ?thesis by (intro conjI exI [of _ j]) simp_all
  next
    case (Inr d1)
    note P = show_page_Inr [OF Inr Cons.prems(2)] 
    from Inr Cons.prems(1) have r: "show_pages d1 ps = Inl e" by simp
    from P Cons.prems(3) have "drv_wf d1" "\<forall>p\<in>set ps. p < pages d1" by simp_all
    from Cons.IH [OF r this] obtain j where "e = OSError" "j < 4 * length ps" "nack_at d1 j" by blast
    with P Cons.prems(3) show ?thesis by (intro conjI exI [of _ "4 + j"]) (simp_all add: add.assoc)
  qed
qed

subsection \<open>Initialisation and driver calls\<close>

lemma clear_page_ok:
  "no_nack (bus d) \<Longrightarrow> \<exists>t. clear_page d p =
     Inr (d\<lparr>tmp := t, bus := (bus d)\<lparr>i2c_log := i2c_log (bus d) @ clear_frame (addr d) p\<rparr>\<rparr>)"
proof -
  assume nn: "no_nack (bus d)"
  obtain t where c: "write_cmds d [0xB0 + int p, 0x00, 0x10] =
     Inr (d\<lparr>tmp := t, bus := (bus d)\<lparr>i2c_log := i2c_log (bus d) @ map (cmd_txn (addr d)) [0xB0 + int p, 0x00, 0x10]\<rparr>\<rparr>)"
    using write_cmds_ok [OF nn] by blast
  show ?thesis unfolding clear_page_def c ebind_simps
    by (rule exI [of _ t]) (simp add: write_data_ok nn clear_frame_def)
qed

lemma clear_pages_ok:
  "no_nack (bus d) \<Longrightarrow> \<exists>t. clear_pages d ps =
     Inr (d\<lparr>tmp := t, bus := (bus d)\<lparr>i2c_log := i2c_log (bus d) @ concat (map (clear_frame (addr d)) ps)\<rparr>\<rparr>)"
proof (induction ps arbitrary: d)
  case Nil
  then show ?case by (intro exI [of _ "tmp d"]) simp
next
  case (Cons p ps)
  from clear_page_ok [OF Cons.prems, of p] obtain t where
    c: "clear_page d p = Inr (d\<lparr>tmp := t, bus := (bus d)\<lparr>i2c_log := i2c_log (bus d) @ clear_frame (addr d) p\<rparr>\<rparr>)"
    (is "_ = Inr ?d1") ..
  have "no_nack (bus ?d1)" using Cons.prems by simp
  from Cons.IH [OF this] obtain t' where
    "clear_pages ?d1 ps = Inr (?d1\<lparr>tmp := t', bus := (bus ?d1)\<lparr>i2c_log := i2c_log (bus ?d1) @ concat (map (clear_frame (addr ?d1)) ps)\<rparr>\<rparr>)" ..
  with c show ?case by (intro exI [of _ t']) simp
qed

lemma fill_zero_stays_zero:
  "set (fb_bytes fb) \<subseteq> {0} \<Longrightarrow> set (fb_bytes (fill fb 0)) \<subseteq> {0}"
  by (simp add: fill_def fill_rect_def Let_def fb_fill_rows_zero)

lemma length_fill [simp]: "length (fb_bytes (fill fb c)) = length (fb_bytes fb)"
  by (simp add: fill_def fill_rect_def Let_def)

lemma zero_list_eq: "set xs \<subseteq> {0} \<Longrightarrow> xs = replicate (length xs) 0"
  by (induction xs) auto

lemma length_pixel [simp]: "length (fb_bytes (pixel fb x y c)) = length (fb_bytes fb)"
  by (simp add: pixel_def)

lemma length_fill_rect [simp]: "length (fb_bytes (fill_rect fb x y w h c)) = length (fb_bytes fb)"
  by (simp add: fill_rect_def Let_def)

lemma drv_wf_buffer_update:
  "length bs = length (buffer d) \<Longrightarrow> drv_wf (d\<lparr>buffer := bs\<rparr>) = drv_wf d"
  by (simp add: drv_wf_def)

subsection \<open>The frame buffer view\<close>

lemma fb_wf_fbuf: "drv_wf d \<Longrightarrow> fb_wf (fbuf d)"
  by (auto simp: drv_wf_def fb_wf_def fbuf_def FrameBuffer_def elim!: dvdE)

lemma fbuf_pixel_d: "fbuf (pixel_d d x y c) = pixel (fbuf d) x y c"
  by (simp add: pixel_d_def pixel_def fbuf_def FrameBuffer_def fb_setpixel_def split: prod.splits)

lemma fbuf_fill_d: "fbuf (fill_d d c) = fill (fbuf d) c"
  by (rule framebuffer.equality) (simp_all add: fill_d_def fbuf_def FrameBuffer_def)

lemma fb_in_fbuf:
  "fb_in (fbuf d) x y \<longleftrightarrow> 0 \<le> x \<and> x < int (width d) \<and> 0 \<le> y \<and> y < int (height d)"
  by (simp add: fb_in_def fbuf_def FrameBuffer_def)

subsection \<open>The frame written by a flush\<close>

lemma page_line_hidden:
  assumes "COL_OFFSET + w \<le> RAM_COLS" "w * Suc p \<le> length buf" "i < RAM_COLS"
    "i < COL_OFFSET \<or> COL_OFFSET + w \<le> i"
  shows "page_line w buf p ! i = 0"
proof -
  have len: "length (py_slice buf (w * p) (w * p + w)) = w" using assms(2) by (rule length_page_slice)
  show ?thesis using assms(1,3,4) len by (auto simp: page_line_def nth_append)
qed

lemma page_line_visible:
  assumes "COL_OFFSET + w \<le> RAM_COLS" "w * Suc p \<le> length buf" "x < w"
  shows "page_line w buf p ! (COL_OFFSET + x) = buf ! (w * p + x)"
proof -
  have len: "length (py_slice buf (w * p) (w * p + w)) = w" using assms(2) by (rule length_page_slice)
  have "w * p + x < length buf" using assms(2,3) by (simp add: add.commute)
  then show ?thesis using assms(3) len by (simp add: page_line_def nth_append py_slice_def)
qed

lemma cmd_txn_hd: "hd (snd (cmd_txn a c)) = 0x80"
  by (simp add: cmd_txn_def)

lemma frames_data:
  assumes "(a, bs) \<in> set (concat (map (page_frame a0 w buf) ps))" "hd bs = 0x40"
  shows "\<exists>p\<in>set ps. bs = 0x40 # page_line w buf p"
  using assms by (auto simp: page_frame_def cmd_txn_def)

lemma page_line_zero:
  assumes "set buf \<subseteq> {0}" "w * Suc p \<le> length buf" "COL_OFFSET + w \<le> RAM_COLS"
  shows "page_line w buf p = replicate RAM_COLS 0"
proof (rule nth_equalityI)
  show "length (page_line w buf p) = length (replicate RAM_COLS (0::byte))"
    using assms(2,3) length_page_line by simp
  fix i assume "i < length (page_line w buf p)"
  then have i: "i < RAM_COLS" using assms(2,3) length_page_line by simp
  show "page_line w buf p ! i = replicate RAM_COLS 0 ! i"
  proof (cases "i < COL_OFFSET \<or> COL_OFFSET + w \<le> i")
    case True
    with i assms(2,3) show ?thesis by (simp add: page_line_hidden)
  next
    case False
    then obtain x where x: "i = COL_OFFSET + x" "x < w" by (metis add_diff_inverse_nat add_less_cancel_left not_less)
    have "w * p + x < length buf" using assms(2) x(2) by (simp add: add.commute)
    then have "buf ! (w * p + x) = 0" using assms(1) nth_mem by blast
    with x i assms(2,3) show ?thesis by (simp add: page_line_visible)
  qed
qed

lemma nth_concat_map_4:
  assumes "\<forall>i. length (f i) = 4" "p < n" "k < 4"
  shows "concat (map f [0..<n]) ! (4 * p + k) = f p ! k"
  using assms(2)
proof (induction n)
  case 0
  then show ?case by simp
next
  case (Suc n)
  have l: "length (concat (map f [0..<n])) = 4 * n" using assms(1) by (induction n) simp_all
  show ?case
  proof (cases "p < n")
    case True
    with Suc.IH assms(3) l show ?thesis by (simp add: nth_append)
  next
    case False
    with Suc.prems have "p = n" by simp
    with l assms(3) show ?thesis by (simp add: nth_append)
  qed
qed

text \<open>The byte and bit a panel pixel occupies in the buffer is what the frame buffer reads there.\<close>

lemma buffer_bit_get_pixel:
  assumes "drv_wf d" "x < width d" "y < height d"
  shows "bit (buffer d ! (width d * (y div 8) + x)) (y mod 8) = get_pixel (fbuf d) (int x) (int y)"
  using assms(2,3)
  by (simp add: get_pixel_def fb_getpixel_def fb_pos_def fbuf_def FrameBuffer_def fb_in_def mult.commute)

subsection \<open>Properties of \<open>show\<close>\<close>

text \<open>
  C1: the hidden-column invariant. Whatever the frame buffer and whatever the
  reused line buffer held before, every data transaction of a flush carries
  exactly \<open>RAM_COLS\<close> bytes after its control byte, and the columns outside the
  visible window (below \<open>COL_OFFSET\<close> and from \<open>COL_OFFSET + width\<close> on) are zero.
\<close>

theorem show_hidden_columns_zero:
  assumes "drv_wf d" "no_nack (bus d)"
  shows "\<exists>d'. show_disp d = Inr d' \<and>
    (\<forall>(a, bs) \<in> set (drop (length (i2c_log (bus d))) (i2c_log (bus d'))). hd bs = 0x40 \<longrightarrow>
       length bs = Suc RAM_COLS \<and>
       (\<forall>i < RAM_COLS. (i < COL_OFFSET \<or> COL_OFFSET + width d \<le> i) \<longrightarrow> bs ! Suc i = 0))"
proof -
  obtain d' where s: "show_disp d = Inr d'" and
    log: "i2c_log (bus d') = i2c_log (bus d) @ concat (map (page_frame (addr d) (width d) (buffer d)) [0..<pages d])"
    using drv_wf_show_pages_ok [OF assms] by blast
  have wf: "COL_OFFSET + width d \<le> RAM_COLS" "\<And>p. p < pages d \<Longrightarrow> width d * Suc p \<le> length (buffer d)"
    using assms(1) page_fits by (auto simp: drv_wf_def)
  have "length bs = Suc RAM_COLS \<and>
       (\<forall>i < RAM_COLS. (i < COL_OFFSET \<or> COL_OFFSET + width d \<le> i) \<longrightarrow> bs ! Suc i = 0)"
    if m: "(a, bs) \<in> set (concat (map (page_frame (addr d) (width d) (buffer d)) [0..<pages d]))"
      and h: "hd bs = 0x40" for a bs
  proof -
    from frames_data [OF m h] obtain p where p: "p < pages d" and bs: "bs = 0x40 # page_line (width d) (buffer d) p"
      by auto
    show ?thesis using bs wf(1) wf(2) [OF p] page_line_hidden length_page_line by simp
  qed
  with s log show ?thesis by auto
qed

theorem show_hidden_columns_zero_witness:
  "drv_wf \<lparr>width = 8, height = 8, external_vcc = False, pages = 1, buffer = replicate 8 0xFF,
            line = replicate RAM_COLS 0x55, bus = \<lparr>i2c_log = [], i2c_nack = (\<lambda>_. False)\<rparr>, addr = 0x3C,
            tmp = [0, 0]\<rparr> \<and>
   no_nack \<lparr>i2c_log = [], i2c_nack = (\<lambda>_. False)\<rparr> \<and>
   (\<exists>d'. show_disp \<lparr>width = 8, height = 8, external_vcc = False, pages = 1, buffer = replicate 8 0xFF,
            line = replicate RAM_COLS 0x55, bus = \<lparr>i2c_log = [], i2c_nack = (\<lambda>_. False)\<rparr>, addr = 0x3C,
            tmp = [0, 0]\<rparr> = Inr d' \<and>
    (\<forall>(a, bs) \<in> set (i2c_log (bus d')). hd bs = 0x40 \<longrightarrow> length bs = Suc RAM_COLS \<and>
       (\<forall>i < RAM_COLS. (i < COL_OFFSET \<or> COL_OFFSET + 8 \<le> i) \<longrightarrow> bs ! Suc i = 0)))"
proof -
  let ?d = "\<lparr>width = 8, height = 8, external_vcc = False, pages = 1, buffer = replicate 8 (0xFF::byte),
            line = replicate RAM_COLS 0x55, bus = \<lparr>i2c_log = [], i2c_nack = (\<lambda>_. False)\<rparr>, addr = 0x3C,
            tmp = [0, 0]\<rparr>"
  have wf: "drv_wf ?d" by (simp add: drv_wf_def RAM_COLS_def COL_OFFSET_def)
  have nn: "no_nack (bus ?d)" by (simp add: no_nack_def)
  from show_hidden_columns_zero [OF wf nn] wf nn show ?thesis by simp
qed

text \<open>
  C2: flushing an all-zero 128x64 buffer writes eight pages, each as three
  addressing commands and one transaction of 132 zero bytes.
\<close>

theorem show_zero_frames_128x64:
  assumes "drv_wf d" "no_nack (bus d)" "width d = 128" "height d = 64" "set (buffer d) \<subseteq> {0}"
  shows "\<exists>d'. show_disp d = Inr d' \<and>
    i2c_log (bus d') = i2c_log (bus d) @
      concat (map (\<lambda>p. [(addr d, [0x80, 0xB0 + of_nat p]), (addr d, [0x80, 0x00]), (addr d, [0x80, 0x10]),
                         (addr d, 0x40 # replicate 132 0)]) [0..<8])"
proof -
  obtain d' where s: "show_disp d = Inr d'" and
    log: "i2c_log (bus d') = i2c_log (bus d) @ concat (map (page_frame (addr d) (width d) (buffer d)) [0..<pages d])"
    using drv_wf_show_pages_ok [OF assms(1,2)] by blast
  have pg: "pages d = 8" and len: "length (buffer d) = 1024" using assms(1,3,4) by (auto simp: drv_wf_def)
  have "page_line 128 (buffer d) p = replicate 132 0" if "p < 8" for p
    using page_line_zero [OF assms(5), of 128 p] that len by (simp add: RAM_COLS_def COL_OFFSET_def)
  then have "map (page_frame (addr d) (width d) (buffer d)) [0..<8] =
      map (\<lambda>p. [(addr d, [0x80, 0xB0 + of_nat p]), (addr d, [0x80, 0x00]), (addr d, [0x80, 0x10]),
                (addr d, 0x40 # replicate 132 0)]) [0..<8]"
    using assms(3) by (simp add: page_frame_def cmd_txn_def upt_rec)
  with s log pg show ?thesis by auto
qed


theorem show_zero_frames_128x64_witness:
  "\<exists>d'. show_disp \<lparr>width = 128, height = 64, external_vcc = False, pages = 8, buffer = replicate 1024 0,
            line = replicate RAM_COLS 0, bus = \<lparr>i2c_log = [], i2c_nack = (\<lambda>_. False)\<rparr>, addr = 0x3C,
            tmp = [0, 0]\<rparr> = Inr d' \<and>
    i2c_log (bus d') = concat (map (\<lambda>p. [(0x3C, [0x80, 0xB0 + of_nat p]), (0x3C, [0x80, 0x00]),
        (0x3C, [0x80, 0x10]), (0x3C, 0x40 # replicate 132 0)]) [0..<8])"
proof -
  let ?d = "\<lparr>width = 128, height = 64, external_vcc = False, pages = 8, buffer = replicate 1024 (0::byte),
            line = replicate RAM_COLS 0, bus = \<lparr>i2c_log = [], i2c_nack = (\<lambda>_. False)\<rparr>, addr = 0x3C,
            tmp = [0, 0]\<rparr>"
  have wf: "drv_wf ?d" by (simp add: drv_wf_def RAM_COLS_def COL_OFFSET_def)
  have nn: "no_nack (bus ?d)" by (simp add: no_nack_def)
  have z: "set (buffer ?d) \<subseteq> {0}" by simp
  from show_zero_frames_128x64 [OF wf nn _ _ z] show ?thesis by simp
qed

text \<open>
  C3: refinement of the flush loop. With the reused line buffer and the early
  exits of the loop, \<open>show\<close> still writes exactly the abstract page frames, in
  ascending page order, keeps the frame buffer and keeps the driver well formed.
\<close>

theorem show_disp_frames:
  assumes "drv_wf d" "no_nack (bus d)"
  shows "\<exists>d'. show_disp d = Inr d' \<and> drv_wf d' \<and> buffer d' = buffer d \<and>
    i2c_log (bus d') = i2c_log (bus d) @ concat (map (page_frame (addr d) (width d) (buffer d)) [0..<pages d])"
  using drv_wf_show_pages_ok [OF assms] by blast

theorem show_disp_frames_witness:
  "\<exists>d'. show_disp \<lparr>width = 4, height = 16, external_vcc = False, pages = 2, buffer = [1, 2, 3, 4, 5, 6, 7, 8],
            line = replicate RAM_COLS 0, bus = \<lparr>i2c_log = [], i2c_nack = (\<lambda>_. False)\<rparr>, addr = 0x3C,
            tmp = [0, 0]\<rparr> = Inr d' \<and>
    i2c_log (bus d') = page_frame 0x3C 4 [1, 2, 3, 4, 5, 6, 7, 8] 0 @ page_frame 0x3C 4 [1, 2, 3, 4, 5, 6, 7, 8] 1"
proof -
  let ?d = "\<lparr>width = 4, height = 16, external_vcc = False, pages = 2, buffer = [1, 2, 3, 4, 5, 6, 7, (8::byte)],
            line = replicate RAM_COLS 0, bus = \<lparr>i2c_log = [], i2c_nack = (\<lambda>_. False)\<rparr>, addr = 0x3C,
            tmp = [0, 0]\<rparr>"
  have wf: "drv_wf ?d" by (simp add: drv_wf_def RAM_COLS_def COL_OFFSET_def)
  have nn: "no_nack (bus ?d)" by (simp add: no_nack_def)
  from show_disp_frames [OF wf nn] show ?thesis by (auto simp: upt_rec)
qed

text \<open>
  C4: the error path of a flush. If the device fails to acknowledge any of the
  \<open>4 * pages\<close> transactions of a flush, \<open>show\<close> raises \<open>OSError\<close>: the driver
  neither retries nor swallows a bus failure.
\<close>

theorem show_disp_nack_raises:
  assumes "drv_wf d" "j < 4 * pages d" "i2c_nack (bus d) (length (i2c_log (bus d)) + j)"
  shows "show_disp d = Inl OSError"
proof (cases "show_disp d")
  case (Inl e)
  with show_pages_Inl [of d "[0..<pages d]" e] assms(1) show ?thesis by (simp add: show_disp_def)
next
  case (Inr d')
  with show_pages_Inr [of d "[0..<pages d]" d'] assms show ?thesis by (simp add: show_disp_def)
qed


theorem show_disp_nack_raises_witness:
  "show_disp \<lparr>width = 4, height = 16, external_vcc = False, pages = 2, buffer = replicate 8 0,
      line = replicate RAM_COLS 0, bus = \<lparr>i2c_log = [], i2c_nack = (\<lambda>k. k = 5)\<rparr>, addr = 0x3C,
      tmp = [0, 0]\<rparr> = Inl OSError"
proof -
  let ?d = "\<lparr>width = 4, height = 16, external_vcc = False, pages = 2, buffer = replicate 8 (0::byte),
      line = replicate RAM_COLS 0, bus = \<lparr>i2c_log = [], i2c_nack = (\<lambda>k::nat. k = 5)\<rparr>, addr = 0x3C,
      tmp = [0, 0]\<rparr>"
  have wf: "drv_wf ?d" by (simp add: drv_wf_def RAM_COLS_def COL_OFFSET_def)
  show ?thesis using show_disp_nack_raises [OF wf, of 5] by simp
qed

text \<open>
  C5: constructing the driver for a 128x64 panel on a working bus sends the fixed
  configuration sequence, scrubs all eight pages of controller RAM with 132 zero
  bytes each, and flushes an all-zero frame; the driver is then well formed.
\<close>

theorem init_128x64_sequence:
  assumes "no_nack b" "i2c_log b = []"
  shows "\<exists>d. SSD1306_I2C 128 64 b a ext = Inr d \<and> drv_wf d \<and> buffer d = replicate 1024 0 \<and>
    i2c_log (bus d) = map (cmd_txn a) init_cmds @ concat (map (clear_frame a) [0..<8]) @
                      concat (map (page_frame a 128 (replicate 1024 0)) [0..<8])"
proof -
  let ?d0 = "\<lparr>width = 128, height = 64, external_vcc = ext, pages = 64 div 8,
                   buffer = replicate (128 * (64 div 8)) (0::byte), line = replicate RAM_COLS 0,
                   bus = b, addr = a, tmp = replicate 2 0\<rparr>"
  obtain t1 where c: "write_cmds ?d0 init_cmds =
     Inr (?d0\<lparr>tmp := t1, bus := (bus ?d0)\<lparr>i2c_log := i2c_log (bus ?d0) @ map (cmd_txn (addr ?d0)) init_cmds\<rparr>\<rparr>)"
    (is "_ = Inr ?d1")
    using write_cmds_ok [of ?d0 init_cmds] assms(1) by auto
  obtain t2 where r: "clear_controller_ram ?d1 =
     Inr (?d1\<lparr>tmp := t2, bus := (bus ?d1)\<lparr>i2c_log := i2c_log (bus ?d1) @ concat (map (clear_frame (addr ?d1)) [0..<pages ?d1])\<rparr>\<rparr>)"
    (is "_ = Inr ?d2")
    using clear_pages_ok [of ?d1 "[0..<pages ?d1]"] assms(1) by (auto simp: clear_controller_ram_def)
  let ?d3 = "fill_d ?d2 0"
  have z: "buffer ?d3 = replicate 1024 0"
  proof -
    have "set (buffer ?d3) \<subseteq> {0}"
      by (simp add: fill_d_def fbuf_def FrameBuffer_def fill_zero_stays_zero)
    moreover have "length (buffer ?d3) = 1024" by (simp add: fill_d_def fbuf_def FrameBuffer_def)
    ultimately show ?thesis using zero_list_eq by metis
  qed
  have wf3: "drv_wf ?d3" by (simp add: drv_wf_def fill_d_def fbuf_def FrameBuffer_def RAM_COLS_def COL_OFFSET_def)
  have nn3: "no_nack (bus ?d3)" using assms(1) by (simp add: fill_d_def)
  obtain d where s: "show_disp ?d3 = Inr d" and wf: "drv_wf d" and bd: "buffer d = buffer ?d3" and
    l: "i2c_log (bus d) = i2c_log (bus ?d3) @ concat (map (page_frame (addr ?d3) (width ?d3) (buffer ?d3)) [0..<pages ?d3])"
    using drv_wf_show_pages_ok [OF wf3 nn3] by blast
  have "SSD1306_I2C 128 64 b a ext = Inr d"
    unfolding SSD1306_I2C_def init_display_def c ebind_simps r s ..
  with wf bd z l assms(2) show ?thesis by (simp add: fill_d_def)
qed


theorem init_128x64_sequence_witness:
  "\<exists>d. SSD1306_I2C 128 64 \<lparr>i2c_log = [], i2c_nack = (\<lambda>_. False)\<rparr> 0x3C False = Inr d \<and> drv_wf d \<and>
     buffer d = replicate 1024 0 \<and>
     i2c_log (bus d) = map (cmd_txn 0x3C) init_cmds @ concat (map (clear_frame 0x3C) [0..<8]) @
                       concat (map (page_frame 0x3C 128 (replicate 1024 0)) [0..<8])"
  by (rule init_128x64_sequence) (simp_all add: no_nack_def)

text \<open>
  C6: a drawn pixel on the wire. After \<open>pixel(x, y, c)\<close> inside the panel and a
  flush, the flush selects page \<open>y' div 8\<close> of any panel pixel \<open>(x', y')\<close> and, in
  the data transaction of that page, bit \<open>y' mod 8\<close> of RAM column
  \<open>COL_OFFSET + x'\<close> (data byte \<open>1 + COL_OFFSET + x'\<close>, after the control byte) is
  the colour just drawn at \<open>(x, y)\<close> and what the frame buffer held everywhere else:
  the driver's page layout and the frame buffer's \<open>MONO_VLSB\<close> layout agree.
\<close>

theorem pixel_show_on_wire:
  assumes "drv_wf d" "no_nack (bus d)" "x < width d" "y < height d" "x' < width d" "y' < height d"
  shows "\<exists>d'. show_disp (pixel_d d (int x) (int y) c) = Inr d' \<and>
    i2c_log (bus d') ! (length (i2c_log (bus d)) + 4 * (y' div 8)) = cmd_txn (addr d) (0xB0 + int (y' div 8)) \<and>
    (let f = snd (i2c_log (bus d') ! (length (i2c_log (bus d)) + 4 * (y' div 8) + 3)) in
      hd f = 0x40 \<and>
      bit (f ! (1 + COL_OFFSET + x')) (y' mod 8) =
        (if x' = x \<and> y' = y then c \<noteq> 0 else get_pixel (fbuf d) (int x') (int y')))"
proof -
  let ?d1 = "pixel_d d (int x) (int y) c"
  have wf1: "drv_wf ?d1" using assms(1) by (simp add: pixel_d_def drv_wf_buffer_update fbuf_def FrameBuffer_def)
  have g: "width ?d1 = width d" "height ?d1 = height d" "addr ?d1 = addr d" "bus ?d1 = bus d" "pages ?d1 = pages d"
    by (simp_all add: pixel_d_def)
  from drv_wf_show_pages_ok [OF wf1] assms(2) g obtain d' where
    sh: "show_disp ?d1 = Inr d'" and
    log: "i2c_log (bus d') = i2c_log (bus d) @ concat (map (page_frame (addr d) (width d) (buffer ?d1)) [0..<pages d])"
    by auto
  have p: "y' div 8 < pages d" using assms(1,6) by (auto simp: drv_wf_def elim!: dvdE)
  have fr: "concat (map (page_frame (addr d) (width d) (buffer ?d1)) [0..<pages d]) ! (4 * (y' div 8) + k) =
            page_frame (addr d) (width d) (buffer ?d1) (y' div 8) ! k" if "k < 4" for k
    using nth_concat_map_4 [of "page_frame (addr d) (width d) (buffer ?d1)", OF _ p that] by simp
  have b: "bit (snd (page_frame (addr d) (width d) (buffer ?d1) (y' div 8) ! 3) ! (1 + COL_OFFSET + x')) (y' mod 8) =
           get_pixel (fbuf ?d1) (int x') (int y')"
  proof -
    have len: "width d * Suc (y' div 8) \<le> length (buffer ?d1)"
      using page_fits [OF p, of "width d"] wf1 g by (simp add: drv_wf_def)
    have co: "COL_OFFSET + width d \<le> RAM_COLS" using assms(1) by (simp add: drv_wf_def)
    show ?thesis using buffer_bit_get_pixel [OF wf1, of x' y'] page_line_visible [OF co len assms(5)] g assms(5,6)
      by (simp add: page_frame_def)
  qed
  have "get_pixel (fbuf ?d1) (int x') (int y') =
        (if x' = x \<and> y' = y then c \<noteq> 0 else get_pixel (fbuf d) (int x') (int y'))"
    using get_pixel_pixel [OF fb_wf_fbuf [OF assms(1)], of "int x" "int y" c "int x'" "int y'"] assms(3,4)
    by (auto simp: fbuf_pixel_d fb_in_fbuf)
  with b fr [of 0] fr [of 3] log sh show ?thesis by (simp add: nth_append page_frame_def Let_def)
qed

theorem pixel_show_on_wire_witness:
  "\<exists>d'. show_disp (pixel_d \<lparr>width = 4, height = 16, external_vcc = False, pages = 2, buffer = replicate 8 0,
            line = replicate RAM_COLS 0, bus = \<lparr>i2c_log = [], i2c_nack = (\<lambda>_. False)\<rparr>, addr = 0x3C,
            tmp = [0, 0]\<rparr> 2 13 1) = Inr d' \<and>
    i2c_log (bus d') ! 4 = cmd_txn 0x3C 0xB1 \<and> hd (snd (i2c_log (bus d') ! 7)) = 0x40 \<and>
    bit (snd (i2c_log (bus d') ! 7) ! 5) 5"
proof -
  let ?d = "\<lparr>width = 4, height = 16, external_vcc = False, pages = 2, buffer = replicate 8 (0::byte),
            line = replicate RAM_COLS 0, bus = \<lparr>i2c_log = [], i2c_nack = (\<lambda>_::nat. False)\<rparr>, addr = 0x3C,
            tmp = [0, 0]\<rparr>"
  have wf: "drv_wf ?d" by (simp add: drv_wf_def RAM_COLS_def COL_OFFSET_def)
  have nn: "no_nack (bus ?d)" by (simp add: no_nack_def)
  have e: "1 + COL_OFFSET + 2 = 5" by (simp add: COL_OFFSET_def)
  from pixel_show_on_wire [OF wf nn, of 2 13 2 13 1, unfolded e] show ?thesis by (simp add: Let_def)
qed

end
