(* ===== verification/Rotation.thy ===== *)
theory Rotation
  imports SSD1306
begin

text \<open>
  The coordinate rotator: the games draw in a 64x128 portrait space while the
  panel's memory is 128x64 landscape. Three pieces of code do the rotation.
  \<^item> The per-pixel remap \<open>draw_pixel\<close> of \<open>src/2048.py\<close> (copied verbatim in
    \<open>src/klotski.py\<close> and \<open>src/minesweeper.py\<close>): logical \<open>(x, y)\<close> goes to
    physical \<open>(y, 63 - x)\<close>, after clipping to the portrait box.
  \<^item> The whole-buffer blit \<open>show_virtual\<close> of \<open>src/dino.py\<close>, which reads the
    bytes of a portrait \<open>MONO_VLSB\<close> buffer and ORs every lit pixel into the
    driver's bytes at the rotated place, then flushes.
  \<^item> The rotate loop of \<open>show_centered_sideways\<close> and \<open>blit_pbm\<close> in
    \<open>src/asteroids.py\<close> (and its copies in Frogger, Galaga and Donkey Kong), which
    copies every lit pixel of a landscape \<open>MONO_HLSB\<close> buffer into a portrait one
    through \<open>(xx, yy) \<mapsto> (63 - yy, xx)\<close>.
  The inverse transform of the spec, portrait back to landscape, is
  \<open>rotate_back\<close>.
\<close>

unbundle bit_operations_syntax

subsection \<open>Per-pixel remap\<close>

definition draw_pixel :: "ssd1306 \<Rightarrow> int \<Rightarrow> int \<Rightarrow> int \<Rightarrow> ssd1306" where
  "draw_pixel oled x y c =
     (if 0 \<le> x \<and> x < 64 \<and> 0 \<le> y \<and> y < 128 then pixel_d oled y (63 - x) c else oled)"

text \<open>A drawing as a sequence of pixel writes, applied in order.\<close>

definition draw_all :: "ssd1306 \<Rightarrow> (int \<times> int \<times> int) list \<Rightarrow> ssd1306" where
  "draw_all oled ps = fold (\<lambda>(x, y, c) d. draw_pixel d x y c) ps oled"

definition fb_draw_all :: "framebuffer \<Rightarrow> (int \<times> int \<times> int) list \<Rightarrow> framebuffer" where
  "fb_draw_all fb ps = fold (\<lambda>(x, y, c) f. pixel f x y c) ps fb"

subsection \<open>Whole-buffer blit of Dino Run\<close>

definition VW :: nat where "VW = 64"
definition VH :: nat where "VH = 128"

text \<open>\<open>vbuf_bytes = bytearray(VW * (VH // 8))\<close> and its \<open>MONO_VLSB\<close> view.\<close>

definition vbuf0 :: framebuffer where
  "vbuf0 = FrameBuffer (replicate (VW * (VH div 8)) 0) VW VH MONO_VLSB"

text \<open>The body of the two loops of \<open>show_virtual\<close>, for source row \<open>y\<close> and column \<open>x\<close>.\<close>

definition virtual_px :: "byte list \<Rightarrow> byte list \<Rightarrow> nat \<Rightarrow> nat \<Rightarrow> byte list" where
  "virtual_px vbuf obuf y x =
     (let row_base = y div 8 * VW; bm = bitmask (y mod 8) in
      if vbuf ! (row_base + x) AND bm \<noteq> 0 then
        (let X = y; Y = VW - 1 - x; idx = X + Y div 8 * 128
         in obuf[idx := obuf ! idx OR bitmask (Y mod 8)])
      else obuf)"

definition show_virtual_blit :: "byte list \<Rightarrow> byte list \<Rightarrow> byte list" where
  "show_virtual_blit vbuf obuf =
     fold (\<lambda>y ob. fold (\<lambda>x ob'. virtual_px vbuf ob' y x) [0..<VW] ob) [0..<VH] obuf"

text \<open>\<open>show_virtual()\<close>: clear the driver's buffer, blit into it (an alias), flush.\<close>

definition show_virtual :: "ssd1306 \<Rightarrow> byte list \<Rightarrow> drv_error + ssd1306" where
  "show_virtual oled vbuf =
     (let o1 = fill_d oled 0 in show_disp (o1\<lparr>buffer := show_virtual_blit vbuf (buffer o1)\<rparr>))"

subsection \<open>Rotate loop of the sideways screens\<close>

text \<open>\<open>for xx in range(w): for yy in range(h): if fb.pixel(xx, yy): fb_rot.pixel(63 - yy, xx, 1)\<close>\<close>

definition rotate_into :: "framebuffer \<Rightarrow> framebuffer \<Rightarrow> nat \<Rightarrow> nat \<Rightarrow> framebuffer" where
  "rotate_into fb fb_rot w h =
     fold (\<lambda>xx r. fold (\<lambda>yy r'. if get_pixel fb (int xx) (int yy) then pixel r' (63 - int yy) (int xx) 1 else r')
                        [0..<h] r) [0..<w] fb_rot"

text \<open>The portrait buffer \<open>fb_rot\<close> of \<open>show_centered_sideways\<close>: allocated, cleared, rotated into.\<close>

definition sideways_rotate :: "framebuffer \<Rightarrow> framebuffer" where
  "sideways_rotate fb =
     rotate_into fb (fill (FrameBuffer (replicate (64 * 128 div 8) 0) 64 128 MONO_HLSB) 0) 128 64"

text \<open>The inverse transform: portrait \<open>(x, y)\<close> back to landscape \<open>(y, 63 - x)\<close>.\<close>

definition rotate_back :: "framebuffer \<Rightarrow> framebuffer" where
  "rotate_back fb_rot =
     fold (\<lambda>y r. fold (\<lambda>x r'. if get_pixel fb_rot (int x) (int y) then pixel r' (int y) (63 - int x) 1 else r')
                       [0..<64] r) [0..<128] (FrameBuffer (replicate (128 * 64 div 8) 0) 128 64 MONO_HLSB)"

subsection \<open>Lemmas: the rotations pixel by pixel\<close>

lemma rotate_into_fold:
  "rotate_into fb r w h = fold (\<lambda>a r. if get_pixel fb (int (fst a)) (int (snd a))
       then pixel r (63 - int (snd a)) (int (fst a)) 1 else r)
     (List.product [0..<w] [0..<h]) r"
  unfolding rotate_into_def fold_nested_product by (simp add: split_def)

lemma rotate_back_fold:
  "rotate_back P = fold (\<lambda>a r. if get_pixel P (int (snd a)) (int (fst a))
       then pixel r (int (fst a)) (63 - int (snd a)) 1 else r)
     (List.product [0..<128] [0..<64]) (FrameBuffer (replicate (128 * 64 div 8) 0) 128 64 MONO_HLSB)"
  unfolding rotate_back_def fold_nested_product by (simp add: split_def)

lemma portrait0_wf: "fb_wf (fill (FrameBuffer (replicate (64 * 128 div 8) 0) 64 128 MONO_HLSB) 0)"
  unfolding fb_wf_fill by (simp add: FrameBuffer_def fb_wf_def)

lemma portrait0_zero: "set (fb_bytes (fill (FrameBuffer (replicate (64 * 128 div 8) 0) 64 128 MONO_HLSB) 0)) \<subseteq> {0}"
  by (rule fill_zero_stays_zero) (simp add: FrameBuffer_def)

lemma landscape0_wf: "fb_wf (FrameBuffer (replicate (128 * 64 div 8) 0) 128 64 MONO_HLSB)"
  by (simp add: FrameBuffer_def fb_wf_def)

lemma rot_exists_iff:
  "(\<exists>a<128. \<exists>b<64. Q (int b) (int a) \<and> X = int a \<and> Y = 63 - int b) \<longleftrightarrow>
    0 \<le> X \<and> X < 128 \<and> 0 \<le> Y \<and> Y < 64 \<and> Q (63 - Y) X"
proof
  assume "\<exists>a<128. \<exists>b<64. Q (int b) (int a) \<and> X = int a \<and> Y = 63 - int b"
  then show "0 \<le> X \<and> X < 128 \<and> 0 \<le> Y \<and> Y < 64 \<and> Q (63 - Y) X" by auto
next
  assume "0 \<le> X \<and> X < 128 \<and> 0 \<le> Y \<and> Y < 64 \<and> Q (63 - Y) X"
  then have "nat X < 128" "nat (63 - Y) < 64" "Q (int (nat (63 - Y))) (int (nat X))"
    "X = int (nat X)" "Y = 63 - int (nat (63 - Y))" by auto
  then show "\<exists>a<128. \<exists>b<64. Q (int b) (int a) \<and> X = int a \<and> Y = 63 - int b" by blast
qed

lemma get_sideways_rotate:
  assumes "fb_width L = 128" "fb_height L = 64"
  shows "get_pixel (sideways_rotate L) px py \<longleftrightarrow>
    0 \<le> px \<and> px < 64 \<and> 0 \<le> py \<and> py < 128 \<and> get_pixel L py (63 - px)"
proof -
  have g0: "\<not> get_pixel (fill (FrameBuffer (replicate 1024 0) 64 128 MONO_HLSB) 0) qx qy" for qx qy
    using get_pixel_zero [OF portrait0_zero portrait0_wf] by simp
  have in0: "fb_in (FrameBuffer (replicate 1024 0) 64 128 MONO_HLSB) qx qy \<longleftrightarrow>
      0 \<le> qx \<and> qx < 64 \<and> 0 \<le> qy \<and> qy < 128" for qx qy
    by (simp add: fb_in_def FrameBuffer_def)
  have "get_pixel (sideways_rotate L) px py \<longleftrightarrow>
      (\<exists>a<128. \<exists>b<64. get_pixel L (int a) (int b) \<and> py = int a \<and> px = 63 - int b)"
    unfolding sideways_rotate_def rotate_into_fold get_pixel_set_loop [OF portrait0_wf]
    by (auto simp: g0 in0)
  then show ?thesis using rot_exists_iff [of "\<lambda>b a. get_pixel L a b" py px] by auto
qed

lemma get_rotate_back:
  "get_pixel (rotate_back P) lx ly \<longleftrightarrow> 0 \<le> lx \<and> lx < 128 \<and> 0 \<le> ly \<and> ly < 64 \<and> get_pixel P (63 - ly) lx"
proof -
  have g0: "\<not> get_pixel (FrameBuffer (replicate 1024 0) 128 64 MONO_HLSB) qx qy" for qx qy
    using get_pixel_zero [OF _ landscape0_wf] by (simp add: FrameBuffer_def)
  have in0: "fb_in (FrameBuffer (replicate 1024 0) 128 64 MONO_HLSB) qx qy \<longleftrightarrow>
      0 \<le> qx \<and> qx < 128 \<and> 0 \<le> qy \<and> qy < 64" for qx qy
    by (simp add: fb_in_def FrameBuffer_def)
  have "get_pixel (rotate_back P) lx ly \<longleftrightarrow>
      (\<exists>a<128. \<exists>b<64. get_pixel P (int b) (int a) \<and> lx = int a \<and> ly = 63 - int b)"
    unfolding rotate_back_fold get_pixel_set_loop [OF landscape0_wf]
    by (auto simp: g0 in0)
  then show ?thesis by (simp only: rot_exists_iff)
qed

text \<open>One step of the blit is a pixel set of the landscape VLSB buffer.\<close>

lemma virtual_px_step:
  assumes "x < 64" "y < 128"
  shows "(if get_pixel (FrameBuffer vb VW VH MONO_VLSB) (int x) (int y)
          then pixel (FrameBuffer ob 128 64 MONO_VLSB) (int y) (63 - int x) 1
          else FrameBuffer ob 128 64 MONO_VLSB) =
         FrameBuffer (virtual_px vb ob y x) 128 64 MONO_VLSB"
proof -
  have n: "nat (63 - int x) = 63 - x" using assms by simp
  have g: "get_pixel (FrameBuffer vb VW VH MONO_VLSB) (int x) (int y) \<longleftrightarrow>
      bit (vb ! (y div 8 * 64 + x)) (y mod 8)"
    using assms by (simp add: get_pixel_def fb_in_def fb_getpixel_def fb_pos_def FrameBuffer_def VW_def VH_def)
  show ?thesis
    unfolding g using assms
    by (simp add: pixel_def fb_in_def fb_setpixel_def fb_pos_def FrameBuffer_def n virtual_px_def
        VW_def Let_def and_bitmask_nonzero set_bitmask add.commute)
qed


lemma blit_set_loop:
  assumes "\<forall>(y, x)\<in>set ps. x < 64 \<and> y < 128"
  shows "FrameBuffer (fold (\<lambda>(y, x) ob. virtual_px vb ob y x) ps ob) 128 64 MONO_VLSB =
    fold (\<lambda>a r. if get_pixel (FrameBuffer vb VW VH MONO_VLSB) (int (snd a)) (int (fst a))
                 then pixel r (int (fst a)) (63 - int (snd a)) 1 else r) ps (FrameBuffer ob 128 64 MONO_VLSB)"
  using assms
proof (induction ps arbitrary: ob)
  case Nil
  then show ?case by simp
next
  case (Cons a ps)
  obtain y x where a: "a = (y, x)" by fastforce
  with Cons.prems have "x < 64" "y < 128" by auto
  note S = virtual_px_step [OF this, of vb ob]
  have IH: "FrameBuffer (fold (\<lambda>(y, x) ob. virtual_px vb ob y x) ps (virtual_px vb ob y x)) 128 64 MONO_VLSB =
    fold (\<lambda>a r. if get_pixel (FrameBuffer vb VW VH MONO_VLSB) (int (snd a)) (int (fst a))
                 then pixel r (int (fst a)) (63 - int (snd a)) 1 else r) ps
      (FrameBuffer (virtual_px vb ob y x) 128 64 MONO_VLSB)"
    using Cons.IH Cons.prems by simp
  show ?case unfolding a fold_Cons comp_apply fst_conv snd_conv prod.case S by (rule IH)
qed

lemma show_virtual_blit_fold:
  "FrameBuffer (show_virtual_blit vb ob) 128 64 MONO_VLSB =
    fold (\<lambda>a r. if get_pixel (FrameBuffer vb VW VH MONO_VLSB) (int (snd a)) (int (fst a))
                 then pixel r (int (fst a)) (63 - int (snd a)) 1 else r)
      (List.product [0..<128] [0..<64]) (FrameBuffer ob 128 64 MONO_VLSB)"
proof -
  have "show_virtual_blit vb ob = fold (\<lambda>(y, x) ob. virtual_px vb ob y x) (List.product [0..<128] [0..<64]) ob"
    unfolding show_virtual_blit_def fold_nested_product VW_def VH_def ..
  then show ?thesis using blit_set_loop [of "List.product [0..<128] [0..<64]" vb ob] by auto
qed

text \<open>The portrait picture and its landscape image agree pixel by pixel after one more pixel write.\<close>

lemma rotated_pixel:
  assumes "fb_wf L" "fb_wf P" "fb_width L = 128" "fb_height L = 64" "fb_width P = 64" "fb_height P = 128"
    "\<forall>X Y. get_pixel L X Y = get_pixel P (63 - Y) X"
  shows "\<forall>X Y. get_pixel (if 0 \<le> x \<and> x < 64 \<and> 0 \<le> y \<and> y < 128 then pixel L y (63 - x) c else L) X Y =
           get_pixel (pixel P x y c) (63 - Y) X"
proof (intro allI)
  fix X Y
  show "get_pixel (if 0 \<le> x \<and> x < 64 \<and> 0 \<le> y \<and> y < 128 then pixel L y (63 - x) c else L) X Y =
      get_pixel (pixel P x y c) (63 - Y) X"
  proof (cases "0 \<le> x \<and> x < 64 \<and> 0 \<le> y \<and> y < 128")
    case True
    have "fb_in L y (63 - x)" "fb_in P x y" using True assms(3-6) by (simp_all add: fb_in_def)
    moreover have "(X = y \<and> Y = 63 - x) \<longleftrightarrow> (63 - Y = x \<and> X = y)" by auto
    ultimately show ?thesis using True assms(7)
      by (simp add: get_pixel_pixel [OF assms(1)] get_pixel_pixel [OF assms(2)])
  next
    case False
    then have "\<not> fb_in P x y" using assms(5,6) by (auto simp: fb_in_def)
    then show ?thesis unfolding if_not_P [OF False] using assms(7) by (simp add: pixel_outside)
  qed
qed

lemma draw_pixel_geometry [simp]:
  "width (draw_pixel d x y c) = width d" "height (draw_pixel d x y c) = height d"
  "drv_wf (draw_pixel d x y c) = drv_wf d"
  by (simp_all add: draw_pixel_def pixel_d_def drv_wf_buffer_update fbuf_def FrameBuffer_def)

lemma draw_pixel_buffer: "draw_pixel d x y c = d\<lparr>buffer := buffer (draw_pixel d x y c)\<rparr>"
  by (simp add: draw_pixel_def pixel_d_def)

lemma fbuf_draw_pixel:
  "fbuf (draw_pixel d x y c) =
    (if 0 \<le> x \<and> x < 64 \<and> 0 \<le> y \<and> y < 128 then pixel (fbuf d) y (63 - x) c else fbuf d)"
  by (simp add: draw_pixel_def fbuf_pixel_d)

lemma fb_draw_all_geometry [simp]:
  "fb_width (fb_draw_all P ps) = fb_width P" "fb_height (fb_draw_all P ps) = fb_height P"
  "fb_stride (fb_draw_all P ps) = fb_stride P" "fb_format (fb_draw_all P ps) = fb_format P"
  "fb_wf (fb_draw_all P ps) = fb_wf P"
  unfolding fb_draw_all_def by (induction ps arbitrary: P; simp add: split_def)+

lemma draw_all_geometry [simp]:
  "width (draw_all d ps) = width d" "height (draw_all d ps) = height d"
  "drv_wf (draw_all d ps) = drv_wf d"
  unfolding draw_all_def by (induction ps arbitrary: d; simp add: split_def)+

lemma draw_all_only_buffer: "\<exists>b. draw_all d ps = d\<lparr>buffer := b\<rparr>"
  unfolding draw_all_def
proof (induction ps arbitrary: d)
  case Nil
  show ?case by (intro exI [of _ "buffer d"]) simp
next
  case (Cons a ps)
  obtain x y c where a: "a = (x, y, c)" by (cases a) auto
  obtain b1 where b1: "draw_pixel d x y c = d\<lparr>buffer := b1\<rparr>"
    using draw_pixel_buffer by blast
  obtain b2 where "fold (\<lambda>(x, y, c) d. draw_pixel d x y c) ps (d\<lparr>buffer := b1\<rparr>) = d\<lparr>buffer := b1, buffer := b2\<rparr>"
    using Cons.IH by blast
  then show ?case by (simp add: a b1) blast
qed

lemma frame_show_ok:
  assumes "drv_wf d" "no_nack (bus d)"
  shows "\<exists>d'. show_disp (draw_all (fill_d d 0) ps) = Inr d'"
proof -
  have wf: "drv_wf (draw_all (fill_d d 0) ps)"
    using assms(1) by (simp add: fill_d_def drv_wf_buffer_update fbuf_def FrameBuffer_def)
  obtain b where "draw_all (fill_d d 0) ps = (fill_d d 0)\<lparr>buffer := b\<rparr>" using draw_all_only_buffer by blast
  then have "no_nack (bus (draw_all (fill_d d 0) ps))" using assms(2) by (simp add: fill_d_def)
  from drv_wf_show_pages_ok [OF wf this] show ?thesis by blast
qed

lemma draw_all_buffer: "draw_all d ps = d\<lparr>buffer := buffer (draw_all d ps)\<rparr>"
  using draw_all_only_buffer [of d ps] by auto

lemma draw_all_rotated:
  assumes "drv_wf d" "width d = 128" "height d = 64" "fb_wf P" "fb_width P = 64" "fb_height P = 128"
    "\<forall>X Y. get_pixel (fbuf d) X Y = get_pixel P (63 - Y) X"
  shows "\<forall>X Y. get_pixel (fbuf (draw_all d ps)) X Y = get_pixel (fb_draw_all P ps) (63 - Y) X"
  using assms
proof (induction ps arbitrary: d P)
  case Nil
  then show ?case by (simp add: draw_all_def fb_draw_all_def)
next
  case (Cons a ps)
  obtain x y c where a: "a = (x, y, c)" by (cases a) auto
  let ?d = "draw_pixel d x y c" and ?P = "pixel P x y c"
  have L: "fb_wf (fbuf d)" "fb_width (fbuf d) = 128" "fb_height (fbuf d) = 64"
    using fb_wf_fbuf [OF Cons.prems(1)] Cons.prems(2,3) by (simp_all add: fbuf_def FrameBuffer_def)
  have "\<forall>X Y. get_pixel (fbuf ?d) X Y = get_pixel ?P (63 - Y) X"
    unfolding fbuf_draw_pixel by (rule rotated_pixel [OF L(1) Cons.prems(4) L(2,3) Cons.prems(5-7)])
  moreover have "drv_wf ?d" "width ?d = 128" "height ?d = 64" "fb_wf ?P" "fb_width ?P = 64" "fb_height ?P = 128"
    using Cons.prems by simp_all
  ultimately have "\<forall>X Y. get_pixel (fbuf (draw_all ?d ps)) X Y = get_pixel (fb_draw_all ?P ps) (63 - Y) X"
    using Cons.IH by blast
  then show ?case by (simp add: a draw_all_def fb_draw_all_def)
qed

lemma vbuf0_geometry:
  "fb_width vbuf0 = 64" "fb_height vbuf0 = 128" "fb_stride vbuf0 = 64" "fb_format vbuf0 = MONO_VLSB"
  by (simp_all add: vbuf0_def FrameBuffer_def VW_def VH_def)

lemma vbuf0_wf: "fb_wf vbuf0" and vbuf0_blank: "\<not> get_pixel vbuf0 X Y"
proof -
  show "fb_wf vbuf0" by (simp add: vbuf0_def fb_wf_def FrameBuffer_def VW_def VH_def)
  then show "\<not> get_pixel vbuf0 X Y"
    by (intro get_pixel_zero) (simp_all add: vbuf0_def FrameBuffer_def VW_def VH_def)
qed

subsection \<open>Properties of the rotations\<close>

text \<open>
  C7 (equivalence of the two rotation strategies). On a 128x64 panel, drawing a
  picture pixel by pixel through the portrait remap \<open>draw_pixel\<close> of 2048, Klotski
  and Minesweeper, after clearing, and drawing the same sequence of pixel writes into
  Dino's portrait buffer \<open>vbuf\<close> and flushing it with \<open>show_virtual\<close>, put the
  same bytes in the driver's buffer and the same transactions on the bus.
\<close>

theorem show_virtual_draw_all:
  assumes "drv_wf oled" "width oled = 128" "height oled = 64"
  shows "show_virtual oled (fb_bytes (fb_draw_all vbuf0 ps)) = show_disp (draw_all (fill_d oled 0) ps)"
proof -
  let ?o1 = "fill_d oled 0" and ?P = "fb_draw_all vbuf0 ps"
  let ?D = "draw_all ?o1 ps"
  let ?L = "FrameBuffer (show_virtual_blit (fb_bytes ?P) (buffer ?o1)) 128 64 MONO_VLSB"
  have o1: "drv_wf ?o1" "width ?o1 = 128" "height ?o1 = 64"
    using assms by (simp_all add: fill_d_def drv_wf_buffer_update fbuf_def FrameBuffer_def)
  have fo1: "fbuf ?o1 = FrameBuffer (buffer ?o1) 128 64 MONO_VLSB" using o1 by (simp add: fbuf_def)
  have blank: "\<not> get_pixel (fbuf ?o1) X Y" for X Y
    using get_pixel_fill [OF fb_wf_fbuf [OF assms(1)], of 0] by (simp add: fbuf_fill_d)
  have P: "fb_wf ?P" "fb_width ?P = 64" "fb_height ?P = 128" "fb_stride ?P = 64" "fb_format ?P = MONO_VLSB"
    by (simp_all add: vbuf0_wf vbuf0_geometry)
  have PV: "FrameBuffer (fb_bytes ?P) VW VH MONO_VLSB = ?P"
    by (rule framebuffer.equality) (simp_all add: vbuf0_geometry FrameBuffer_def VW_def VH_def)
  have D: "\<forall>X Y. get_pixel (fbuf ?D) X Y = get_pixel ?P (63 - Y) X"
    by (rule draw_all_rotated [OF o1 vbuf0_wf vbuf0_geometry(1,2)]) (simp add: blank vbuf0_blank)
  have wf0: "fb_wf (fbuf ?o1)" by (rule fb_wf_fbuf [OF o1(1)])
  have "get_pixel ?L X Y \<longleftrightarrow> 0 \<le> X \<and> X < 128 \<and> 0 \<le> Y \<and> Y < 64 \<and> get_pixel ?P (63 - Y) X" for X Y
  proof -
    have "get_pixel ?L X Y \<longleftrightarrow>
        (\<exists>a<128. \<exists>b<64. get_pixel ?P (int b) (int a) \<and> X = int a \<and> Y = 63 - int b)"
      unfolding show_virtual_blit_fold PV fo1 [symmetric] get_pixel_set_loop [OF wf0]
      using o1 by (auto simp: blank fb_in_fbuf)
    then show ?thesis by (simp only: rot_exists_iff)
  qed
  then have LD: "\<forall>X Y. get_pixel ?L X Y = get_pixel (fbuf ?D) X Y"
    using D P(2,3) by (auto dest: get_pixel_fb_in simp: fb_in_def)
  have exL: "fb_exact ?L"
    unfolding show_virtual_blit_fold set_loop_geometry fo1 [symmetric]
    using o1 by (simp add: fb_exact_def fbuf_def FrameBuffer_def drv_wf_def)
  have "drv_wf ?D" "width ?D = 128" "height ?D = 64" using o1 by simp_all
  then have exD: "fb_exact (fbuf ?D)" by (simp add: fb_exact_def fbuf_def FrameBuffer_def drv_wf_def)
  have "fb_bytes ?L = fb_bytes (fbuf ?D)"
    by (rule fb_bytes_eq_get_pixel [OF exL exD _ _ _ _ LD]) (simp_all add: o1 fbuf_def FrameBuffer_def)
  then have "show_virtual_blit (fb_bytes ?P) (buffer ?o1) = buffer ?D" by (simp add: fbuf_def FrameBuffer_def)
  then show ?thesis by (metis show_virtual_def draw_all_buffer)
qed

text \<open>The equivalence for a panel at power-on and a one-pixel drawing.\<close>

theorem show_virtual_draw_all_witness:
  "drv_wf (\<lparr>width = 128, height = 64, external_vcc = False, pages = 8, buffer = replicate 1024 0,
      line = replicate RAM_COLS 0, bus = \<lparr>i2c_log = [], i2c_nack = (\<lambda>_. False)\<rparr>, addr = 0x3C, tmp = [0, 0]\<rparr>) \<and> width (\<lparr>width = 128, height = 64, external_vcc = False, pages = 8, buffer = replicate 1024 0,
      line = replicate RAM_COLS 0, bus = \<lparr>i2c_log = [], i2c_nack = (\<lambda>_. False)\<rparr>, addr = 0x3C, tmp = [0, 0]\<rparr>) = 128 \<and> height (\<lparr>width = 128, height = 64, external_vcc = False, pages = 8, buffer = replicate 1024 0,
      line = replicate RAM_COLS 0, bus = \<lparr>i2c_log = [], i2c_nack = (\<lambda>_. False)\<rparr>, addr = 0x3C, tmp = [0, 0]\<rparr>) = 64 \<and>
   show_virtual (\<lparr>width = 128, height = 64, external_vcc = False, pages = 8, buffer = replicate 1024 0,
      line = replicate RAM_COLS 0, bus = \<lparr>i2c_log = [], i2c_nack = (\<lambda>_. False)\<rparr>, addr = 0x3C, tmp = [0, 0]\<rparr>) (fb_bytes (fb_draw_all vbuf0 [(1, 2, 1)])) = show_disp (draw_all (fill_d (\<lparr>width = 128, height = 64, external_vcc = False, pages = 8, buffer = replicate 1024 0,
      line = replicate RAM_COLS 0, bus = \<lparr>i2c_log = [], i2c_nack = (\<lambda>_. False)\<rparr>, addr = 0x3C, tmp = [0, 0]\<rparr>) 0) [(1, 2, 1)])"
  using show_virtual_draw_all [of "(\<lparr>width = 128, height = 64, external_vcc = False, pages = 8, buffer = replicate 1024 0,
      line = replicate RAM_COLS 0, bus = \<lparr>i2c_log = [], i2c_nack = (\<lambda>_. False)\<rparr>, addr = 0x3C, tmp = [0, 0]\<rparr>)" "[(1, 2, 1)]"]
  by (simp add: drv_wf_def RAM_COLS_def COL_OFFSET_def)

text \<open>
  C9 (portrait remap). On the 128x64 panel, \<open>draw_pixel(x, y, c)\<close> of 2048, Klotski
  and Minesweeper sets exactly the physical pixel \<open>(y, 63 - x)\<close> to \<open>c\<close> when the
  logical pixel lies in the 64x128 portrait screen, and changes nothing otherwise.
\<close>

theorem draw_pixel_rotates:
  assumes "drv_wf d" "width d = 128" "height d = 64"
  shows "get_pixel (fbuf (draw_pixel d x y c)) X Y =
    (if 0 \<le> x \<and> x < 64 \<and> 0 \<le> y \<and> y < 128 \<and> X = y \<and> Y = 63 - x then c \<noteq> 0
     else get_pixel (fbuf d) X Y)"
proof (cases "0 \<le> x \<and> x < 64 \<and> 0 \<le> y \<and> y < 128")
  case True
  then have "fb_in (fbuf d) y (63 - x)" using assms(2,3) by (simp add: fb_in_fbuf)
  then show ?thesis using True
    by (auto simp: fbuf_draw_pixel get_pixel_pixel [OF fb_wf_fbuf [OF assms(1)]])
next
  case False
  then show ?thesis by (auto simp: fbuf_draw_pixel)
qed

text \<open>The logical pixel \<open>(1, 2)\<close> lands on the physical pixel \<open>(2, 62)\<close>.\<close>

theorem draw_pixel_rotates_witness:
  "drv_wf (\<lparr>width = 128, height = 64, external_vcc = False, pages = 8, buffer = replicate 1024 0,
      line = replicate RAM_COLS 0, bus = \<lparr>i2c_log = [], i2c_nack = (\<lambda>_. False)\<rparr>, addr = 0x3C, tmp = [0, 0]\<rparr>) \<and> width (\<lparr>width = 128, height = 64, external_vcc = False, pages = 8, buffer = replicate 1024 0,
      line = replicate RAM_COLS 0, bus = \<lparr>i2c_log = [], i2c_nack = (\<lambda>_. False)\<rparr>, addr = 0x3C, tmp = [0, 0]\<rparr>) = 128 \<and> height (\<lparr>width = 128, height = 64, external_vcc = False, pages = 8, buffer = replicate 1024 0,
      line = replicate RAM_COLS 0, bus = \<lparr>i2c_log = [], i2c_nack = (\<lambda>_. False)\<rparr>, addr = 0x3C, tmp = [0, 0]\<rparr>) = 64 \<and> get_pixel (fbuf (draw_pixel (\<lparr>width = 128, height = 64, external_vcc = False, pages = 8, buffer = replicate 1024 0,
      line = replicate RAM_COLS 0, bus = \<lparr>i2c_log = [], i2c_nack = (\<lambda>_. False)\<rparr>, addr = 0x3C, tmp = [0, 0]\<rparr>) 1 2 1)) 2 62"
  using draw_pixel_rotates [of "(\<lparr>width = 128, height = 64, external_vcc = False, pages = 8, buffer = replicate 1024 0,
      line = replicate RAM_COLS 0, bus = \<lparr>i2c_log = [], i2c_nack = (\<lambda>_. False)\<rparr>, addr = 0x3C, tmp = [0, 0]\<rparr>)" 1 2 1 2 62]
  by (simp add: drv_wf_def RAM_COLS_def COL_OFFSET_def)

text \<open>
  C8 (round trip). The sideways rotation of \<open>show_centered_sideways\<close> loses
  nothing: for a landscape 128x64 \<open>MONO_HLSB\<close> buffer with no padding, rotating it
  into the portrait buffer and rotating the result back by the spec's inverse gives
  the original bytes.
\<close>

theorem sideways_rotate_roundtrip:
  assumes "fb_exact L" "fb_format L = MONO_HLSB" "fb_width L = 128" "fb_height L = 64"
  shows "fb_bytes (rotate_back (sideways_rotate L)) = fb_bytes L"
proof -
  let ?B = "rotate_back (sideways_rotate L)"
  have geo: "fb_exact ?B" "fb_width ?B = 128" "fb_height ?B = 64" "fb_stride ?B = 128" "fb_format ?B = MONO_HLSB"
    unfolding rotate_back_fold set_loop_geometry by (simp_all add: fb_exact_def FrameBuffer_def)
  have s: "fb_stride L = 128" using assms(1,3) by (simp add: fb_exact_def)
  show ?thesis
  proof (rule fb_bytes_eqI [OF geo(1) assms(1)])
    fix x y assume xy: "x < fb_width ?B" "y < fb_height ?B"
    then have "fb_getpixel ?B x y = get_pixel ?B (int x) (int y)" by (simp add: get_pixel_in)
    also have "\<dots> = get_pixel L (int x) (int y)"
      using xy geo assms(3,4) by (simp add: get_rotate_back get_sideways_rotate)
    also have "\<dots> = fb_getpixel L x y" using xy geo assms(3,4) by (simp add: get_pixel_in)
    finally show "fb_getpixel ?B x y = fb_getpixel L x y" .
  qed (simp_all add: geo assms s)
qed

text \<open>The round trip on a picture with one lit pixel.\<close>

theorem sideways_rotate_roundtrip_witness:
  "fb_exact (FrameBuffer (replicate 1023 0 @ [1]) 128 64 MONO_HLSB) \<and>
   fb_format (FrameBuffer (replicate 1023 0 @ [1]) 128 64 MONO_HLSB) = MONO_HLSB \<and>
   fb_width (FrameBuffer (replicate 1023 0 @ [1]) 128 64 MONO_HLSB) = 128 \<and>
   fb_height (FrameBuffer (replicate 1023 0 @ [1]) 128 64 MONO_HLSB) = 64 \<and>
   fb_bytes (rotate_back (sideways_rotate (FrameBuffer (replicate 1023 0 @ [1]) 128 64 MONO_HLSB))) =
     replicate 1023 0 @ [1]"
  using sideways_rotate_roundtrip [of "FrameBuffer (replicate 1023 0 @ [1]) 128 64 MONO_HLSB"]
  by (simp add: FrameBuffer_def fb_exact_def)

end
