(* ===== verification/Input.thy ===== *)
theory Input
  imports Prelude
begin

text \<open>
  The input sampler shared by the games: four active-low buttons read through
  \<open>Pin.value()\<close> (0 pressed, 1 released). The \<open>EdgeButtons\<close> class of
  \<open>src/2048.py\<close> (copied in \<open>src/klotski.py\<close> and \<open>src/minesweeper.py\<close>) keeps the
  last sampled level of each button and reports a press edge; \<open>wait_released\<close>
  polls until no button is held; the chord detectors \<open>detect_ud_action\<close>
  (\<open>src/klotski.py\<close>) and \<open>detect_action_chords\<close> (\<open>src/minesweeper.py\<close>) poll
  while two buttons are held. The polling loops are modelled over an explicit
  trace of samples, each the four pin levels and the value \<open>time.ticks_ms()\<close> read
  with them; a loop that exhausts the trace has not returned (\<open>None\<close>).
\<close>

text \<open>One reading of the four pins and of the millisecond clock.\<close>

record sample =
  s_up :: nat
  s_dn :: nat
  s_lf :: nat
  s_rt :: nat
  s_t :: nat

subsection \<open>Edge detection (\<open>EdgeButtons\<close>)\<close>

record edge_buttons =
  eb_u :: nat
  eb_d :: nat
  eb_l :: nat
  eb_r :: nat

type_synonym edges = "bool \<times> bool \<times> bool \<times> bool"

definition EdgeButtons :: edge_buttons where
  "EdgeButtons = \<lparr>eb_u = 1, eb_d = 1, eb_l = 1, eb_r = 1\<rparr>"

definition eb_update :: "edge_buttons \<Rightarrow> sample \<Rightarrow> edge_buttons \<times> edges" where
  "eb_update eb s =
     (let nu = s_up s; nd = s_dn s; nl = s_lf s; nr = s_rt s;
          pu = (eb_u eb = 1 \<and> nu = 0); pd = (eb_d eb = 1 \<and> nd = 0);
          pl = (eb_l eb = 1 \<and> nl = 0); pr = (eb_r eb = 1 \<and> nr = 0)
      in (\<lparr>eb_u = nu, eb_d = nd, eb_l = nl, eb_r = nr\<rparr>, (pu, pd, pl, pr)))"

text \<open>The edges reported by one \<open>update()\<close> per tick over a trace.\<close>

primrec eb_run :: "edge_buttons \<Rightarrow> sample list \<Rightarrow> edges list" where
  "eb_run eb [] = []"
| "eb_run eb (s # ss) = (let (eb', e) = eb_update eb s in e # eb_run eb' ss)"

subsection \<open>Waiting for release\<close>

text \<open>\<open>(not btn_up.value()) or ... or (not btn_right.value())\<close>\<close>

definition any_pressed :: "sample \<Rightarrow> bool" where
  "any_pressed s \<longleftrightarrow> s_up s = 0 \<or> s_dn s = 0 \<or> s_lf s = 0 \<or> s_rt s = 0"

text \<open>\<open>while any_pressed(): sleep_ms(10)\<close>, then the settle delay; the rest of the trace is returned.\<close>

fun wait_released :: "sample list \<Rightarrow> sample list option" where
  "wait_released [] = None"
| "wait_released (s # ss) = (if any_pressed s then wait_released ss else Some ss)"

subsection \<open>Chord detection\<close>

datatype ud_action = Reset | Grab

text \<open>
  The hold loop of \<open>detect_ud_action\<close>: while both buttons read pressed, report a
  long hold once the clock is more than 700 ms past \<open>t0\<close>; the loop ends when the
  chord breaks. \<open>True\<close> is the long hold.
\<close>

fun hold_loop :: "nat \<Rightarrow> sample list \<Rightarrow> (bool \<times> sample list) option" where
  "hold_loop t0 [] = None"
| "hold_loop t0 (s # ss) =
     (if s_up s = 0 \<and> s_dn s = 0
      then (if int (s_t s) - int t0 > 700 then Some (True, ss) else hold_loop t0 ss)
      else Some (False, ss))"

text \<open>\<open>detect_ud_action(last_action_ms)\<close> of Klotski: the first sample is \<open>chord_pressed()\<close> and \<open>now\<close>.\<close>

fun detect_ud_action :: "nat \<Rightarrow> sample list \<Rightarrow> (ud_action option \<times> sample list) option" where
  "detect_ud_action last_ms [] = None"
| "detect_ud_action last_ms (s0 # ss) =
     (if s_up s0 = 0 \<and> s_dn s0 = 0 then
        (case hold_loop (s_t s0) ss of
           None \<Rightarrow> None
         | Some (True, rest) \<Rightarrow> Some (Some Reset, rest)
         | Some (False, rest) \<Rightarrow>
             Some (if int (s_t s0) - int last_ms > 160 then Some Grab else None, rest))
      else Some (None, ss))"

datatype chord_action = Restart | Reveal | Flag

text \<open>The left+right loop of Minesweeper's \<open>detect_action_chords\<close>: no time limit.\<close>

fun lr_hold_loop :: "sample list \<Rightarrow> sample list option" where
  "lr_hold_loop [] = None"
| "lr_hold_loop (s # ss) = (if s_lf s = 0 \<and> s_rt s = 0 then lr_hold_loop ss else Some ss)"

text \<open>
  \<open>detect_action_chords(last_action_ms)\<close>: the up+down chord as in Klotski, then, if
  it produced nothing, the left+right chord tested on the levels of the first sample.
\<close>

fun detect_action_chords :: "nat \<Rightarrow> sample list \<Rightarrow> (chord_action option \<times> sample list) option" where
  "detect_action_chords last_ms [] = None"
| "detect_action_chords last_ms (s0 # ss) =
     (let now = s_t s0; cool = (int now - int last_ms > 160);
          lr = (\<lambda>rest. if s_lf s0 = 0 \<and> s_rt s0 = 0 then
                         (case lr_hold_loop rest of None \<Rightarrow> None
                          | Some rest' \<Rightarrow> Some (if cool then Some Flag else None, rest'))
                       else Some (None, rest))
      in if s_up s0 = 0 \<and> s_dn s0 = 0 then
           (case hold_loop now ss of
              None \<Rightarrow> None
            | Some (True, rest) \<Rightarrow> Some (Some Restart, rest)
            | Some (False, rest) \<Rightarrow> (if cool then Some (Some Reveal, rest) else lr rest))
         else lr ss)"

subsection \<open>Helpers of the statements\<close>

text \<open>The state \<open>update()\<close> leaves behind: the levels it has just read.\<close>

definition levels :: "sample \<Rightarrow> edge_buttons" where
  "levels s = \<lparr>eb_u = s_up s, eb_d = s_dn s, eb_l = s_lf s, eb_r = s_rt s\<rparr>"

text \<open>\<open>(btn_up.value() == 0) and (btn_down.value() == 0)\<close>\<close>

definition chord_held :: "sample \<Rightarrow> bool" where
  "chord_held s \<longleftrightarrow> s_up s = 0 \<and> s_dn s = 0"

text \<open>The shape of every polling loop: read samples while \<open>P\<close> holds, stop at the first that fails it.\<close>

fun poll_until :: "('a \<Rightarrow> bool) \<Rightarrow> 'a list \<Rightarrow> ('a \<times> 'a list) option" where
  "poll_until P [] = None"
| "poll_until P (s # ss) = (if P s then poll_until P ss else Some (s, ss))"

text \<open>
  The answer loop of the title and end screens of 2048 and Minesweeper
  (\<open>title_screen\<close>, \<open>win_screen\<close>, \<open>game_over_screen\<close>, \<open>end_screen\<close>): wait for
  release, then poll until up or down reads pressed; up is tested first and answers
  \<open>True\<close>.
\<close>

definition screen_choice :: "sample list \<Rightarrow> (bool \<times> sample list) option" where
  "screen_choice ss =
     (case wait_released ss of
        None \<Rightarrow> None
      | Some rest \<Rightarrow> map_option (\<lambda>(s, rest'). (s_up s = 0, rest')) (poll_until (\<lambda>s. s_up s \<noteq> 0 \<and> s_dn s \<noteq> 0) rest))"

text \<open>
  \<open>time.ticks_ms()\<close> right after a chord detector returns: the clock of the last sample
  it read (\<open>ss\<close> is the trace it was given, \<open>rest\<close> what it left).
\<close>

definition last_read :: "sample list \<Rightarrow> sample list \<Rightarrow> nat" where
  "last_read ss rest = s_t (ss ! (length ss - length rest - 1))"

text \<open>Building blocks of the example traces: a sample of the four levels at time \<open>t\<close>.\<close>

definition levels_at :: "nat \<Rightarrow> nat \<Rightarrow> nat \<Rightarrow> nat \<Rightarrow> nat \<Rightarrow> sample" where
  "levels_at u d l r t = \<lparr>s_up = u, s_dn = d, s_lf = l, s_rt = r, s_t = t\<rparr>"

text \<open>
  A trace read at the pace of the loops' \<open>sleep_ms(10)\<close>: each sample at least 10 ms
  after the one before.
\<close>

fun paced :: "sample list \<Rightarrow> bool" where
  "paced (a # b # ss) = (s_t a + 10 \<le> s_t b \<and> paced (b # ss))"
| "paced _ = True"

subsection \<open>Lemmas\<close>

lemma eb_update_eq:
  "eb_update eb s = (levels s, (eb_u eb = 1 \<and> s_up s = 0, eb_d eb = 1 \<and> s_dn s = 0,
                                eb_l eb = 1 \<and> s_lf s = 0, eb_r eb = 1 \<and> s_rt s = 0))"
  by (simp add: eb_update_def levels_def Let_def)

lemma length_eb_run [simp]: "length (eb_run eb ss) = length ss"
  by (induction ss arbitrary: eb) (simp_all add: eb_update_eq)

lemma wait_released_Some:
  "wait_released ss = Some rest \<longleftrightarrow>
    (\<exists>pre s. ss = pre @ s # rest \<and> (\<forall>p\<in>set pre. any_pressed p) \<and> \<not> any_pressed s)"
proof (induction ss)
  case Nil
  then show ?case by simp
next
  case (Cons a ss)
  show ?case
  proof (cases "any_pressed a")
    case True
    then have "wait_released (a # ss) = Some rest \<longleftrightarrow>
        (\<exists>pre s. ss = pre @ s # rest \<and> (\<forall>p\<in>set pre. any_pressed p) \<and> \<not> any_pressed s)"
      using Cons.IH by simp
    also have "\<dots> \<longleftrightarrow> (\<exists>pre s. a # ss = pre @ s # rest \<and> (\<forall>p\<in>set pre. any_pressed p) \<and> \<not> any_pressed s)"
    proof
      assume "\<exists>pre s. ss = pre @ s # rest \<and> (\<forall>p\<in>set pre. any_pressed p) \<and> \<not> any_pressed s"
      then obtain pre s where "ss = pre @ s # rest" "\<forall>p\<in>set pre. any_pressed p" "\<not> any_pressed s" by blast
      then show "\<exists>pre s. a # ss = pre @ s # rest \<and> (\<forall>p\<in>set pre. any_pressed p) \<and> \<not> any_pressed s"
        using True by (intro exI [of _ "a # pre"] exI [of _ s]) simp
    next
      assume "\<exists>pre s. a # ss = pre @ s # rest \<and> (\<forall>p\<in>set pre. any_pressed p) \<and> \<not> any_pressed s"
      then obtain pre s where e: "a # ss = pre @ s # rest" "\<forall>p\<in>set pre. any_pressed p" "\<not> any_pressed s" by blast
      with True obtain pre' where "pre = a # pre'" by (cases pre) auto
      with e show "\<exists>pre s. ss = pre @ s # rest \<and> (\<forall>p\<in>set pre. any_pressed p) \<and> \<not> any_pressed s" by auto
    qed
    finally show ?thesis .
  next
    case False
    have "(\<exists>pre s. a # ss = pre @ s # rest \<and> (\<forall>p\<in>set pre. any_pressed p) \<and> \<not> any_pressed s) \<longleftrightarrow> ss = rest"
    proof
      assume "\<exists>pre s. a # ss = pre @ s # rest \<and> (\<forall>p\<in>set pre. any_pressed p) \<and> \<not> any_pressed s"
      then obtain pre s where e: "a # ss = pre @ s # rest" "\<forall>p\<in>set pre. any_pressed p" by blast
      with False have "pre = []" by (cases pre) auto
      with e show "ss = rest" by simp
    qed (intro exI [of _ "[]"] exI [of _ a], simp add: False)
    then show ?thesis using False by auto
  qed
qed

lemma poll_until_Some:
  "poll_until P ss = Some (s, rest) \<longleftrightarrow> (\<exists>pre. ss = pre @ s # rest \<and> (\<forall>p\<in>set pre. P p) \<and> \<not> P s)"
proof (induction ss)
  case Nil
  then show ?case by simp
next
  case (Cons a ss)
  show ?case
  proof (cases "P a")
    case True
    have "(\<exists>pre. a # ss = pre @ s # rest \<and> (\<forall>p\<in>set pre. P p) \<and> \<not> P s) \<longleftrightarrow>
          (\<exists>pre. ss = pre @ s # rest \<and> (\<forall>p\<in>set pre. P p) \<and> \<not> P s)"
    proof
      assume "\<exists>pre. a # ss = pre @ s # rest \<and> (\<forall>p\<in>set pre. P p) \<and> \<not> P s"
      then obtain pre where e: "a # ss = pre @ s # rest" "\<forall>p\<in>set pre. P p" "\<not> P s" by blast
      with True obtain pre' where "pre = a # pre'" by (cases pre) auto
      with e show "\<exists>pre. ss = pre @ s # rest \<and> (\<forall>p\<in>set pre. P p) \<and> \<not> P s" by auto
    next
      assume "\<exists>pre. ss = pre @ s # rest \<and> (\<forall>p\<in>set pre. P p) \<and> \<not> P s"
      then obtain pre where "ss = pre @ s # rest" "\<forall>p\<in>set pre. P p" "\<not> P s" by blast
      with True show "\<exists>pre. a # ss = pre @ s # rest \<and> (\<forall>p\<in>set pre. P p) \<and> \<not> P s"
        by (intro exI [of _ "a # pre"]) simp
    qed
    with True Cons.IH show ?thesis by simp
  next
    case False
    have "(\<exists>pre. a # ss = pre @ s # rest \<and> (\<forall>p\<in>set pre. P p) \<and> \<not> P s) \<longleftrightarrow> a = s \<and> ss = rest"
    proof
      assume "\<exists>pre. a # ss = pre @ s # rest \<and> (\<forall>p\<in>set pre. P p) \<and> \<not> P s"
      then obtain pre where e: "a # ss = pre @ s # rest" "\<forall>p\<in>set pre. P p" by blast
      with False have "pre = []" by (cases pre) auto
      with e show "a = s \<and> ss = rest" by simp
    next
      assume "a = s \<and> ss = rest"
      with False show "\<exists>pre. a # ss = pre @ s # rest \<and> (\<forall>p\<in>set pre. P p) \<and> \<not> P s"
        by (intro exI [of _ "[]"]) simp
    qed
    with False show ?thesis by simp
  qed
qed

lemma poll_until_returns: "\<exists>s\<in>set ss. \<not> P s \<Longrightarrow> \<exists>r. poll_until P ss = Some r"
  by (induction ss) auto

lemma wait_released_poll: "wait_released ss = map_option snd (poll_until any_pressed ss)"
  by (induction ss) simp_all

lemma hold_loop_poll:
  "hold_loop t0 ss = map_option (\<lambda>(s, rest). (chord_held s, rest))
     (poll_until (\<lambda>s. chord_held s \<and> \<not> int (s_t s) - int t0 > 700) ss)"
  by (induction ss) (auto simp: chord_held_def)

lemma lr_hold_loop_poll: "lr_hold_loop ss = map_option snd (poll_until (\<lambda>s. s_lf s = 0 \<and> s_rt s = 0) ss)"
  by (induction ss) simp_all

lemma nth_71_take_72: "71 < length ss \<Longrightarrow> ss ! 71 \<in> set (take 72 ss)"
  by (simp only: in_set_conv_nth) (intro exI [of _ 71], simp)

lemma hold_loop_bounded:
  assumes "72 \<le> length ss" "\<forall>i < length ss. t0 + 10 * i \<le> s_t (ss ! i)"
  shows "\<exists>r rest. hold_loop t0 (take 72 ss) = Some (r, rest)"
proof -
  let ?P = "\<lambda>s. chord_held s \<and> \<not> int (s_t s) - int t0 > 700"
  have i: "71 < length ss" using assms(1) by simp
  have "t0 + 10 * 71 \<le> s_t (ss ! 71)" using assms(2) [rule_format, OF i] .
  then have "\<not> ?P (ss ! 71)" by simp
  with nth_71_take_72 [OF i] have "\<exists>s\<in>set (take 72 ss). \<not> ?P s" by blast
  then obtain s rest where "poll_until ?P (take 72 ss) = Some (s, rest)"
    using poll_until_returns [of "take 72 ss" ?P] by auto
  then have "hold_loop t0 (take 72 ss) = Some (chord_held s, rest)" by (simp add: hold_loop_poll)
  then show ?thesis by blast
qed

lemma hold_loop_append:
  "\<forall>p\<in>set pre. chord_held p \<and> int (s_t p) - int t0 \<le> 700 \<Longrightarrow> hold_loop t0 (pre @ ss) = hold_loop t0 ss"
  by (induction pre) (auto simp: chord_held_def)

lemma hold_loop_held:
  "list_all chord_held ss \<Longrightarrow> hold_loop t0 ss = Some (b, rest) \<Longrightarrow> b \<and> list_all chord_held rest"
  by (induction t0 ss rule: hold_loop.induct) (auto simp: chord_held_def split: if_splits)

lemma hold_loop_take:
  "hold_loop t0 (take k ss) = Some (r, rest) \<Longrightarrow> hold_loop t0 ss = Some (r, rest @ drop k ss)"
proof (induction t0 ss arbitrary: k rule: hold_loop.induct)
  case (1 t0)
  then show ?case by simp
next
  case (2 t0 s ss)
  then show ?case by (cases k) (auto split: if_splits)
qed

lemma hold_loop_drop:
  "hold_loop t0 ss = Some (r, rest) \<Longrightarrow> \<exists>j < length ss. rest = drop (Suc j) ss"
proof (induction t0 ss rule: hold_loop.induct)
  case (1 t0)
  then show ?case by simp
next
  case (2 t0 s ss)
  show ?case
  proof (cases "s_up s = 0 \<and> s_dn s = 0 \<and> \<not> int (s_t s) - int t0 > 700")
    case True
    with 2 obtain j where "j < length ss" "rest = drop (Suc j) ss" by auto
    then show ?thesis by (intro exI [of _ "Suc j"]) simp
  next
    case False
    with "2.prems" show ?thesis by (auto split: if_splits)
  qed
qed

lemma paced_nth: "paced (s # ss) \<Longrightarrow> i < length ss \<Longrightarrow> s_t s + 10 * Suc i \<le> s_t (ss ! i)"
proof (induction ss arbitrary: s i)
  case Nil
  then show ?case by simp
next
  case (Cons b ss)
  then show ?case by (cases i) (auto dest!: Cons.IH [of b])
qed

lemma paced_drop: "paced ss \<Longrightarrow> paced (drop k ss)"
proof (induction k arbitrary: ss)
  case 0
  then show ?case by simp
next
  case (Suc k)
  have "paced (drop 1 ss)" using Suc.prems by (cases ss rule: paced.cases) simp_all
  from Suc.IH [OF this] show ?case by simp
qed

lemma hold_loop_paced:
  assumes "list_all chord_held ss" "paced (s0 # ss)" "72 \<le> length ss"
  shows "\<exists>j < 72. hold_loop (s_t s0) ss = Some (True, drop (Suc j) ss)"
proof -
  have "\<forall>i < length ss. s_t s0 + 10 * i \<le> s_t (ss ! i)"
  proof (intro allI impI)
    fix i assume "i < length ss"
    from paced_nth [OF assms(2) this] show "s_t s0 + 10 * i \<le> s_t (ss ! i)" by simp
  qed
  from hold_loop_bounded [OF assms(3) this] obtain r rest where h: "hold_loop (s_t s0) (take 72 ss) = Some (r, rest)"
    by blast
  from hold_loop_drop [OF h] assms(3) obtain j where j: "j < 72" "rest = drop (Suc j) (take 72 ss)" by auto
  have "rest @ drop 72 ss = drop (Suc j) ss"
  proof -
    have "drop 72 ss = drop (71 - j) (drop (Suc j) ss)" using j(1) by simp
    moreover have "rest = take (71 - j) (drop (Suc j) ss)" using j by (simp add: drop_take)
    ultimately show ?thesis by (simp only: append_take_drop_id)
  qed
  with hold_loop_take [OF h] have "hold_loop (s_t s0) ss = Some (r, drop (Suc j) ss)" by simp
  moreover have "r" using hold_loop_held assms(1) calculation by blast
  ultimately show ?thesis using j(1) by auto
qed

subsection \<open>Properties of the input sampler\<close>

text \<open>
  C10 (edge detection). The \<open>i\<close>-th call of \<open>update()\<close> reports a press of a button
  exactly when that button reads 0 now and read 1 at the previous call (at the
  first call: the constructor's level 1).
\<close>

theorem eb_run_edges:
  assumes "i < length ss"
  shows "eb_run eb ss ! i =
    (let p = (if i = 0 then eb else levels (ss ! (i - 1))) in
     (eb_u p = 1 \<and> s_up (ss ! i) = 0, eb_d p = 1 \<and> s_dn (ss ! i) = 0,
      eb_l p = 1 \<and> s_lf (ss ! i) = 0, eb_r p = 1 \<and> s_rt (ss ! i) = 0))"
  using assms
proof (induction ss arbitrary: eb i)
  case Nil
  then show ?case by simp
next
  case (Cons s ss)
  show ?case
  proof (cases i)
    case 0
    then show ?thesis by (simp add: eb_update_eq)
  next
    case (Suc j)
    with Cons.prems have j: "j < length ss" by simp
    show ?thesis
      using Cons.IH [OF j, of "levels s"] Suc by (cases j) (simp_all add: eb_update_eq levels_def)
  qed
qed

text \<open>The spec's level sequence released, pressed, pressed, released on the up button.\<close>

theorem eb_run_edges_witness:
  "1 < length [\<lparr>s_up = 1, s_dn = 1, s_lf = 1, s_rt = 1, s_t = 0\<rparr>, \<lparr>s_up = 0, s_dn = 1, s_lf = 1, s_rt = 1, s_t = 20\<rparr>, \<lparr>s_up = 0, s_dn = 1, s_lf = 1, s_rt = 1, s_t = 40\<rparr>, \<lparr>s_up = 1, s_dn = 1, s_lf = 1, s_rt = 1, s_t = 60\<rparr>] \<and> fst (eb_run EdgeButtons [\<lparr>s_up = 1, s_dn = 1, s_lf = 1, s_rt = 1, s_t = 0\<rparr>, \<lparr>s_up = 0, s_dn = 1, s_lf = 1, s_rt = 1, s_t = 20\<rparr>, \<lparr>s_up = 0, s_dn = 1, s_lf = 1, s_rt = 1, s_t = 40\<rparr>, \<lparr>s_up = 1, s_dn = 1, s_lf = 1, s_rt = 1, s_t = 60\<rparr>] ! 1) \<and>
   map fst (eb_run EdgeButtons [\<lparr>s_up = 1, s_dn = 1, s_lf = 1, s_rt = 1, s_t = 0\<rparr>, \<lparr>s_up = 0, s_dn = 1, s_lf = 1, s_rt = 1, s_t = 20\<rparr>, \<lparr>s_up = 0, s_dn = 1, s_lf = 1, s_rt = 1, s_t = 40\<rparr>, \<lparr>s_up = 1, s_dn = 1, s_lf = 1, s_rt = 1, s_t = 60\<rparr>]) = [False, True, False, False]"
  using eb_run_edges [of 1 "[\<lparr>s_up = 1, s_dn = 1, s_lf = 1, s_rt = 1, s_t = 0\<rparr>, \<lparr>s_up = 0, s_dn = 1, s_lf = 1, s_rt = 1, s_t = 20\<rparr>, \<lparr>s_up = 0, s_dn = 1, s_lf = 1, s_rt = 1, s_t = 40\<rparr>, \<lparr>s_up = 1, s_dn = 1, s_lf = 1, s_rt = 1, s_t = 60\<rparr>]" EdgeButtons]
  by (simp add: EdgeButtons_def levels_def eb_update_def)

text \<open>
  The first sample: from the constructor's state, a sample with up at 0 and the
  other three lines at 1 reports a press of up and of nothing else.
\<close>

theorem eb_update_e2e:
  "eb_update EdgeButtons \<lparr>s_up = 0, s_dn = 1, s_lf = 1, s_rt = 1, s_t = t\<rparr> =
     (\<lparr>eb_u = 0, eb_d = 1, eb_l = 1, eb_r = 1\<rparr>, (True, False, False, False))"
  by (simp add: eb_update_def EdgeButtons_def)

text \<open>
  C12 (release wait). \<open>wait_released\<close> returns, and returns right after the first
  sample in which all four lines read 1 (released): if sample \<open>k\<close> is that first
  sample (every earlier one has some line at 0), the call returns the trace after it.
\<close>

theorem wait_released_first_release:
  assumes "k < length ss"
    and "s_up (ss ! k) \<noteq> 0 \<and> s_dn (ss ! k) \<noteq> 0 \<and> s_lf (ss ! k) \<noteq> 0 \<and> s_rt (ss ! k) \<noteq> 0"
    and "\<forall>j < k. s_up (ss ! j) = 0 \<or> s_dn (ss ! j) = 0 \<or> s_lf (ss ! j) = 0 \<or> s_rt (ss ! j) = 0"
  shows "wait_released ss = Some (drop (Suc k) ss)"
  using assms
proof (induction ss arbitrary: k)
  case Nil
  then show ?case by simp
next
  case (Cons s ss)
  show ?case
  proof (cases k)
    case 0
    with Cons.prems(2) show ?thesis by (simp add: any_pressed_def)
  next
    case (Suc k')
    from Cons.prems(3) Suc have "any_pressed s" by (auto simp: any_pressed_def)
    moreover have "wait_released ss = Some (drop (Suc k') ss)"
      using Cons.prems Suc by (intro Cons.IH) auto
    ultimately show ?thesis using Suc by simp
  qed
qed

theorem wait_released_first_release_witness:
  "1 < length [levels_at 1 0 1 1 0, levels_at 1 1 1 1 10, levels_at 0 1 1 1 20] \<and>
   wait_released [levels_at 1 0 1 1 0, levels_at 1 1 1 1 10, levels_at 0 1 1 1 20] = Some [levels_at 0 1 1 1 20]"
proof -
  have "wait_released [levels_at 1 0 1 1 0, levels_at 1 1 1 1 10, levels_at 0 1 1 1 20] =
        Some (drop (Suc 1) [levels_at 1 0 1 1 0, levels_at 1 1 1 1 10, levels_at 0 1 1 1 20])"
    by (rule wait_released_first_release) (auto simp: levels_at_def less_Suc_eq)
  then show ?thesis by simp
qed

text \<open>
  C13 (chord loop terminates). Every pass of the hold loop of \<open>detect_ud_action\<close>
  sleeps 10 ms, so the \<open>i\<close>-th sample after the chord is read at least \<open>10 i\<close> ms
  after it; then the call returns within 72 samples of the loop, whatever the buttons do.
\<close>

theorem detect_ud_action_returns:
  assumes "72 \<le> length ss" "\<forall>i < length ss. s_t s0 + 10 * i \<le> s_t (ss ! i)"
  shows "\<exists>r. detect_ud_action last_ms (s0 # take 72 ss) = Some r"
proof (cases "s_up s0 = 0 \<and> s_dn s0 = 0")
  case True
  from hold_loop_bounded [OF assms] obtain b rest where "hold_loop (s_t s0) (take 72 ss) = Some (b, rest)"
    by blast
  with True show ?thesis by (cases b) simp_all
next
  case False
  then show ?thesis by auto
qed

theorem detect_ud_action_returns_witness:
  "\<exists>r. detect_ud_action 0 (\<lparr>s_up = 0, s_dn = 0, s_lf = 1, s_rt = 1, s_t = 0\<rparr> # take 72 (map (\<lambda>i. \<lparr>s_up = 0, s_dn = 0, s_lf = 1, s_rt = 1, s_t = 10 * i\<rparr>) [0..<72])) = Some r"
  using detect_ud_action_returns [of "map (\<lambda>i. \<lparr>s_up = 0, s_dn = 0, s_lf = 1, s_rt = 1, s_t = 10 * i\<rparr>) [0..<72]" "\<lparr>s_up = 0, s_dn = 0, s_lf = 1, s_rt = 1, s_t = 0\<rparr>" 0] by simp

text \<open>
  C14 (chord semantics). A chord of up and down that stays held until the clock is
  more than 700 ms past its start yields \<open>"reset"\<close>; one that breaks before that
  yields \<open>"grab"\<close> when it started more than 160 ms after the last action, and
  nothing otherwise.
\<close>

theorem detect_ud_action_semantics:
  assumes "chord_held s0" "\<forall>p\<in>set pre. chord_held p \<and> int (s_t p) - int (s_t s0) \<le> 700"
  shows "(chord_held s \<and> int (s_t s) - int (s_t s0) > 700 \<longrightarrow>
           detect_ud_action last_ms (s0 # pre @ s # rest) = Some (Some Reset, rest)) \<and>
         (\<not> chord_held s \<longrightarrow>
           detect_ud_action last_ms (s0 # pre @ s # rest) =
             Some (if int (s_t s0) - int last_ms > 160 then Some Grab else None, rest))"
  using assms by (auto simp: hold_loop_append chord_held_def)

theorem detect_ud_action_semantics_witness:
  "detect_ud_action 0 [\<lparr>s_up = 0, s_dn = 0, s_lf = 1, s_rt = 1, s_t = 500\<rparr>, \<lparr>s_up = 0, s_dn = 0, s_lf = 1, s_rt = 1, s_t = 510\<rparr>, \<lparr>s_up = 1, s_dn = 0, s_lf = 1, s_rt = 1, s_t = 520\<rparr>] = Some (Some Grab, [])"
  using detect_ud_action_semantics [of "\<lparr>s_up = 0, s_dn = 0, s_lf = 1, s_rt = 1, s_t = 500\<rparr>" "[\<lparr>s_up = 0, s_dn = 0, s_lf = 1, s_rt = 1, s_t = 510\<rparr>]" "\<lparr>s_up = 1, s_dn = 0, s_lf = 1, s_rt = 1, s_t = 520\<rparr>" 0 "[]"] by (simp add: chord_held_def)

end
