(* ===== verification/Game2048.thy ===== *)
theory Game2048
  imports Input
begin

text \<open>
  The rules and the game loop of \<open>src/2048.py\<close>. The board is the list of four rows
  of four ints (\<open>b[r][c]\<close>); a move returns the flag \<open>moved\<close>, the points scored and
  the board it leaves (the source mutates \<open>b\<close> in place). The two random draws of
  \<open>add_tile\<close> are explicit arguments: the index drawn by \<open>random.randint(0,
  len(cells) - 1)\<close>, given as any \<open>k\<close> and reduced into range, and the outcome of
  \<open>random.random() < 0.10\<close>. The main loop is a step function on the record
  \<open>g2048\<close> of its local variables, driven by one event per iteration.
\<close>

type_synonym board = "int list list"

definition SIZE :: nat where "SIZE = 4"

subsection \<open>Board operations\<close>

definition empty_cells :: "board \<Rightarrow> (nat \<times> nat) list" where
  "empty_cells b = [(r, c). r \<leftarrow> [0..<SIZE], c \<leftarrow> [0..<SIZE], b ! r ! c = 0]"

text \<open>\<open>add_tile(b)\<close>: the board it leaves and its result.\<close>

definition add_tile :: "board \<Rightarrow> nat \<Rightarrow> bool \<Rightarrow> board \<times> bool" where
  "add_tile b k four =
     (let cells = empty_cells b in
      if cells = [] then (b, False)
      else let (r, c) = cells ! (k mod length cells)
           in (b[r := (b ! r)[c := (if four then 4 else 2)]], True))"

definition zero_board :: board where
  "zero_board = replicate SIZE (replicate SIZE 0)"

definition new_board :: "nat \<Rightarrow> bool \<Rightarrow> nat \<Rightarrow> bool \<Rightarrow> board" where
  "new_board k1 f1 k2 f2 = fst (add_tile (fst (add_tile zero_board k1 f1)) k2 f2)"

definition compress_line :: "int list \<Rightarrow> int list" where
  "compress_line line = (let out = [v \<leftarrow> line. v \<noteq> 0] in out @ replicate (SIZE - length out) 0)"

definition merge_line :: "int list \<Rightarrow> int list \<times> int" where
  "merge_line line =
     fold (\<lambda>i (l, score_add).
             if l ! i \<noteq> 0 \<and> l ! i = l ! (i + 1)
             then (let l' = l[i := l ! i * 2] in (l'[i + 1 := 0], score_add + l' ! i))
             else (l, score_add))
          [0..<SIZE - 1] (line, 0)"

text \<open>The row pipeline shared by the horizontal moves: compress, merge, compress.\<close>

definition slide :: "int list \<Rightarrow> int list \<times> int" where
  "slide line = (let (l, s) = merge_line (compress_line line) in (compress_line l, s))"

definition move_left :: "board \<Rightarrow> bool \<times> int \<times> board" where
  "move_left b =
     fold (\<lambda>r (moved, score_add, b).
             let (line, s) = slide (b ! r)
             in if line \<noteq> b ! r then (True, score_add + s, b[r := line])
                else (moved, score_add + s, b))
          [0..<SIZE] (False, 0, b)"

definition move_right :: "board \<Rightarrow> bool \<times> int \<times> board" where
  "move_right b =
     fold (\<lambda>r (moved, score_add, b).
             let (line, s) = slide (rev (b ! r)); line = rev line
             in if line \<noteq> b ! r then (True, score_add + s, b[r := line])
                else (moved, score_add + s, b))
          [0..<SIZE] (False, 0, b)"

text \<open>The inner loop of the vertical moves: write the new column back, noting any change.\<close>

definition write_col :: "nat \<Rightarrow> int list \<Rightarrow> bool \<times> board \<Rightarrow> bool \<times> board" where
  "write_col c col mb =
     fold (\<lambda>r (moved, b). (moved \<or> b ! r ! c \<noteq> col ! r, b[r := (b ! r)[c := col ! r]]))
          [0..<SIZE] mb"

definition move_up :: "board \<Rightarrow> bool \<times> int \<times> board" where
  "move_up b =
     fold (\<lambda>c (moved, score_add, b).
             let col = map (\<lambda>r. b ! r ! c) [0..<SIZE]; (col, s) = slide col;
                 (moved, b) = write_col c col (moved, b)
             in (moved, score_add + s, b))
          [0..<SIZE] (False, 0, b)"

definition move_down :: "board \<Rightarrow> bool \<times> int \<times> board" where
  "move_down b =
     fold (\<lambda>c (moved, score_add, b).
             let col = rev (map (\<lambda>r. b ! r ! c) [0..<SIZE]); (col, s) = slide col; col = rev col;
                 (moved, b) = write_col c col (moved, b)
             in (moved, score_add + s, b))
          [0..<SIZE] (False, 0, b)"

definition any_moves :: "board \<Rightarrow> bool" where
  "any_moves b \<longleftrightarrow> empty_cells b \<noteq> [] \<or>
     list_ex (\<lambda>r. list_ex (\<lambda>c. b ! r ! c = b ! r ! (c + 1)) [0..<SIZE - 1]) [0..<SIZE] \<or>
     list_ex (\<lambda>c. list_ex (\<lambda>r. b ! r ! c = b ! (r + 1) ! c) [0..<SIZE - 1]) [0..<SIZE]"

definition max_tile :: "board \<Rightarrow> int" where
  "max_tile b = fold (\<lambda>row m. fold (\<lambda>v m. if v > m then v else m) row m) b 0"

subsection \<open>The game loop (\<open>main\<close>)\<close>

text \<open>
  The local variables of \<open>main()\<close> and the screen the program is in. One event is
  one pass of a loop: \<open>Start go k1 f1 k2 f2\<close> is the title screen answering \<open>go\<close>
  and the two draws of \<open>new_board\<close>; \<open>Tick s k four win_cont again\<close> is one
  iteration of the inner loop, with the sample read by \<open>eb.update()\<close>, the draws of
  \<open>add_tile\<close>, and the answers the win screen and the game-over screen would give.
  An event the current screen does not read leaves the state unchanged.
\<close>

datatype mode2048 = Title | Playing | Exited

record g2048 =
  g_board :: board
  g_score :: int
  g_best :: int
  g_won :: bool
  g_eb :: edge_buttons
  g_mode :: mode2048

datatype ev2048 = Start bool nat bool nat bool | Tick sample nat bool bool bool

definition pick_move :: "edges \<Rightarrow> board \<Rightarrow> bool \<times> int \<times> board" where
  "pick_move e b = (case e of (pu, pd, pl, pr) \<Rightarrow>
     if pl then move_left b else if pr then move_right b else if pu then move_up b
     else if pd then move_down b else (False, 0, b))"

definition init2048 :: g2048 where
  "init2048 = \<lparr>g_board = zero_board, g_score = 0, g_best = 0, g_won = False, g_eb = EdgeButtons, g_mode = Title\<rparr>"

definition play_tick :: "g2048 \<Rightarrow> sample \<Rightarrow> nat \<Rightarrow> bool \<Rightarrow> bool \<Rightarrow> bool \<Rightarrow> g2048" where
  "play_tick g s k four win_cont again =
     (let (eb', edges) = eb_update (g_eb g) s; (moved, add, b) = pick_move edges (g_board g)
      in if \<not> moved then g\<lparr>g_eb := eb', g_board := b\<rparr>
         else let score = g_score g + add; best = (if score > g_best g then score else g_best g);
                  b = fst (add_tile b k four);
                  g1 = g\<lparr>g_eb := eb', g_board := b, g_score := score, g_best := best\<rparr>;
                  wins = (\<not> g_won g \<and> max_tile b \<ge> 2048)
              in if wins \<and> \<not> win_cont then g1\<lparr>g_won := True, g_mode := Exited\<rparr>
                 else let g2 = (if wins then g1\<lparr>g_won := True\<rparr> else g1)
                      in if \<not> any_moves b then g2\<lparr>g_mode := (if again then Title else Exited)\<rparr> else g2)"

definition step2048 :: "g2048 \<Rightarrow> ev2048 \<Rightarrow> g2048" where
  "step2048 g e = (case (g_mode g, e) of
     (Title, Start go k1 f1 k2 f2) \<Rightarrow>
        if go then g\<lparr>g_board := new_board k1 f1 k2 f2, g_score := 0, g_won := False, g_mode := Playing\<rparr>
        else g\<lparr>g_mode := Exited\<rparr>
   | (Playing, Tick s k four win_cont again) \<Rightarrow> play_tick g s k four win_cont again
   | _ \<Rightarrow> g)"

definition run2048 :: "g2048 \<Rightarrow> ev2048 list \<Rightarrow> g2048" where
  "run2048 g es = fold (\<lambda>e g. step2048 g e) es g"

subsection \<open>Reference rules and helpers of the statements\<close>

text \<open>
  The rule of 2048 for one row, written without the code's index loop: drop the
  empty cells, merge equal neighbours pairwise from the left (a merged tile does not
  merge again), pad with empty cells.
\<close>

fun pair_merge :: "int list \<Rightarrow> int list \<times> int" where
  "pair_merge (a # b # rest) =
     (if a = b then (let (r, s) = pair_merge rest in (2 * a # r, 2 * a + s))
      else (let (r, s) = pair_merge (b # rest) in (a # r, s)))"
| "pair_merge xs = (xs, 0)"

definition slide_ref :: "int list \<Rightarrow> int list \<times> int" where
  "slide_ref row = (let (ys, s) = pair_merge [v \<leftarrow> row. v \<noteq> 0] in (ys @ replicate (SIZE - length ys) 0, s))"

definition board_wf :: "board \<Rightarrow> bool" where
  "board_wf b \<longleftrightarrow> length b = SIZE \<and> list_all (\<lambda>row. length row = SIZE) b"

definition transpose4 :: "board \<Rightarrow> board" where
  "transpose4 b = map (\<lambda>c. map (\<lambda>r. b ! r ! c) [0..<SIZE]) [0..<SIZE]"

definition row_step :: "(int list \<Rightarrow> int list \<times> int) \<Rightarrow> nat \<Rightarrow> bool \<times> int \<times> board \<Rightarrow> bool \<times> int \<times> board" where
  "row_step g r = (\<lambda>(moved, score_add, b).
     let (line, s) = g (b ! r)
     in if line \<noteq> b ! r then (True, score_add + s, b[r := line]) else (moved, score_add + s, b))"

definition col_step :: "(int list \<Rightarrow> int list \<times> int) \<Rightarrow> nat \<Rightarrow> bool \<times> int \<times> board \<Rightarrow> bool \<times> int \<times> board" where
  "col_step g c = (\<lambda>(moved, score_add, b).
     let col = map (\<lambda>r. b ! r ! c) [0..<SIZE]; (col, s) = g col; (moved, b) = write_col c col (moved, b)
     in (moved, score_add + s, b))"

definition col_board :: "(int list \<Rightarrow> int list \<times> int) \<Rightarrow> board \<Rightarrow> nat \<Rightarrow> board" where
  "col_board g b k = map (\<lambda>r. map (\<lambda>c. if c < k then fst (g (transpose4 b ! c)) ! r else b ! r ! c) [0..<SIZE]) [0..<SIZE]"

fun has_pair :: "int list \<Rightarrow> bool" where
  "has_pair (a # b # rest) = (a = b \<or> has_pair (b # rest))"
| "has_pair _ = False"

function is_pow2 :: "int \<Rightarrow> bool" where
  "is_pow2 v = (if v \<le> 1 then v = 1 else v mod 2 = 0 \<and> is_pow2 (v div 2))"
  by auto

termination by (relation "measure nat") auto

definition tile_ok :: "int \<Rightarrow> bool" where
  "tile_ok v \<longleftrightarrow> v = 0 \<or> (2 \<le> v \<and> is_pow2 v)"

definition tiles_ok :: "board \<Rightarrow> bool" where
  "tiles_ok b \<longleftrightarrow> list_all (list_all tile_ok) b"

definition board_sum :: "board \<Rightarrow> int" where
  "board_sum b = sum_list (map sum_list b)"

declare is_pow2.simps [simp del]

definition move_ok :: "board \<Rightarrow> bool \<times> int \<times> board \<Rightarrow> bool" where
  "move_ok b r \<longleftrightarrow> (case r of (m, s, b') \<Rightarrow>
     board_wf b' \<and> tiles_ok b' \<and> board_sum b' = board_sum b \<and> 0 \<le> s)"

definition inv2048 :: "g2048 \<Rightarrow> bool" where
  "inv2048 g \<longleftrightarrow> board_wf (g_board g) \<and> tiles_ok (g_board g) \<and> 0 \<le> g_score g \<and> g_score g \<le> g_best g"

subsection \<open>Lemmas\<close>

lemma compress_line_eq: "compress_line row = [v \<leftarrow> row. v \<noteq> 0] @ replicate (SIZE - length [v \<leftarrow> row. v \<noteq> 0]) 0"
  by (simp add: compress_line_def Let_def)

lemma length_filter_4: "length row = SIZE \<Longrightarrow> length [v \<leftarrow> row. v \<noteq> 0] \<le> 4"
  using length_filter_le [of "\<lambda>v. v \<noteq> 0" row] by (simp add: SIZE_def)

lemma list_length_le_4_cases:
  assumes "length xs \<le> 4"
  obtains "xs = []" | a where "xs = [a]" | a b where "xs = [a, b]" | a b c where "xs = [a, b, c]"
    | a b c d where "xs = [a, b, c, d]"
  using assms by (auto simp: numeral_eq_Suc le_Suc_eq length_Suc_conv)

lemma slide_nonzero:
  assumes "length xs \<le> 4" "\<forall>v\<in>set xs. v \<noteq> 0"
  shows "(let (l, s) = merge_line (xs @ replicate (4 - length xs) 0) in
            (compress_line l, s)) = slide_ref xs"
  using assms(1)
proof (cases rule: list_length_le_4_cases)
qed (use assms(2) in \<open>simp_all add: merge_line_def slide_ref_def compress_line_def SIZE_def Let_def numeral_eq_Suc upt_rec\<close>)

lemma slide_eq_ref:
  assumes "length row = SIZE"
  shows "slide row = slide_ref row"
proof -
  let ?xs = "[v \<leftarrow> row. v \<noteq> 0]"
  have l: "length ?xs \<le> 4" using length_filter_4 [OF assms] .
  have nz: "\<forall>v\<in>set ?xs. v \<noteq> 0" by simp
  have "slide row = (let (l, s) = merge_line (?xs @ replicate (4 - length ?xs) 0) in (compress_line l, s))"
    by (simp add: slide_def compress_line_eq SIZE_def)
  also have "\<dots> = slide_ref ?xs" by (rule slide_nonzero [OF l nz])
  also have "\<dots> = slide_ref row" by (simp add: slide_ref_def)
  finally show ?thesis .
qed

lemma length_merge_line: "length (fst (merge_line l)) = length l"
proof -
  have "length (fst (fold (\<lambda>i (l, score_add).
             if l ! i \<noteq> 0 \<and> l ! i = l ! (i + 1)
             then (let l' = l[i := l ! i * 2] in (l'[i + 1 := 0], score_add + l' ! i))
             else (l, score_add)) xs (l, s))) = length l" for xs s
    by (induction xs arbitrary: l s) (simp_all add: Let_def)
  then show ?thesis by (simp add: merge_line_def)
qed

lemma length_compress_line: "length (compress_line row) = SIZE" if "length row \<le> SIZE"
proof -
  have "length [v \<leftarrow> row. v \<noteq> 0] \<le> SIZE" using length_filter_le [of "\<lambda>v. v \<noteq> 0" row] that by linarith
  then show ?thesis by (simp add: compress_line_def Let_def)
qed

lemma length_slide: "length row = SIZE \<Longrightarrow> length (fst (slide row)) = SIZE"
  by (simp add: slide_def split_def Let_def length_compress_line length_merge_line)

lemma move_left_row_step: "move_left b = fold (row_step slide) [0..<SIZE] (False, 0, b)"
proof -
  have "(\<lambda>r (moved, score_add, b).
             let (line, s) = slide (b ! r)
             in if line \<noteq> b ! r then (True, score_add + s, b[r := line])
                else (moved, score_add + s, b)) = row_step slide"
    by (auto simp: row_step_def fun_eq_iff split_def Let_def)
  then show ?thesis by (simp add: move_left_def)
qed

lemma move_right_row_step:
  "move_right b = fold (row_step (\<lambda>row. (rev (fst (slide (rev row))), snd (slide (rev row))))) [0..<SIZE] (False, 0, b)"
proof -
  have "(\<lambda>r (moved, score_add, b).
             let (line, s) = slide (rev (b ! r)); line = rev line
             in if line \<noteq> b ! r then (True, score_add + s, b[r := line])
                else (moved, score_add + s, b)) =
        row_step (\<lambda>row. (rev (fst (slide (rev row))), snd (slide (rev row))))"
    by (auto simp: row_step_def fun_eq_iff split_def Let_def)
  then show ?thesis by (simp add: move_right_def)
qed

lemma row_step_apply:
  "row_step g k (M, S, B) = (M \<or> fst (g (B ! k)) \<noteq> B ! k, S + snd (g (B ! k)), B[k := fst (g (B ! k))])"
  by (cases "fst (g (B ! k)) = B ! k") (auto simp: row_step_def split_def Let_def)

lemma fold_row_step:
  assumes "k \<le> length b"
  shows "fold (row_step g) [0..<k] (m, sa, b) =
    (m \<or> take k (map (\<lambda>row. fst (g row)) b) \<noteq> take k b, sa + sum_list (map (\<lambda>row. snd (g row)) (take k b)),
     map (\<lambda>row. fst (g row)) (take k b) @ drop k b)"
  using assms
proof (induction k)
  case 0
  then show ?case by simp
next
  case (Suc k)
  then have k: "k < length b" by simp
  let ?B = "map (\<lambda>row. fst (g row)) (take k b) @ drop k b"
  have nth: "?B ! k = b ! k" using k by (simp add: nth_append)
  have upd: "?B[k := fst (g (b ! k))] = map (\<lambda>row. fst (g row)) (take (Suc k) b) @ drop (Suc k) b"
    using k by (simp add: list_update_append take_Suc_conv_app_nth Cons_nth_drop_Suc [symmetric])
  have tk: "take (Suc k) (map (\<lambda>row. fst (g row)) b) \<noteq> take (Suc k) b \<longleftrightarrow>
      take k (map (\<lambda>row. fst (g row)) b) \<noteq> take k b \<or> fst (g (b ! k)) \<noteq> b ! k"
    using k by (simp add: take_Suc_conv_app_nth)
  have "fold (row_step g) [0..<Suc k] (m, sa, b) = row_step g k (fold (row_step g) [0..<k] (m, sa, b))"
    by simp
  also have "\<dots> = row_step g k (m \<or> take k (map (\<lambda>row. fst (g row)) b) \<noteq> take k b,
      sa + sum_list (map (\<lambda>row. snd (g row)) (take k b)), ?B)"
    using Suc.IH k by simp
  also have "\<dots> = (m \<or> take (Suc k) (map (\<lambda>row. fst (g row)) b) \<noteq> take (Suc k) b,
      sa + sum_list (map (\<lambda>row. snd (g row)) (take (Suc k) b)),
      map (\<lambda>row. fst (g row)) (take (Suc k) b) @ drop (Suc k) b)"
    unfolding row_step_apply nth upd tk using k by (simp add: take_Suc_conv_app_nth)
  finally show ?case .
qed

lemma move_left_closed:
  assumes "board_wf b"
  shows "move_left b = (map (fst \<circ> slide) b \<noteq> b, sum_list (map (snd \<circ> slide) b), map (fst \<circ> slide) b)"
  using assms fold_row_step [of SIZE b slide False 0] by (simp add: move_left_row_step board_wf_def comp_def)

lemma move_right_closed:
  assumes "board_wf b"
  shows "move_right b = (map (\<lambda>row. rev (fst (slide (rev row)))) b \<noteq> b,
     sum_list (map (\<lambda>row. snd (slide (rev row))) b), map (\<lambda>row. rev (fst (slide (rev row)))) b)"
  using assms fold_row_step [of SIZE b "\<lambda>row. (rev (fst (slide (rev row))), snd (slide (rev row)))" False 0]
  by (simp add: move_right_row_step board_wf_def comp_def)

lemma board_wf_map_rev: "board_wf (map rev b) = board_wf b"
  by (simp add: board_wf_def list_all_iff)

lemma move_up_col_step: "move_up b = fold (col_step slide) [0..<SIZE] (False, 0, b)"
proof -
  have "(\<lambda>c (moved, score_add, b).
             let col = map (\<lambda>r. b ! r ! c) [0..<SIZE]; (col, s) = slide col;
                 (moved, b) = write_col c col (moved, b)
             in (moved, score_add + s, b)) = col_step slide"
    by (auto simp: col_step_def fun_eq_iff split_def Let_def)
  then show ?thesis by (simp add: move_up_def)
qed

lemma move_down_col_step:
  "move_down b = fold (col_step (\<lambda>col. (rev (fst (slide (rev col))), snd (slide (rev col))))) [0..<SIZE] (False, 0, b)"
proof -
  have "(\<lambda>c (moved, score_add, b).
             let col = rev (map (\<lambda>r. b ! r ! c) [0..<SIZE]); (col, s) = slide col; col = rev col;
                 (moved, b) = write_col c col (moved, b)
             in (moved, score_add + s, b)) = col_step (\<lambda>col. (rev (fst (slide (rev col))), snd (slide (rev col))))"
    by (auto simp: col_step_def fun_eq_iff split_def Let_def)
  then show ?thesis by (simp add: move_down_def)
qed

lemma fold_write_col:
  assumes "k \<le> length b"
  shows "fold (\<lambda>r (moved, b). (moved \<or> b ! r ! c \<noteq> col ! r, b[r := (b ! r)[c := col ! r]])) [0..<k] (m, b) =
    (m \<or> (\<exists>r<k. b ! r ! c \<noteq> col ! r), map (\<lambda>r. (b ! r)[c := col ! r]) [0..<k] @ drop k b)"
  using assms
proof (induction k)
  case 0
  then show ?case by simp
next
  case (Suc k)
  then have k: "k < length b" by simp
  have nth: "(map (\<lambda>r. (b ! r)[c := col ! r]) [0..<k] @ drop k b) ! k = b ! k" using k by (simp add: nth_append)
  have upd: "(map (\<lambda>r. (b ! r)[c := col ! r]) [0..<k] @ drop k b)[k := (b ! k)[c := col ! k]] =
      map (\<lambda>r. (b ! r)[c := col ! r]) [0..<Suc k] @ drop (Suc k) b"
    using k by (simp add: list_update_append Cons_nth_drop_Suc [symmetric])
  have ex: "(\<exists>r<Suc k. b ! r ! c \<noteq> col ! r) \<longleftrightarrow> (\<exists>r<k. b ! r ! c \<noteq> col ! r) \<or> b ! k ! c \<noteq> col ! k"
    using less_Suc_eq by auto
  show ?case using Suc.IH k by (simp add: nth upd ex)
qed

lemma write_col_closed:
  "length b = SIZE \<Longrightarrow>
   write_col c col (m, b) = (m \<or> (\<exists>r<SIZE. b ! r ! c \<noteq> col ! r), map (\<lambda>r. (b ! r)[c := col ! r]) [0..<SIZE])"
  using fold_write_col [of SIZE b c col m] by (simp add: write_col_def)

lemma transpose4_nth: "c < SIZE \<Longrightarrow> transpose4 b ! c = map (\<lambda>r. b ! r ! c) [0..<SIZE]"
  by (simp add: transpose4_def)

lemma board_rebuild: "board_wf b \<Longrightarrow> map (\<lambda>r. map (\<lambda>c. b ! r ! c) [0..<SIZE]) [0..<SIZE] = b"
  by (auto simp: board_wf_def list_all_iff intro!: nth_equalityI)

lemma col_board_0: "board_wf b \<Longrightarrow> col_board g b 0 = b"
  by (simp add: col_board_def board_rebuild)

lemma list4_neq_nth: "length xs = SIZE \<Longrightarrow> length ys = SIZE \<Longrightarrow> xs \<noteq> ys \<longleftrightarrow> (\<exists>r<SIZE. xs ! r \<noteq> ys ! r)"
  by (auto simp: list_eq_iff_nth_eq)

lemma col_step_apply:
  assumes "k < SIZE" and g: "\<And>x. length x = SIZE \<Longrightarrow> length (fst (g x)) = SIZE"
  shows "col_step g k (M, S, col_board g b k) =
    (M \<or> fst (g (transpose4 b ! k)) \<noteq> transpose4 b ! k, S + snd (g (transpose4 b ! k)), col_board g b (Suc k))"
proof -
  let ?B = "col_board g b k" and ?T = "transpose4 b ! k"
  have col: "map (\<lambda>r. ?B ! r ! k) [0..<SIZE] = ?T"
    using assms(1) by (simp add: col_board_def transpose4_nth)
  have lT: "length ?T = SIZE" using assms(1) by (simp add: transpose4_nth)
  have lg: "length (fst (g ?T)) = SIZE" by (rule g [OF lT])
  have flag: "(\<exists>r<SIZE. ?B ! r ! k \<noteq> fst (g ?T) ! r) \<longleftrightarrow> fst (g ?T) \<noteq> ?T"
  proof -
    have "\<And>r. r < SIZE \<Longrightarrow> ?B ! r ! k = ?T ! r" using assms(1) by (simp add: col_board_def transpose4_nth)
    then show ?thesis using list4_neq_nth [OF lg lT] by auto
  qed
  have brd: "map (\<lambda>r. (?B ! r)[k := fst (g ?T) ! r]) [0..<SIZE] = col_board g b (Suc k)"
    using assms(1) by (auto simp: col_board_def nth_list_update less_Suc_eq intro!: nth_equalityI)
  have lB: "length ?B = SIZE" by (simp add: col_board_def)
  show ?thesis
    unfolding col_step_def using col write_col_closed [OF lB] flag brd
    by (simp add: split_def Let_def)
qed

lemma fold_col_step:
  assumes "k \<le> SIZE" "board_wf b" and g: "\<And>x. length x = SIZE \<Longrightarrow> length (fst (g x)) = SIZE"
  shows "fold (col_step g) [0..<k] (m, sa, b) =
    (m \<or> take k (map (\<lambda>x. fst (g x)) (transpose4 b)) \<noteq> take k (transpose4 b),
     sa + sum_list (map (\<lambda>x. snd (g x)) (take k (transpose4 b))), col_board g b k)"
  using assms(1)
proof (induction k)
  case 0
  then show ?case using col_board_0 [OF assms(2)] by simp
next
  case (Suc k)
  then have k: "k < SIZE" by simp
  have lt: "k < length (transpose4 b)" using k by (simp add: transpose4_def)
  have "fold (col_step g) [0..<Suc k] (m, sa, b) = col_step g k (fold (col_step g) [0..<k] (m, sa, b))" by simp
  also have "\<dots> = (m \<or> take (Suc k) (map (\<lambda>x. fst (g x)) (transpose4 b)) \<noteq> take (Suc k) (transpose4 b),
     sa + sum_list (map (\<lambda>x. snd (g x)) (take (Suc k) (transpose4 b))), col_board g b (Suc k))"
    using Suc.IH k lt col_step_apply [OF k g] by (auto simp: take_Suc_conv_app_nth)
  finally show ?case .
qed

lemma length_transpose4 [simp]: "length (transpose4 b) = SIZE"
  by (simp add: transpose4_def)

lemma board_wf_transpose4: "board_wf (transpose4 b)"
  by (simp add: board_wf_def transpose4_def list_all_iff)

lemma col_board_SIZE:
  assumes g: "\<And>x. length x = SIZE \<Longrightarrow> length (fst (g x)) = SIZE"
  shows "col_board g b SIZE = transpose4 (map (\<lambda>x. fst (g x)) (transpose4 b))"
  by (auto simp: col_board_def transpose4_def intro!: nth_equalityI)

lemma length_slide_rev: "length x = SIZE \<Longrightarrow> length (rev (fst (slide (rev x)))) = SIZE"
  by (simp add: length_slide)

lemma move_up_transpose:
  assumes "board_wf b"
  shows "move_up b = (let (m, s, b') = move_left (transpose4 b) in (m, s, transpose4 b'))"
  using fold_col_step [OF order_refl assms, of slide False 0] length_slide
    move_left_closed [OF board_wf_transpose4, of b] col_board_SIZE [of slide b]
  by (simp add: move_up_col_step comp_def)

lemma move_down_transpose:
  assumes "board_wf b"
  shows "move_down b = (let (m, s, b') = move_right (transpose4 b) in (m, s, transpose4 b'))"
  using fold_col_step [OF order_refl assms, of "\<lambda>col. (rev (fst (slide (rev col))), snd (slide (rev col)))" False 0]
    length_slide_rev move_right_closed [OF board_wf_transpose4, of b]
    col_board_SIZE [of "\<lambda>col. (rev (fst (slide (rev col))), snd (slide (rev col)))" b]
  by (simp add: move_down_col_step comp_def)

lemma pair_merge_no_pair: "\<not> has_pair xs \<Longrightarrow> pair_merge xs = (xs, 0)"
  by (induction xs rule: pair_merge.induct) (auto split: prod.splits)

lemma pair_merge_length_le: "length (fst (pair_merge xs)) \<le> length xs"
  by (induction xs rule: pair_merge.induct) (auto split: prod.splits)

lemma pair_merge_shorter: "has_pair xs \<Longrightarrow> length (fst (pair_merge xs)) < length xs"
proof (induction xs rule: pair_merge.induct)
  case (1 a b rest)
  show ?case
  proof (cases "a = b")
    case True
    then show ?thesis using pair_merge_length_le [of rest] by (simp add: split_def Let_def)
  next
    case False
    with "1.prems" have "has_pair (b # rest)" by simp
    with "1.IH"(2) [OF False] False show ?thesis by (simp add: split_def Let_def)
  qed
qed simp_all

lemma pair_merge_nonzero: "list_all (\<lambda>v. v \<noteq> 0) xs \<Longrightarrow> list_all (\<lambda>v. v \<noteq> 0) (fst (pair_merge xs))"
  by (induction xs rule: pair_merge.induct) (auto split: prod.splits)

lemma pair_merge_sum: "sum_list (fst (pair_merge xs)) = sum_list xs"
  by (induction xs rule: pair_merge.induct) (auto split: prod.splits)

lemma has_pair_mid: "has_pair (xs @ a # a # ys)"
  by (induction xs rule: has_pair.induct) auto

lemma has_pair_nth: "has_pair xs \<longleftrightarrow> (\<exists>i. Suc i < length xs \<and> xs ! i = xs ! Suc i)"
proof (induction xs rule: has_pair.induct)
  case (1 a b rest)
  have "(\<exists>i. Suc i < length (a # b # rest) \<and> (a # b # rest) ! i = (a # b # rest) ! Suc i) \<longleftrightarrow>
        a = b \<or> (\<exists>i. Suc i < length (b # rest) \<and> (b # rest) ! i = (b # rest) ! Suc i)"
    (is "?L \<longleftrightarrow> ?R")
  proof
    assume ?L
    then obtain i where "Suc i < length (a # b # rest)" "(a # b # rest) ! i = (a # b # rest) ! Suc i" by blast
    then show ?R by (cases i) auto
  next
    assume ?R
    then show ?L
    proof
      assume "a = b" then show ?L by (intro exI [of _ 0]) simp
    next
      assume "\<exists>i. Suc i < length (b # rest) \<and> (b # rest) ! i = (b # rest) ! Suc i"
      then obtain i where "Suc i < length (b # rest)" "(b # rest) ! i = (b # rest) ! Suc i" by blast
      then show ?L by (intro exI [of _ "Suc i"]) simp
    qed
  qed
  with "1.IH" show ?case by simp
qed (auto simp: less_Suc_eq_0_disj)

lemma has_pair_rev: "has_pair (rev xs) = has_pair xs"
proof -
  have "(\<exists>i. Suc i < length xs \<and> rev xs ! i = rev xs ! Suc i) \<longleftrightarrow> (\<exists>i. Suc i < length xs \<and> xs ! i = xs ! Suc i)"
  proof
    assume "\<exists>i. Suc i < length xs \<and> rev xs ! i = rev xs ! Suc i"
    then obtain i where i: "Suc i < length xs" "rev xs ! i = rev xs ! Suc i" by blast
    then show "\<exists>i. Suc i < length xs \<and> xs ! i = xs ! Suc i"
      by (intro exI [of _ "length xs - Suc (Suc i)"]) (auto simp: rev_nth Suc_diff_Suc)
  next
    assume "\<exists>i. Suc i < length xs \<and> xs ! i = xs ! Suc i"
    then obtain i where i: "Suc i < length xs" "xs ! i = xs ! Suc i" by blast
    then show "\<exists>i. Suc i < length xs \<and> rev xs ! i = rev xs ! Suc i"
      by (intro exI [of _ "length xs - Suc (Suc i)"]) (auto simp: rev_nth Suc_diff_Suc)
  qed
  then show ?thesis by (simp add: has_pair_nth)
qed

lemma filter_nonzero_compact: "list_all (\<lambda>v. v \<noteq> 0) ys \<Longrightarrow> [v \<leftarrow> ys @ replicate k 0. v \<noteq> 0] = ys"
  by (induction ys) auto

lemma slide_shape:
  assumes "length row = SIZE"
  shows "fst (slide row) = fst (pair_merge [v \<leftarrow> row. v \<noteq> 0]) @
           replicate (SIZE - length (fst (pair_merge [v \<leftarrow> row. v \<noteq> 0]))) 0"
  by (simp add: slide_eq_ref [OF assms] slide_ref_def split_def Let_def)

lemma slide_changes_pair:
  assumes "length row = SIZE" "Suc i < SIZE" "row ! i = row ! Suc i" "row ! i \<noteq> 0"
  shows "fst (slide row) \<noteq> row"
proof
  assume fx: "fst (slide row) = row"
  let ?xs = "[v \<leftarrow> row. v \<noteq> 0]" and ?ys = "fst (pair_merge [v \<leftarrow> row. v \<noteq> 0])"
  have d: "drop i row = row ! i # row ! Suc i # drop (Suc (Suc i)) row"
    using assms(1,2) by (simp add: Cons_nth_drop_Suc)
  have "?xs = [v \<leftarrow> take i row @ drop i row. v \<noteq> 0]" by (simp only: append_take_drop_id)
  also have "\<dots> = [v \<leftarrow> take i row. v \<noteq> 0] @ row ! i # row ! i # [v \<leftarrow> drop (Suc (Suc i)) row. v \<noteq> 0]"
    unfolding filter_append d using assms(3,4) by simp
  finally have "?xs = [v \<leftarrow> take i row. v \<noteq> 0] @ row ! i # row ! i # [v \<leftarrow> drop (Suc (Suc i)) row. v \<noteq> 0]" .
  then have "has_pair ?xs" by (simp add: has_pair_mid)
  then have short: "length ?ys < length ?xs" by (rule pair_merge_shorter)
  have nz: "list_all (\<lambda>v. v \<noteq> 0) ?ys" by (rule pair_merge_nonzero) (simp add: list_all_iff)
  have "?xs = [v \<leftarrow> fst (slide row). v \<noteq> 0]" using fx by simp
  also have "\<dots> = ?ys" unfolding slide_shape [OF assms(1)] by (rule filter_nonzero_compact [OF nz])
  finally show False using short by simp
qed

lemma slide_fixed_compact:
  assumes "length row = SIZE" "fst (slide row) = row"
  shows "\<exists>ys k. row = ys @ replicate k 0 \<and> list_all (\<lambda>v. v \<noteq> 0) ys"
proof -
  have "list_all (\<lambda>v. v \<noteq> 0) (fst (pair_merge [v \<leftarrow> row. v \<noteq> 0]))"
    by (rule pair_merge_nonzero) (simp add: list_all_iff)
  then show ?thesis using slide_shape [OF assms(1)] assms(2) by (intro exI conjI) auto
qed

lemma compact_both_ways:
  assumes "row = ys @ replicate k 0" "list_all (\<lambda>v. v \<noteq> 0) ys"
    "rev row = ys' @ replicate k' 0" "list_all (\<lambda>v. v \<noteq> (0::int)) ys'"
  shows "list_all (\<lambda>v. v = 0) row \<or> list_all (\<lambda>v. v \<noteq> 0) row"
proof (cases k)
  case 0
  then show ?thesis using assms(1,2) by simp
next
  case (Suc j)
  then have "rev row = 0 # rev (replicate j 0) @ rev ys" using assms(1) by (simp add: replicate_append_same)
  with assms(3,4) have "ys' = []" by (cases ys') auto
  then have "list_all (\<lambda>v. v = 0) (rev row)" using assms(3) by (simp add: list_all_iff)
  then show ?thesis by simp
qed

lemma slide_fixed_nonzero:
  assumes "length row = SIZE" "list_all (\<lambda>v. v \<noteq> 0) row" "\<not> has_pair row"
  shows "slide row = (row, 0)"
proof -
  have "[v \<leftarrow> row. v \<noteq> 0] = row" using assms(2) by (simp add: list_all_iff)
  then show ?thesis using assms by (simp add: slide_eq_ref slide_ref_def pair_merge_no_pair)
qed

lemma map_eq_self_iff: "map f xs = xs \<longleftrightarrow> (\<forall>x\<in>set xs. f x = x)"
  by (induction xs) auto

lemma empty_cells_expand: "empty_cells b = concat (map (\<lambda>r. concat (map (\<lambda>c. if b ! r ! c = 0 then [(r, c)] else []) [0..<SIZE])) [0..<SIZE])"
  by (simp add: empty_cells_def)

lemma set_empty_cells: "(r, c) \<in> set (empty_cells b) \<longleftrightarrow> r < SIZE \<and> c < SIZE \<and> b ! r ! c = 0"
  unfolding empty_cells_expand set_concat set_map by (auto split: if_splits)

lemma empty_cells_iff: "empty_cells b \<noteq> [] \<longleftrightarrow> (\<exists>r<SIZE. \<exists>c<SIZE. b ! r ! c = 0)"
proof -
  have "empty_cells b \<noteq> [] \<longleftrightarrow> (\<exists>r c. (r, c) \<in> set (empty_cells b))"
  proof
    assume "empty_cells b \<noteq> []"
    then obtain y ys where e: "empty_cells b = y # ys" by (cases "empty_cells b") auto
    obtain r c where "y = (r, c)" by fastforce
    with e show "\<exists>r c. (r, c) \<in> set (empty_cells b)" by auto
  qed auto
  also have "\<dots> \<longleftrightarrow> (\<exists>r<SIZE. \<exists>c<SIZE. b ! r ! c = 0)" by (simp add: set_empty_cells)
  finally show ?thesis .
qed

lemma pair_ex_iff:
  "length row = SIZE \<Longrightarrow> list_ex (\<lambda>c. row ! c = row ! (c + 1)) [0..<SIZE - 1] \<longleftrightarrow> has_pair row"
  by (auto simp: has_pair_nth list_ex_iff SIZE_def)

lemma transpose4_nth_nth: "c < SIZE \<Longrightarrow> r < SIZE \<Longrightarrow> transpose4 b ! c ! r = b ! r ! c"
  by (simp add: transpose4_def)

lemma set_transpose4: "col \<in> set (transpose4 b) \<longleftrightarrow> (\<exists>c<SIZE. col = map (\<lambda>r. b ! r ! c) [0..<SIZE])"
  by (auto simp: transpose4_def)

lemma set_board: "board_wf b \<Longrightarrow> row \<in> set b \<longleftrightarrow> (\<exists>r<SIZE. row = b ! r)"
  by (auto simp: board_wf_def in_set_conv_nth)

lemma row_length: "board_wf b \<Longrightarrow> row \<in> set b \<Longrightarrow> length row = SIZE"
  by (auto simp: board_wf_def list_all_iff)

text \<open>The four moved flags, read off the closed forms.\<close>

lemma moved_flags:
  assumes "board_wf b"
  shows "fst (move_left b) \<longleftrightarrow> (\<exists>row\<in>set b. fst (slide row) \<noteq> row)"
    and "fst (move_right b) \<longleftrightarrow> (\<exists>row\<in>set b. rev (fst (slide (rev row))) \<noteq> row)"
    and "fst (move_up b) \<longleftrightarrow> (\<exists>col\<in>set (transpose4 b). fst (slide col) \<noteq> col)"
    and "fst (move_down b) \<longleftrightarrow> (\<exists>col\<in>set (transpose4 b). rev (fst (slide (rev col))) \<noteq> col)"
  using move_left_closed [OF assms] move_right_closed [OF assms]
    move_up_transpose [OF assms] move_down_transpose [OF assms]
    move_left_closed [OF board_wf_transpose4, of b] move_right_closed [OF board_wf_transpose4, of b]
  by (simp_all add: map_eq_self_iff split_def comp_def)

text \<open>A line that no move changes is all empty or all full.\<close>

lemma fixed_line:
  assumes "length row = SIZE" "fst (slide row) = row" "rev (fst (slide (rev row))) = row"
  shows "list_all (\<lambda>v. v = 0) row \<or> list_all (\<lambda>v. v \<noteq> 0) row"
proof -
  obtain ys k where 1: "row = ys @ replicate k 0" "list_all (\<lambda>v. v \<noteq> 0) ys"
    using slide_fixed_compact [OF assms(1,2)] by blast
  have "fst (slide (rev row)) = rev row" using assms(3) by (metis rev_rev_ident)
  then obtain ys' k' where 2: "rev row = ys' @ replicate k' 0" "list_all (\<lambda>v. v \<noteq> 0) ys'"
    using slide_fixed_compact [of "rev row"] assms(1) by auto
  show ?thesis by (rule compact_both_ways [OF 1 2])
qed

lemma fixed_line_nonzero:
  assumes "length row = SIZE" "list_all (\<lambda>v. v \<noteq> 0) row" "\<not> has_pair row"
  shows "fst (slide row) = row \<and> rev (fst (slide (rev row))) = row"
proof -
  have "list_all (\<lambda>v. v \<noteq> 0) (rev row)" "\<not> has_pair (rev row)" "length (rev row) = SIZE"
    using assms by (simp_all add: has_pair_rev)
  then show ?thesis using slide_fixed_nonzero [OF assms] slide_fixed_nonzero [of "rev row"] by simp
qed

lemma is_pow2_double: "1 \<le> v \<Longrightarrow> is_pow2 (2 * v) = is_pow2 v"
  by (subst is_pow2.simps) simp

lemma tile_ok_double: "tile_ok a \<Longrightarrow> a \<noteq> 0 \<Longrightarrow> tile_ok (2 * a)"
  by (auto simp: tile_ok_def is_pow2_double)

lemma tile_ok_nonneg: "tile_ok a \<Longrightarrow> 0 \<le> a"
  by (auto simp: tile_ok_def)

lemma pair_merge_tiles:
  "list_all (\<lambda>v. tile_ok v \<and> v \<noteq> 0) xs \<Longrightarrow> list_all (\<lambda>v. tile_ok v \<and> v \<noteq> 0) (fst (pair_merge xs))"
  by (induction xs rule: pair_merge.induct) (auto split: prod.splits simp: tile_ok_double)

lemma pair_merge_score_nonneg: "list_all (\<lambda>v. 0 \<le> v) xs \<Longrightarrow> 0 \<le> snd (pair_merge xs)"
  by (induction xs rule: pair_merge.induct) (auto split: prod.splits)

lemma slide_snd: "length row = SIZE \<Longrightarrow> snd (slide row) = snd (pair_merge [v \<leftarrow> row. v \<noteq> 0])"
  by (simp add: slide_eq_ref slide_ref_def split_def Let_def)

lemma sum_list_filter_nonzero: "sum_list [v \<leftarrow> row. v \<noteq> 0] = sum_list (row :: int list)"
  by (induction row) auto

lemma slide_tiles:
  assumes "length row = SIZE" "list_all tile_ok row"
  shows "list_all tile_ok (fst (slide row)) \<and> 0 \<le> snd (slide row) \<and> sum_list (fst (slide row)) = sum_list row"
proof -
  let ?xs = "[v \<leftarrow> row. v \<noteq> 0]"
  let ?ys = "fst (pair_merge ?xs)"
  have t: "list_all (\<lambda>v. tile_ok v \<and> v \<noteq> 0) ?xs" using assms(2) by (simp add: list_all_iff)
  have t': "list_all tile_ok ?ys" by (rule list.pred_mono_strong [OF pair_merge_tiles [OF t]]) simp
  have n: "list_all (\<lambda>v. 0 \<le> v) ?xs" by (rule list.pred_mono_strong [OF t]) (simp add: tile_ok_nonneg)
  have a: "list_all tile_ok (fst (slide row))"
    using t' by (simp only: slide_shape [OF assms(1)] list_all_append) (simp add: tile_ok_def list_all_iff)
  have b: "0 \<le> snd (slide row)"
    unfolding slide_snd [OF assms(1)] by (rule pair_merge_score_nonneg [OF n])
  have c: "sum_list (fst (slide row)) = sum_list row"
    by (simp only: slide_shape [OF assms(1)] sum_list_append pair_merge_sum sum_list_filter_nonzero)
       (simp add: sum_list_replicate)
  from a b c show ?thesis by blast
qed

lemma map_rows_ok:
  assumes "board_wf b" "tiles_ok b"
    and f: "\<And>row. length row = SIZE \<Longrightarrow> list_all tile_ok row \<Longrightarrow>
              length (f row) = SIZE \<and> list_all tile_ok (f row) \<and> sum_list (f row) = sum_list row"
  shows "board_wf (map f b) \<and> tiles_ok (map f b) \<and> board_sum (map f b) = board_sum b"
proof -
  have r: "\<And>row. row \<in> set b \<Longrightarrow> length row = SIZE \<and> list_all tile_ok row"
    using assms(1,2) by (auto simp: board_wf_def tiles_ok_def list_all_iff)
  have eq: "map (\<lambda>row. sum_list (f row)) b = map sum_list b" using f r by (auto intro!: map_cong)
  have "board_sum (map f b) = board_sum b" by (simp only: board_sum_def map_map comp_def eq)
  moreover have "board_wf (map f b) \<and> tiles_ok (map f b)"
    using assms(1) f r by (auto simp: board_wf_def tiles_ok_def list_all_iff)
  ultimately show ?thesis by blast
qed

lemma sum_list_nonneg_map: "(\<And>x. x \<in> set xs \<Longrightarrow> 0 \<le> f x) \<Longrightarrow> 0 \<le> sum_list (map f xs :: int list)"
  by (induction xs) auto

lemma tiles_ok_transpose4:
  assumes "board_wf b" "tiles_ok b"
  shows "tiles_ok (transpose4 b)"
proof -
  have "\<And>r c. r < SIZE \<Longrightarrow> c < SIZE \<Longrightarrow> tile_ok (b ! r ! c)"
  proof -
    fix r c assume rc: "r < SIZE" "c < SIZE"
    have l: "length b = SIZE" "length (b ! r) = SIZE" using assms(1) rc by (auto simp: board_wf_def list_all_iff)
    have "b ! r \<in> set b" using l rc by simp
    moreover have "b ! r ! c \<in> set (b ! r)" using l rc by simp
    ultimately show "tile_ok (b ! r ! c)" using assms(2) by (auto simp: tiles_ok_def list_all_iff)
  qed
  then show ?thesis by (auto simp: tiles_ok_def transpose4_def list_all_iff)
qed

lemma board_sum_transpose4:
  assumes "board_wf b"
  shows "board_sum (transpose4 b) = board_sum b"
proof -
  have "board_sum b = (\<Sum>r<SIZE. \<Sum>c<SIZE. b ! r ! c)"
    by (subst board_rebuild [OF assms, symmetric]) (simp add: board_sum_def sum_list_sum_nth atLeast0LessThan)
  moreover have "board_sum (transpose4 b) = (\<Sum>c<SIZE. \<Sum>r<SIZE. b ! r ! c)"
    by (simp add: board_sum_def transpose4_def sum_list_sum_nth atLeast0LessThan)
  ultimately show ?thesis using sum.swap by metis
qed

lemma slide_row_ok:
  "length row = SIZE \<Longrightarrow> list_all tile_ok row \<Longrightarrow>
   length (fst (slide row)) = SIZE \<and> list_all tile_ok (fst (slide row)) \<and> sum_list (fst (slide row)) = sum_list row"
  using slide_tiles length_slide by blast

lemma slide_rev_row_ok:
  "length row = SIZE \<Longrightarrow> list_all tile_ok row \<Longrightarrow>
   length (rev (fst (slide (rev row)))) = SIZE \<and> list_all tile_ok (rev (fst (slide (rev row)))) \<and>
   sum_list (rev (fst (slide (rev row)))) = sum_list row"
  using slide_tiles [of "rev row"] length_slide [of "rev row"] by simp

lemma scores_nonneg:
  assumes "board_wf b" "tiles_ok b"
  shows "0 \<le> sum_list (map (\<lambda>row. snd (slide row)) b)" "0 \<le> sum_list (map (\<lambda>row. snd (slide (rev row))) b)"
  using assms slide_tiles [of "rev _"] slide_tiles
  by (auto intro!: sum_list_nonneg_map simp: board_wf_def tiles_ok_def list_all_iff)

lemma move_left_ok: "board_wf b \<Longrightarrow> tiles_ok b \<Longrightarrow> move_ok b (move_left b)"
  using map_rows_ok [of b "\<lambda>row. fst (slide row)"] slide_row_ok scores_nonneg(1) [of b]
  by (simp add: move_left_closed move_ok_def comp_def)

lemma move_right_ok: "board_wf b \<Longrightarrow> tiles_ok b \<Longrightarrow> move_ok b (move_right b)"
  using map_rows_ok [of b "\<lambda>row. rev (fst (slide (rev row)))"] slide_rev_row_ok scores_nonneg(2) [of b]
  by (simp add: move_right_closed move_ok_def)

lemma move_ok_transpose:
  assumes "board_wf b" "move_ok (transpose4 b) r"
  shows "move_ok b (case r of (m, s, b') \<Rightarrow> (m, s, transpose4 b'))"
  using assms board_sum_transpose4 [OF assms(1)] board_sum_transpose4 tiles_ok_transpose4 board_wf_transpose4
  by (auto simp: move_ok_def split: prod.splits)

lemma moves_ok:
  assumes "board_wf b" "tiles_ok b"
  shows "move_ok b (move_left b) \<and> move_ok b (move_right b) \<and> move_ok b (move_up b) \<and> move_ok b (move_down b)"
proof -
  have t: "board_wf (transpose4 b)" "tiles_ok (transpose4 b)"
    using board_wf_transpose4 tiles_ok_transpose4 [OF assms] by blast+
  have "move_ok b (move_up b)"
    using move_ok_transpose [OF assms(1) move_left_ok [OF t]] by (simp add: move_up_transpose [OF assms(1)] split_def Let_def)
  moreover have "move_ok b (move_down b)"
    using move_ok_transpose [OF assms(1) move_right_ok [OF t]] by (simp add: move_down_transpose [OF assms(1)] split_def Let_def)
  ultimately show ?thesis using move_left_ok [OF assms] move_right_ok [OF assms] by blast
qed

lemma tile_ok_2_4: "tile_ok 2" "tile_ok 4" "tile_ok 0"
  by (simp_all add: tile_ok_def is_pow2.simps)

lemma set_empty_cells_bound: "(r, c) \<in> set (empty_cells b) \<Longrightarrow> r < SIZE \<and> c < SIZE"
  by (simp add: set_empty_cells)

lemma list_all_update: "list_all P xs \<Longrightarrow> P y \<Longrightarrow> list_all P (xs[i := y])"
  by (auto simp: list_all_iff dest: set_update_subset_insert [THEN subsetD])

lemma add_tile_ok:
  assumes "board_wf b" "tiles_ok b"
  shows "board_wf (fst (add_tile b k four)) \<and> tiles_ok (fst (add_tile b k four))"
proof (cases "empty_cells b = []")
  case True
  then show ?thesis using assms by (simp add: add_tile_def)
next
  case False
  let ?cells = "empty_cells b"
  obtain r c where rc: "?cells ! (k mod length ?cells) = (r, c)" by fastforce
  have "?cells ! (k mod length ?cells) \<in> set ?cells" using False by simp
  then have b: "r < SIZE" "c < SIZE" using rc set_empty_cells_bound by auto
  let ?v = "if four then 4 else (2::int)"
  have v: "tile_ok ?v" using tile_ok_2_4 by simp
  have res: "fst (add_tile b k four) = b[r := (b ! r)[c := ?v]]" using False rc by (simp add: add_tile_def Let_def)
  have "board_wf (b[r := (b ! r)[c := ?v]])"
    using assms(1) b by (auto simp: board_wf_def list_all_iff set_update_subset_insert [THEN subsetD] dest!: set_update_subset_insert [THEN subsetD])
  moreover have "tiles_ok (b[r := (b ! r)[c := ?v]])"
  proof -
    have "list_all tile_ok (b ! r)" using assms b by (auto simp: board_wf_def tiles_ok_def list_all_iff)
    then have "list_all tile_ok ((b ! r)[c := ?v])" using v by (rule list_all_update)
    then show ?thesis using assms(2) unfolding tiles_ok_def by (rule list_all_update [rotated])
  qed
  ultimately show ?thesis using res by simp
qed

lemma pick_move_ok: "board_wf b \<Longrightarrow> tiles_ok b \<Longrightarrow> move_ok b (pick_move e b)"
  using moves_ok [of b] by (auto simp: pick_move_def move_ok_def split: prod.splits)

lemma zero_board_ok: "board_wf zero_board" "tiles_ok zero_board"
  by (simp_all add: zero_board_def board_wf_def tiles_ok_def list_all_iff tile_ok_2_4)

lemma new_board_ok: "board_wf (new_board k1 f1 k2 f2) \<and> tiles_ok (new_board k1 f1 k2 f2)"
  using add_tile_ok [OF zero_board_ok, of k1 f1] add_tile_ok [of "fst (add_tile zero_board k1 f1)" k2 f2]
  by (simp add: new_board_def)

lemma play_tick_inv:
  assumes "inv2048 g"
  shows "inv2048 (play_tick g s k four win_cont again)"
proof -
  obtain eb' e where u: "eb_update (g_eb g) s = (eb', e)" by (cases "eb_update (g_eb g) s") auto
  obtain moved add b where p: "pick_move e (g_board g) = (moved, add, b)" by (cases "pick_move e (g_board g)") auto
  have ok: "board_wf b" "tiles_ok b" "0 \<le> add"
    using pick_move_ok [of "g_board g" e] assms p by (auto simp: inv2048_def move_ok_def)
  have ok2: "board_wf (fst (add_tile b k four))" "tiles_ok (fst (add_tile b k four))"
    using add_tile_ok [OF ok(1,2)] by blast+
  show ?thesis
    using assms ok ok2 by (auto simp: play_tick_def u p inv2048_def Let_def)
qed

lemma step2048_inv: "inv2048 g \<Longrightarrow> inv2048 (step2048 g e)"
  using play_tick_inv new_board_ok
  by (auto simp: step2048_def inv2048_def split: mode2048.splits ev2048.splits)

subsection \<open>Properties of the rules and of the game loop\<close>

text \<open>
  C15 (reference merge rule). For a row of four cells, the code's pipeline
  compress, merge, compress (\<open>slide\<close>, shared by all four moves) computes the
  2048 rule: the non-empty tiles in order, equal neighbours merged pairwise from the
  left with each merged tile scoring its value, then empty cells.
\<close>

theorem slide_spec:
  assumes "length row = SIZE"
  shows "slide row = (let (ys, s) = pair_merge [v \<leftarrow> row. v \<noteq> 0] in (ys @ replicate (SIZE - length ys) 0, s))"
  using slide_eq_ref [OF assms] by (simp add: slide_ref_def)

theorem slide_spec_witness:
  "slide [2, 2, 2, 2] = ([4, 4, 0, 0], 8)"
  using slide_spec [of "[2, 2, 2, 2]"] by (simp add: SIZE_def numeral_2_eq_2)

text \<open>
  C16 (mirror equivalence). \<open>move_right\<close> is \<open>move_left\<close> on the mirrored board,
  mirrored back: the same flag, the same points, the mirrored board.
\<close>

theorem move_right_mirror:
  assumes "board_wf b"
  shows "move_right b = (let (m, s, b') = move_left (map rev b) in (m, s, map rev b'))"
proof -
  have inj: "map (\<lambda>row. rev (fst (slide (rev row)))) b \<noteq> b \<longleftrightarrow> map (fst \<circ> slide) (map rev b) \<noteq> map rev b"
  proof -
    have "map (\<lambda>row. rev (fst (slide (rev row)))) b = map rev (map (fst \<circ> slide) (map rev b))" by simp
    moreover have "b = map rev (map rev b)" by simp
    ultimately show ?thesis by (metis map_map rev_rev_ident map_idI comp_apply)
  qed
  show ?thesis
    using move_right_closed [OF assms] move_left_closed [of "map rev b"] assms inj
    by (simp add: board_wf_map_rev comp_def)
qed

theorem move_right_mirror_witness:
  "move_right [[2, 2, 4, 0], [0, 0, 0, 2], [2, 0, 2, 2], [4, 4, 4, 4]] = (let (m, s, b') = move_left (map rev [[2, 2, 4, 0], [0, 0, 0, 2], [2, 0, 2, 2], [4, 4, 4, 4]]) in (m, s, map rev b'))"
  using move_right_mirror [of "[[2, 2, 4, 0], [0, 0, 0, 2], [2, 0, 2, 2], [4, 4, 4, 4]]"] by (simp add: board_wf_def SIZE_def)

text \<open>
  C17 (transpose equivalence). \<open>move_up\<close> and \<open>move_down\<close>, which read and write the
  board column by column, are \<open>move_left\<close> and \<open>move_right\<close> on the transposed board,
  transposed back.
\<close>

theorem vertical_moves_transpose:
  assumes "board_wf b"
  shows "move_up b = (let (m, s, b') = move_left (transpose4 b) in (m, s, transpose4 b')) \<and>
         move_down b = (let (m, s, b') = move_right (transpose4 b) in (m, s, transpose4 b'))"
  using move_up_transpose [OF assms] move_down_transpose [OF assms] by blast

theorem vertical_moves_transpose_witness:
  "move_up [[2, 2, 4, 0], [0, 0, 0, 2], [2, 0, 2, 2], [4, 4, 4, 4]] = (let (m, s, b') = move_left (transpose4 [[2, 2, 4, 0], [0, 0, 0, 2], [2, 0, 2, 2], [4, 4, 4, 4]]) in (m, s, transpose4 b'))"
  using vertical_moves_transpose [of "[[2, 2, 4, 0], [0, 0, 0, 2], [2, 0, 2, 2], [4, 4, 4, 4]]"] by (simp add: board_wf_def SIZE_def)

text \<open>
  C18 (game over exactly when stuck). On a board with a tile, \<open>any_moves\<close> holds
  exactly when one of the four moves reports \<open>moved\<close>: the game-over screen is shown
  if and only if no move can change the board.
\<close>

theorem any_moves_iff_moved:
  assumes wf: "board_wf b" and tile: "\<exists>r<SIZE. \<exists>c<SIZE. b ! r ! c \<noteq> 0"
  shows "any_moves b \<longleftrightarrow> fst (move_left b) \<or> fst (move_right b) \<or> fst (move_up b) \<or> fst (move_down b)"
proof
  have lenr: "\<And>r. r < SIZE \<Longrightarrow> length (b ! r) = SIZE" using wf by (auto simp: board_wf_def list_all_iff)
  have colT: "\<And>c. c < SIZE \<Longrightarrow> transpose4 b ! c = map (\<lambda>r. b ! r ! c) [0..<SIZE]" by (simp add: transpose4_nth)
  assume am: "any_moves b"
  show "fst (move_left b) \<or> fst (move_right b) \<or> fst (move_up b) \<or> fst (move_down b)"
  proof (rule ccontr)
    assume "\<not> ?thesis"
    then have L: "\<And>row. row \<in> set b \<Longrightarrow> fst (slide row) = row"
      and R: "\<And>row. row \<in> set b \<Longrightarrow> rev (fst (slide (rev row))) = row"
      and U: "\<And>col. col \<in> set (transpose4 b) \<Longrightarrow> fst (slide col) = col"
      and D: "\<And>col. col \<in> set (transpose4 b) \<Longrightarrow> rev (fst (slide (rev col))) = col"
      using moved_flags [OF wf] by blast+
    have rows: "\<And>r. r < SIZE \<Longrightarrow> list_all (\<lambda>v. v = 0) (b ! r) \<or> list_all (\<lambda>v. v \<noteq> 0) (b ! r)"
    proof -
      fix r assume r: "r < SIZE"
      then have "b ! r \<in> set b" using set_board [OF wf] by blast
      then show "list_all (\<lambda>v. v = 0) (b ! r) \<or> list_all (\<lambda>v. v \<noteq> 0) (b ! r)"
        using fixed_line [OF lenr [OF r]] L R by blast
    qed
    have cols: "\<And>c. c < SIZE \<Longrightarrow> list_all (\<lambda>v. v = 0) (transpose4 b ! c) \<or> list_all (\<lambda>v. v \<noteq> 0) (transpose4 b ! c)"
    proof -
      fix c assume c: "c < SIZE"
      then have "transpose4 b ! c \<in> set (transpose4 b)" unfolding set_transpose4 colT [OF c] by blast
      moreover have "length (transpose4 b ! c) = SIZE" using c by (simp add: colT)
      ultimately show "list_all (\<lambda>v. v = 0) (transpose4 b ! c) \<or> list_all (\<lambda>v. v \<noteq> 0) (transpose4 b ! c)"
        using fixed_line U D by blast
    qed
    have no_empty: "\<not> (\<exists>r<SIZE. \<exists>c<SIZE. b ! r ! c = 0)"
    proof
      assume "\<exists>r<SIZE. \<exists>c<SIZE. b ! r ! c = 0"
      then obtain r0 c0 where z: "r0 < SIZE" "c0 < SIZE" "b ! r0 ! c0 = 0" by blast
      obtain r1 c1 where nz: "r1 < SIZE" "c1 < SIZE" "b ! r1 ! c1 \<noteq> 0" using tile by blast
      have "list_all (\<lambda>v. v = 0) (b ! r0)" using rows [OF z(1)] z lenr [OF z(1)] by (auto simp: list_all_iff)
      then have z1: "b ! r0 ! c1 = 0" using nz(2) lenr [OF z(1)] by (auto simp: list_all_iff)
      have "list_all (\<lambda>v. v = 0) (transpose4 b ! c1)"
        using cols [OF nz(2)] z(1) z1 nz(2) by (auto simp: colT list_all_iff)
      then have "b ! r1 ! c1 = 0" using nz(1,2) by (auto simp: colT list_all_iff)
      with nz(3) show False by simp
    qed
    have "\<not> list_ex (\<lambda>r. list_ex (\<lambda>c. b ! r ! c = b ! r ! (c + 1)) [0..<SIZE - 1]) [0..<SIZE]"
    proof
      assume "list_ex (\<lambda>r. list_ex (\<lambda>c. b ! r ! c = b ! r ! (c + 1)) [0..<SIZE - 1]) [0..<SIZE]"
      then obtain r i where ri: "r < SIZE" "Suc i < SIZE" "b ! r ! i = b ! r ! Suc i"
        by (auto simp: list_ex_iff SIZE_def)
      have "b ! r ! i \<noteq> 0" using no_empty ri by auto
      then have "fst (slide (b ! r)) \<noteq> b ! r" using slide_changes_pair [OF lenr [OF ri(1)] ri(2,3)] by blast
      moreover have "b ! r \<in> set b" using set_board [OF wf] ri(1) by blast
      ultimately show False using L by blast
    qed
    moreover have "\<not> list_ex (\<lambda>c. list_ex (\<lambda>r. b ! r ! c = b ! (r + 1) ! c) [0..<SIZE - 1]) [0..<SIZE]"
    proof
      assume "list_ex (\<lambda>c. list_ex (\<lambda>r. b ! r ! c = b ! (r + 1) ! c) [0..<SIZE - 1]) [0..<SIZE]"
      then obtain c i where ci: "c < SIZE" "Suc i < SIZE" "b ! i ! c = b ! Suc i ! c"
        by (auto simp: list_ex_iff SIZE_def)
      let ?col = "transpose4 b ! c"
      have l: "length ?col = SIZE" using ci by (simp add: colT)
      have e: "?col ! i = ?col ! Suc i" "?col ! i \<noteq> 0" using ci no_empty by (auto simp: colT)
      have "fst (slide ?col) \<noteq> ?col" using slide_changes_pair [OF l ci(2) e] .
      moreover have "?col \<in> set (transpose4 b)" unfolding set_transpose4 colT [OF ci(1)] using ci(1) by blast
      ultimately show False using U by blast
    qed
    ultimately show False using am no_empty by (simp add: any_moves_def empty_cells_iff)
  qed
next
  assume mv: "fst (move_left b) \<or> fst (move_right b) \<or> fst (move_up b) \<or> fst (move_down b)"
  show "any_moves b"
  proof (rule ccontr)
    assume nm: "\<not> any_moves b"
    have lenr: "\<And>r. r < SIZE \<Longrightarrow> length (b ! r) = SIZE" using wf by (auto simp: board_wf_def list_all_iff)
    have full: "\<And>r c. r < SIZE \<Longrightarrow> c < SIZE \<Longrightarrow> b ! r ! c \<noteq> 0"
      using nm by (auto simp: any_moves_def empty_cells_iff)
    have rp: "\<And>r. r < SIZE \<Longrightarrow> \<not> has_pair (b ! r)"
      using nm wf by (auto simp: any_moves_def pair_ex_iff [symmetric] list_ex_iff board_wf_def list_all_iff)
    have cp: "\<And>c. c < SIZE \<Longrightarrow> \<not> has_pair (map (\<lambda>r. b ! r ! c) [0..<SIZE])"
    proof -
      fix c assume c: "c < SIZE"
      have "list_ex (\<lambda>i. map (\<lambda>r. b ! r ! c) [0..<SIZE] ! i = map (\<lambda>r. b ! r ! c) [0..<SIZE] ! (i + 1)) [0..<SIZE - 1] \<longleftrightarrow>
          list_ex (\<lambda>r. b ! r ! c = b ! (r + 1) ! c) [0..<SIZE - 1]"
        by (auto simp: list_ex_iff SIZE_def)
      then show "\<not> has_pair (map (\<lambda>r. b ! r ! c) [0..<SIZE])"
        using nm c by (auto simp: any_moves_def pair_ex_iff [symmetric] list_ex_iff)
    qed
    have "\<And>row. row \<in> set b \<Longrightarrow> fst (slide row) = row \<and> rev (fst (slide (rev row))) = row"
    proof -
      fix row assume "row \<in> set b"
      then obtain r where r: "r < SIZE" "row = b ! r" using wf by (auto simp: set_board)
      have nzr: "list_all (\<lambda>v. v \<noteq> 0) row" using full r lenr by (auto simp: list_all_iff in_set_conv_nth)
      show "fst (slide row) = row \<and> rev (fst (slide (rev row))) = row"
        using fixed_line_nonzero [OF _ nzr] r rp [OF r(1)] lenr by simp
    qed
    moreover have "\<And>col. col \<in> set (transpose4 b) \<Longrightarrow> fst (slide col) = col \<and> rev (fst (slide (rev col))) = col"
    proof -
      fix col assume "col \<in> set (transpose4 b)"
      then obtain c where c: "c < SIZE" "col = map (\<lambda>r. b ! r ! c) [0..<SIZE]" by (auto simp: set_transpose4)
      show "fst (slide col) = col \<and> rev (fst (slide (rev col))) = col"
        using fixed_line_nonzero [of col] c cp [OF c(1)] full by (auto simp: list_all_iff)
    qed
    ultimately show False using mv moved_flags [OF wf] by blast
  qed
qed

theorem any_moves_iff_moved_witness:
  "\<not> (fst (move_left [[2, 4, 2, 4], [4, 2, 4, 2], [2, 4, 2, 4], [4, 2, 4, 2]]) \<or> fst (move_right [[2, 4, 2, 4], [4, 2, 4, 2], [2, 4, 2, 4], [4, 2, 4, 2]]) \<or> fst (move_up [[2, 4, 2, 4], [4, 2, 4, 2], [2, 4, 2, 4], [4, 2, 4, 2]]) \<or> fst (move_down [[2, 4, 2, 4], [4, 2, 4, 2], [2, 4, 2, 4], [4, 2, 4, 2]]))"
proof -
  have "\<not> any_moves [[2, 4, 2, 4], [4, 2, 4, 2], [2, 4, 2, 4], [4, 2, 4, 2]]" by code_simp
  moreover have "board_wf [[2, 4, 2, 4], [4, 2, 4, 2], [2, 4, 2, 4], [4, 2, 4, 2]]" by (simp add: board_wf_def SIZE_def)
  moreover have "\<exists>r<SIZE. \<exists>c<SIZE. ([[2, 4, 2, 4], [4, 2, 4, 2], [2, 4, 2, 4], [4, 2, 4, 2]] :: board) ! r ! c \<noteq> 0" by (intro exI [of _ 0]) (simp add: SIZE_def, intro exI [of _ 0], simp)
  ultimately show ?thesis using any_moves_iff_moved by blast
qed

text \<open>
  C19 (board type). Every move keeps the board a 4x4 grid whose cells are 0 or
  powers of two from 2 up.
\<close>

theorem moves_keep_tiles:
  assumes "board_wf b" "tiles_ok b"
  shows "list_all (\<lambda>(m, s, b'). board_wf b' \<and> tiles_ok b') [move_left b, move_right b, move_up b, move_down b]"
  using moves_ok [OF assms] by (auto simp: move_ok_def split: prod.splits)

theorem moves_keep_tiles_witness:
  "list_all (\<lambda>(m, s, b'). board_wf b' \<and> tiles_ok b') [move_left [[2, 2, 4, 0], [0, 0, 0, 2], [2, 0, 2, 2], [4, 4, 4, 4]], move_right [[2, 2, 4, 0], [0, 0, 0, 2], [2, 0, 2, 2], [4, 4, 4, 4]], move_up [[2, 2, 4, 0], [0, 0, 0, 2], [2, 0, 2, 2], [4, 4, 4, 4]], move_down [[2, 2, 4, 0], [0, 0, 0, 2], [2, 0, 2, 2], [4, 4, 4, 4]]]"
  using moves_keep_tiles [of "[[2, 2, 4, 0], [0, 0, 0, 2], [2, 0, 2, 2], [4, 4, 4, 4]]"] by (simp add: board_wf_def tiles_ok_def SIZE_def tile_ok_def is_pow2.simps)

text \<open>
  C20 (tile sum conserved). A move never creates or destroys value: the sum of the
  cells after it equals the sum before, and the points it scores are not negative.
\<close>

theorem moves_conserve_sum:
  assumes "board_wf b" "tiles_ok b"
  shows "list_all (\<lambda>(m, s, b'). board_sum b' = board_sum b \<and> 0 \<le> s) [move_left b, move_right b, move_up b, move_down b]"
  using moves_ok [OF assms] by (auto simp: move_ok_def split: prod.splits)

theorem moves_conserve_sum_witness:
  "list_all (\<lambda>(m, s, b'). board_sum b' = board_sum [[2, 2, 4, 0], [0, 0, 0, 2], [2, 0, 2, 2], [4, 4, 4, 4]] \<and> 0 \<le> s) [move_left [[2, 2, 4, 0], [0, 0, 0, 2], [2, 0, 2, 2], [4, 4, 4, 4]], move_right [[2, 2, 4, 0], [0, 0, 0, 2], [2, 0, 2, 2], [4, 4, 4, 4]], move_up [[2, 2, 4, 0], [0, 0, 0, 2], [2, 0, 2, 2], [4, 4, 4, 4]], move_down [[2, 2, 4, 0], [0, 0, 0, 2], [2, 0, 2, 2], [4, 4, 4, 4]]]"
  using moves_conserve_sum [of "[[2, 2, 4, 0], [0, 0, 0, 2], [2, 0, 2, 2], [4, 4, 4, 4]]"] by (simp add: board_wf_def tiles_ok_def SIZE_def tile_ok_def is_pow2.simps)

text \<open>
  C21 (game-loop invariant). Whatever the buttons and the random draws, the game loop
  keeps a well-formed board of valid tiles, a score that is not negative, and a best
  score at least the current score.
\<close>

theorem run2048_inv: "inv2048 (run2048 init2048 es)"
proof -
  have "inv2048 g \<Longrightarrow> inv2048 (fold (\<lambda>e g. step2048 g e) es g)" for g
    by (induction es arbitrary: g) (simp_all add: step2048_inv)
  moreover have "inv2048 init2048" by (simp add: inv2048_def init2048_def zero_board_ok)
  ultimately show ?thesis by (simp add: run2048_def)
qed

end
