(* ===== verification/Font3x5.thy ===== *)
theory Font3x5
  imports Rotation
begin

text \<open>
  The tiny 3x5 font that 2048, Klotski and Minesweeper each carry a copy of: the bit
  test, the four nested loops of \<open>draw_glyph\<close> given a glyph's five rows, the text
  loop of \<open>draw_text\<close> given the game's glyph table, and \<open>text_width\<close>. A drawing is
  the list of \<open>draw_pixel(x, y, c)\<close> calls it makes, in order. The lemmas bound where
  a glyph and a text can put pixels; each game's theory instantiates them.
\<close>

section \<open>Decimal strings\<close>

text \<open>Python's \<open>str()\<close> of a non-negative and of any integer.\<close>

fun py_str_nat :: "nat \<Rightarrow> string" where
  "py_str_nat n = (if n < 10 then [char_of (48 + n)] else py_str_nat (n div 10) @ [char_of (48 + n mod 10)])"

declare py_str_nat.simps [simp del]

definition py_str :: "int \<Rightarrow> string" where
  "py_str i = (if i < 0 then CHR ''-'' # py_str_nat (nat (- i)) else py_str_nat (nat i))"

section \<open>Glyphs and text\<close>

text \<open>\<open>(bits >> k) & 1\<close>\<close>

definition bit_set :: "nat \<Rightarrow> nat \<Rightarrow> bool" where
  "bit_set bits k \<longleftrightarrow> (bits div 2 ^ k) mod 2 = 1"

text \<open>The loops of \<open>draw_glyph\<close>: rows, columns, then a \<open>scale\<close> by \<open>scale\<close> block per lit bit.\<close>

definition glyph_px :: "nat list \<Rightarrow> int \<Rightarrow> int \<Rightarrow> nat \<Rightarrow> int \<Rightarrow> (int \<times> int \<times> int) list" where
  "glyph_px rows x y scale c =
     concat (map (\<lambda>ry. concat (map (\<lambda>rx.
       if bit_set (rows ! ry) (2 - rx)
       then concat (map (\<lambda>sy. map (\<lambda>sx. (x + int (rx * scale + sx), y + int (ry * scale + sy), c))
                                  [0..<scale]) [0..<scale])
       else []) [0..<3])) [0..<5])"

text \<open>The loop of \<open>draw_text\<close>: one glyph per character, the pen advancing by \<open>step\<close>.\<close>

primrec text_px :: "(char \<Rightarrow> nat list) \<Rightarrow> string \<Rightarrow> int \<Rightarrow> int \<Rightarrow> nat \<Rightarrow> nat \<Rightarrow> int \<Rightarrow> (int \<times> int \<times> int) list" where
  "text_px rows [] cx y scale spacing c = []"
| "text_px rows (ch # s) cx y scale spacing c =
     glyph_px (rows ch) cx y scale c @ text_px rows s (cx + int (3 * scale + spacing * scale)) y scale spacing c"

definition text_width_3x5 :: "string \<Rightarrow> nat \<Rightarrow> nat \<Rightarrow> int" where
  "text_width_3x5 s scale spacing =
     (if s = [] then 0 else int (length s * (3 * scale)) + (int (length s) - 1) * int (spacing * scale))"

section \<open>Extent\<close>

lemma glyph_px_extent:
  "(px, py, c') \<in> set (glyph_px rows x y scale c) \<Longrightarrow>
   x \<le> px \<and> px < x + int (3 * scale) \<and> y \<le> py \<and> py < y + int (5 * scale) \<and> c' = c"
proof -
  assume "(px, py, c') \<in> set (glyph_px rows x y scale c)"
  then obtain ry rx sy sx where b: "ry < 5" "rx < 3" "sy < scale" "sx < scale"
    and p: "px = x + int (rx * scale + sx)" "py = y + int (ry * scale + sy)" "c' = c"
    by (auto simp: glyph_px_def Let_def split: if_splits)
  have "rx * scale + sx < 3 * scale"
  proof -
    have "rx * scale + sx < rx * scale + scale" using b(4) by simp
    also have "\<dots> = Suc rx * scale" by simp
    also have "\<dots> \<le> 3 * scale" using b(2) by (intro mult_right_mono) simp_all
    finally show ?thesis .
  qed
  moreover have "ry * scale + sy < 5 * scale"
  proof -
    have "ry * scale + sy < ry * scale + scale" using b(3) by simp
    also have "\<dots> = Suc ry * scale" by simp
    also have "\<dots> \<le> 5 * scale" using b(1) by (intro mult_right_mono) simp_all
    finally show ?thesis .
  qed
  ultimately show ?thesis using p by linarith
qed

lemma text_width_cons:
  "text_width_3x5 (ch # s) scale spacing =
     (if s = [] then int (3 * scale) else int (3 * scale + spacing * scale) + text_width_3x5 s scale spacing)"
  by (cases s) (auto simp: text_width_3x5_def algebra_simps)

lemma text_width_nonneg: "0 \<le> text_width_3x5 s scale spacing"
  by (cases s) (auto simp: text_width_3x5_def)

lemma text_px_extent:
  "(px, py, c') \<in> set (text_px rows s x y scale spacing c) \<Longrightarrow>
   x \<le> px \<and> px < x + text_width_3x5 s scale spacing \<and> y \<le> py \<and> py < y + int (5 * scale)"
proof (induction s arbitrary: x)
  case Nil then show ?case by simp
next
  case (Cons ch s)
  let ?step = "int (3 * scale + spacing * scale)"
  from Cons.prems consider "(px, py, c') \<in> set (glyph_px (rows ch) x y scale c)"
    | "(px, py, c') \<in> set (text_px rows s (x + ?step) y scale spacing c)" by auto
  then show ?case
  proof cases
    case 1
    have "int (3 * scale) \<le> text_width_3x5 (ch # s) scale spacing"
      using text_width_nonneg[of s scale spacing] by (simp add: text_width_cons)
    with glyph_px_extent[OF 1] show ?thesis by linarith
  next
    case 2
    with Cons.IH have ih: "x + ?step \<le> px \<and> px < x + ?step + text_width_3x5 s scale spacing \<and>
                           y \<le> py \<and> py < y + int (5 * scale)" by blast
    then have "s \<noteq> []" by (auto simp: text_width_3x5_def)
    then have w: "text_width_3x5 (ch # s) scale spacing = ?step + text_width_3x5 s scale spacing"
      by (simp add: text_width_cons)
    have "0 \<le> ?step" by simp
    with ih w show ?thesis by linarith
  qed
qed

end
