(* ===== verification/Draw2048.thy ===== *)
theory Draw2048
  imports Font3x5 Game2048
begin

text \<open>
  The drawing code of \<open>src/2048.py\<close>: the 3x5 font and the narrow 2x5 digit font,
  text layout, rectangles, the tile numbers, the board and the screens. A drawing is
  the list of \<open>draw_pixel(x, y, c)\<close> calls it makes, in order; \<open>Rotation.draw_all\<close>
  applies it to the driver.
\<close>

section \<open>The 3x5 font\<close>

definition GLYPH3x5 :: "(char \<times> nat list) list" where
  "GLYPH3x5 =
    [(CHR ''0'', [7, 5, 5, 5, 7]), (CHR ''1'', [2, 6, 2, 2, 7]), (CHR ''2'', [7, 1, 7, 4, 7]),
     (CHR ''3'', [7, 1, 7, 1, 7]), (CHR ''4'', [5, 5, 7, 1, 1]), (CHR ''5'', [7, 4, 7, 1, 7]),
     (CHR ''6'', [7, 4, 7, 5, 7]), (CHR ''7'', [7, 1, 2, 2, 2]), (CHR ''8'', [7, 5, 7, 5, 7]),
     (CHR ''9'', [7, 5, 7, 1, 7]),
     (CHR ''A'', [7, 5, 7, 5, 5]), (CHR ''B'', [6, 5, 6, 5, 6]), (CHR ''C'', [7, 4, 4, 4, 7]),
     (CHR ''D'', [6, 5, 5, 5, 6]), (CHR ''E'', [7, 4, 7, 4, 7]), (CHR ''G'', [7, 4, 5, 5, 7]),
     (CHR ''I'', [7, 2, 2, 2, 7]), (CHR ''M'', [5, 7, 7, 5, 5]), (CHR ''N'', [5, 7, 7, 7, 5]),
     (CHR ''O'', [7, 5, 5, 5, 7]), (CHR ''P'', [6, 5, 6, 4, 4]), (CHR ''Q'', [7, 5, 5, 7, 1]),
     (CHR ''R'', [6, 5, 6, 5, 5]), (CHR ''S'', [7, 4, 7, 1, 7]), (CHR ''T'', [7, 2, 2, 2, 2]),
     (CHR ''U'', [5, 5, 5, 5, 7]), (CHR ''V'', [5, 5, 5, 5, 2]), (CHR ''W'', [5, 5, 5, 7, 7]),
     (CHR '' '', [0, 0, 0, 0, 0]), (CHR '':'', [0, 2, 0, 2, 0]), (CHR ''-'', [0, 0, 7, 0, 0]),
     (CHR ''/'', [1, 2, 2, 4, 4])]"

text \<open>\<open>GLYPH3x5.get(ch, GLYPH3x5[" "])\<close>\<close>

definition glyph_rows :: "char \<Rightarrow> nat list" where
  "glyph_rows ch = (case map_of GLYPH3x5 ch of Some rows \<Rightarrow> rows | None \<Rightarrow> the (map_of GLYPH3x5 (CHR '' '')))"

definition draw_glyph3x5 :: "char \<Rightarrow> int \<Rightarrow> int \<Rightarrow> nat \<Rightarrow> int \<Rightarrow> (int \<times> int \<times> int) list" where
  "draw_glyph3x5 ch x y scale c = glyph_px (glyph_rows ch) x y scale c"

text \<open>\<open>draw_text_3x5\<close>: one glyph per character, the pen advancing by \<open>step\<close>.\<close>

definition draw_text_3x5 :: "string \<Rightarrow> int \<Rightarrow> int \<Rightarrow> nat \<Rightarrow> nat \<Rightarrow> int \<Rightarrow> (int \<times> int \<times> int) list" where
  "draw_text_3x5 s x y scale spacing c = text_px glyph_rows s x y scale spacing c"

definition draw_text_center :: "string \<Rightarrow> int \<Rightarrow> nat \<Rightarrow> (int \<times> int \<times> int) list" where
  "draw_text_center s cy scale =
     (let w = text_width_3x5 s scale 1; x = (64 - w) div 2 in draw_text_3x5 s x cy scale 1 1)"

section \<open>The 2x5 digit font\<close>

definition DIG2x5 :: "(char \<times> nat list) list" where
  "DIG2x5 =
    [(CHR ''0'', [3, 2, 2, 2, 3]), (CHR ''1'', [1, 3, 1, 1, 3]), (CHR ''2'', [3, 1, 3, 2, 3]),
     (CHR ''3'', [3, 1, 3, 1, 3]), (CHR ''4'', [2, 2, 3, 1, 1]), (CHR ''5'', [3, 2, 3, 1, 3]),
     (CHR ''6'', [3, 2, 3, 2, 3]), (CHR ''7'', [3, 1, 1, 2, 2]), (CHR ''8'', [3, 2, 3, 2, 3]),
     (CHR ''9'', [3, 2, 3, 1, 3])]"

definition draw_digit2 :: "char \<Rightarrow> int \<Rightarrow> int \<Rightarrow> int \<Rightarrow> (int \<times> int \<times> int) list" where
  "draw_digit2 dch x y c =
     (case map_of DIG2x5 dch of
        None \<Rightarrow> []
      | Some rows \<Rightarrow>
          concat (map (\<lambda>ry. (if bit_set (rows ! ry) 1 then [(x, y + int ry, c)] else []) @
                             (if bit_set (rows ! ry) 0 then [(x + 1, y + int ry, c)] else [])) [0..<5]))"

definition text_width_2x5_digits :: "string \<Rightarrow> nat \<Rightarrow> int" where
  "text_width_2x5_digits s spacing =
     (if s = [] then 0 else int (length s * 2) + (int (length s) - 1) * int spacing)"

primrec draw_digits_2x5 :: "string \<Rightarrow> int \<Rightarrow> int \<Rightarrow> nat \<Rightarrow> (int \<times> int \<times> int) list" where
  "draw_digits_2x5 [] cx y spacing = []"
| "draw_digits_2x5 (ch # s) cx y spacing = draw_digit2 ch cx y 1 @ draw_digits_2x5 s (cx + 2 + int spacing) y spacing"

section \<open>Rectangles, tiles and the board\<close>

definition draw_rect :: "int \<Rightarrow> int \<Rightarrow> int \<Rightarrow> int \<Rightarrow> int \<Rightarrow> (int \<times> int \<times> int) list" where
  "draw_rect x y w h c =
     concat (map (\<lambda>i. [(x + int i, y, c), (x + int i, y + h - 1, c)]) [0..<nat w]) @
     concat (map (\<lambda>j. [(x, y + int j, c), (x + w - 1, y + int j, c)]) [0..<nat h])"

definition draw_tile_number :: "int \<Rightarrow> int \<Rightarrow> int \<Rightarrow> int \<Rightarrow> (int \<times> int \<times> int) list" where
  "draw_tile_number v x y cell =
     (let s = py_str v
      in if length s \<le> 2 then
           (let tw = text_width_3x5 s 2 1; tx = x + (cell - tw) div 2; ty = y + (cell - 10) div 2
            in draw_text_3x5 s tx ty 2 1 1)
         else if length s = 3 then
           (let tw = text_width_3x5 s 1 0; tx = x + (cell - tw) div 2; ty = y + (cell - 5) div 2
            in draw_text_3x5 s tx ty 1 0 1)
         else
           (let tw = text_width_2x5_digits s 0; tx = x + (cell - tw) div 2; ty = y + (cell - 5) div 2
            in draw_digits_2x5 s tx ty 0))"

text \<open>\<open>draw_board\<close> between \<open>fill(0)\<close> and \<open>show()\<close>: the header, the frame, every cell and its number.\<close>

definition board_pixels :: "board \<Rightarrow> int \<Rightarrow> int \<Rightarrow> (int \<times> int \<times> int) list" where
  "board_pixels b score best =
     (let gap = 2; cell = 13; bw = int SIZE * cell + (int SIZE - 1) * gap; bh = bw;
          bx = (64 - bw) div 2; by = 22
      in draw_text_3x5 ''SCORE'' 2 2 1 1 1 @ draw_text_3x5 (take 10 (py_str score)) 2 10 1 1 1 @
         draw_text_3x5 ''BEST'' 40 2 1 1 1 @ draw_text_3x5 (take 10 (py_str best)) 40 10 1 1 1 @
         draw_rect (bx - 2) (by - 2) (bw + 4) (bh + 4) 1 @
         concat (map (\<lambda>r. concat (map (\<lambda>c.
            (let v = b ! r ! c; x = bx + int c * (cell + gap); y = by + int r * (cell + gap)
             in draw_rect x y cell cell 1 @ (if v \<noteq> 0 then draw_tile_number v x y cell else [])))
            [0..<SIZE])) [0..<SIZE]) @
         draw_text_center ''UP/DN/L/R'' 112 1)"

definition draw_board :: "ssd1306 \<Rightarrow> board \<Rightarrow> int \<Rightarrow> int \<Rightarrow> drv_error + ssd1306" where
  "draw_board oled b score best = show_disp (draw_all (fill_d oled 0) (board_pixels b score best))"

section \<open>Screens\<close>

definition title_pixels :: "(int \<times> int \<times> int) list" where
  "title_pixels = draw_text_center ''2048'' 22 4 @ draw_text_center ''UP START'' 78 2 @ draw_text_center ''DN QUIT'' 98 2"

definition game_over_pixels :: "int \<Rightarrow> (int \<times> int \<times> int) list" where
  "game_over_pixels score =
     draw_text_center ''GAME'' 16 3 @ draw_text_center ''OVER'' 40 3 @ draw_text_center ''SCORE'' 76 2 @
     draw_text_center (py_str score) 96 2 @ draw_text_center ''UP AGAIN'' 116 2"

definition win_pixels :: "int \<Rightarrow> (int \<times> int \<times> int) list" where
  "win_pixels score =
     draw_text_center ''YOU WIN'' 16 2 @ draw_text_center ''2048'' 40 3 @ draw_text_center ''UP CONT'' 82 2 @
     draw_text_center ''DN QUIT'' 104 2 @ draw_text_center (CHR ''S'' # py_str score) 122 1"


section \<open>Extent of the drawings\<close>


lemma digits_width_cons:
  "text_width_2x5_digits (ch # s) spacing =
     (if s = [] then 2 else 2 + int spacing + text_width_2x5_digits s spacing)"
  by (cases s) (auto simp: text_width_2x5_digits_def algebra_simps)

lemma digits_width_nonneg: "0 \<le> text_width_2x5_digits s spacing"
  by (cases s) (auto simp: text_width_2x5_digits_def)

lemma text_extent:
  "(px, py, c') \<in> set (draw_text_3x5 s x y scale spacing c) \<Longrightarrow>
   x \<le> px \<and> px < x + text_width_3x5 s scale spacing \<and> y \<le> py \<and> py < y + int (5 * scale)"
  unfolding draw_text_3x5_def by (rule text_px_extent)

lemma digit2_extent:
  "(px, py, c') \<in> set (draw_digit2 ch x y c) \<Longrightarrow> x \<le> px \<and> px < x + 2 \<and> y \<le> py \<and> py < y + 5"
  by (auto simp: draw_digit2_def split: option.splits if_splits)

lemma digits_extent:
  "(px, py, c') \<in> set (draw_digits_2x5 s x y spacing) \<Longrightarrow>
   x \<le> px \<and> px < x + text_width_2x5_digits s spacing \<and> y \<le> py \<and> py < y + 5"
proof (induction s arbitrary: x)
  case Nil then show ?case by simp
next
  case (Cons ch s)
  from Cons.prems consider "(px, py, c') \<in> set (draw_digit2 ch x y 1)"
    | "(px, py, c') \<in> set (draw_digits_2x5 s (x + 2 + int spacing) y spacing)" by auto
  then show ?case
  proof cases
    case 1
    have "2 \<le> text_width_2x5_digits (ch # s) spacing"
      using digits_width_nonneg[of s spacing] by (simp add: digits_width_cons)
    with digit2_extent[OF 1] show ?thesis by linarith
  next
    case 2
    with Cons.IH have ih: "x + 2 + int spacing \<le> px \<and> px < x + 2 + int spacing + text_width_2x5_digits s spacing \<and>
                           y \<le> py \<and> py < y + 5" by blast
    then have "s \<noteq> []" by (auto simp: text_width_2x5_digits_def)
    then have w: "text_width_2x5_digits (ch # s) spacing = 2 + int spacing + text_width_2x5_digits s spacing"
      by (simp add: digits_width_cons)
    with ih show ?thesis by linarith
  qed
qed

lemma py_str_pos: "0 < v \<Longrightarrow> py_str v = py_str_nat (nat v)"
  by (simp add: py_str_def)

lemma tile_pixels_cases:
  assumes "0 < v" "length (py_str v) \<noteq> 2" "length (py_str v) \<le> 5" "length (py_str v) \<noteq> 0"
  shows "(length (py_str v) = 1 \<and> draw_tile_number v x y 13 = draw_text_3x5 (py_str v) (x + 3) (y + 1) 2 1 1 \<and>
           text_width_3x5 (py_str v) 2 1 = 6) \<or>
         (length (py_str v) = 3 \<and> draw_tile_number v x y 13 = draw_text_3x5 (py_str v) (x + 2) (y + 4) 1 0 1 \<and>
           text_width_3x5 (py_str v) 1 0 = 9) \<or>
         (length (py_str v) = 4 \<and> draw_tile_number v x y 13 = draw_digits_2x5 (py_str v) (x + 2) (y + 4) 0 \<and>
           text_width_2x5_digits (py_str v) 0 = 8) \<or>
         (length (py_str v) = 5 \<and> draw_tile_number v x y 13 = draw_digits_2x5 (py_str v) (x + 1) (y + 4) 0 \<and>
           text_width_2x5_digits (py_str v) 0 = 10)"
proof -
  consider "length (py_str v) = 1" | "length (py_str v) = 3" | "length (py_str v) = 4"
    | "length (py_str v) = 5"
    using assms(2-4) by linarith
  moreover have "py_str v \<noteq> []" using assms(4) by simp
  ultimately show ?thesis
    by cases (simp_all add: draw_tile_number_def text_width_3x5_def text_width_2x5_digits_def Let_def)
qed

text \<open>C34: a tile number of one, three, four or five digits is drawn strictly inside its 13x13
  cell, off the cell's outline (the cell spans \<open>x .. x + 12\<close>).\<close>
theorem tile_number_inside:
  "0 < v \<Longrightarrow> length (py_str v) \<noteq> 2 \<Longrightarrow> length (py_str v) \<le> 5 \<Longrightarrow>
   (px, py, c) \<in> set (draw_tile_number v x y 13) \<Longrightarrow> x < px \<and> px < x + 12 \<and> y < py \<and> py < y + 12"
proof -
  assume v: "0 < v" and l2: "length (py_str v) \<noteq> 2" and l5: "length (py_str v) \<le> 5"
    and p: "(px, py, c) \<in> set (draw_tile_number v x y 13)"
  have "py_str v \<noteq> []" using v by (simp add: py_str_def py_str_nat.simps[of "nat v"] split: if_splits)
  then have l0: "length (py_str v) \<noteq> 0" by simp
  from tile_pixels_cases[OF v l2 l5 l0, of x y] p show ?thesis
    by (auto dest!: text_extent digits_extent)
qed

text \<open>\<open>GLYPH3x5\<close> has no L and no Y, so those letters are drawn as spaces: the hint under
  the board reads \<open>UP/DN/ /R\<close> and the win screen \<open> OU WIN\<close>.\<close>

lemma hint_drawn_without_L:
  "draw_text_3x5 ''UP/DN/L/R'' x y scale spacing c = draw_text_3x5 ''UP/DN/ /R'' x y scale spacing c"
  and win_drawn_without_Y:
  "draw_text_3x5 ''YOU WIN'' x y scale spacing c = draw_text_3x5 '' OU WIN'' x y scale spacing c"
  by (simp_all add: draw_text_3x5_def glyph_rows_def GLYPH3x5_def)

text \<open>A two-digit tile is 14 pixels wide at scale 2, one more than the cell: it starts one pixel
  left of the cell.\<close>

lemma tile_16_overflows: "(x - 1, y + 3, 1) \<in> set (draw_tile_number 16 x y 13)"
  apply code_simp
  by simp

lemma DIG2x5_8_is_6: "draw_digit2 (CHR ''8'') = draw_digit2 (CHR ''6'')"
  and DIG2x5_9_is_5: "draw_digit2 (CHR ''9'') = draw_digit2 (CHR ''5'')"
  by (simp_all add: draw_digit2_def DIG2x5_def fun_eq_iff)

text \<open>C35: the narrow 2x5 digit font draws 8 as 6 and 9 as 5, so the tiles 2048 and 2046 (and 4096
  and 4056) are drawn with the same pixels at every position and cell size.\<close>
theorem tile_2048_as_2046:
  "draw_tile_number 2048 x y cell = draw_tile_number 2046 x y cell \<and>
   draw_tile_number 4096 x y cell = draw_tile_number 4056 x y cell"
proof -
  have "py_str 2048 = ''2048''" "py_str 2046 = ''2046''" "py_str 4096 = ''4096''" "py_str 4056 = ''4056''"
    by code_simp+
  then show ?thesis
    by (simp add: draw_tile_number_def text_width_2x5_digits_def Let_def DIG2x5_8_is_6 DIG2x5_9_is_5)
qed
text \<open>C33: \<open>draw_text_center\<close> keeps every pixel of a text on the 64-pixel-wide portrait
  screen when the text is at most 64 pixels wide, and inside the text's 5*scale rows.\<close>
theorem text_center_on_screen:
  "text_width_3x5 s scale 1 \<le> 64 \<Longrightarrow> (px, py, c) \<in> set (draw_text_center s cy scale) \<Longrightarrow>
   0 \<le> px \<and> px < 64 \<and> cy \<le> py \<and> py < cy + int (5 * scale)"
proof -
  let ?w = "text_width_3x5 s scale 1"
  assume w: "?w \<le> 64" and p: "(px, py, c) \<in> set (draw_text_center s cy scale)"
  then have "(px, py, c) \<in> set (draw_text_3x5 s ((64 - ?w) div 2) cy scale 1 1)"
    by (simp add: draw_text_center_def Let_def)
  from text_extent[OF this] have e: "(64 - ?w) div 2 \<le> px \<and> px < (64 - ?w) div 2 + ?w \<and>
      cy \<le> py \<and> py < cy + int (5 * scale)" .
  have "0 \<le> ?w" by (rule text_width_nonneg)
  with w have "0 \<le> (64 - ?w) div 2" "(64 - ?w) div 2 + ?w \<le> 64" by linarith+
  with e show ?thesis by linarith
qed

lemma text_center_on_screen_witness:
  "text_width_3x5 ''2048'' 4 1 \<le> 64 \<and> (2, 22, 1) \<in> set (draw_text_center ''2048'' 22 4) \<and>
   0 \<le> (2::int) \<and> (2::int) < 64 \<and> (22::int) \<le> 22 \<and> (22::int) < 22 + int (5 * 4)"
  using text_center_on_screen[of "''2048''" 4 2 22 1 22] by code_simp

lemma tile_number_inside_witness:
  "0 < (2048::int) \<and> length (py_str 2048) \<noteq> 2 \<and> length (py_str 2048) \<le> 5 \<and>
   (2, 4, 1) \<in> set (draw_tile_number 2048 0 0 13) \<and>
   (0::int) < 2 \<and> (2::int) < 0 + 12 \<and> (0::int) < 4 \<and> (4::int) < 0 + 12"
  using tile_number_inside[of 2048 2 4 1 0 0] by code_simp
end
