(* ===== verification/Klotski.thy ===== *)
theory Klotski
  imports Input
begin

text \<open>
  The rules and the game loop of \<open>src/klotski.py\<close>: the 5x4 board of piece ids, the
  piece table, the move test and the move, the puzzle and win menus and one iteration
  of the main loop, driven by the trace of button samples of \<open>Input\<close>.
\<close>

section \<open>Board\<close>

type_synonym kboard = "nat list list"

definition BR :: nat where "BR = 5"
definition BC :: nat where "BC = 4"

text \<open>\<open>PIECES\<close>: piece id to (width, height).\<close>

definition PIECES :: "(nat \<times> nat \<times> nat) list" where
  "PIECES = [(1, 2, 2), (2, 1, 2), (3, 1, 2), (4, 2, 1), (5, 1, 2),
             (6, 1, 2), (7, 1, 1), (8, 1, 1), (9, 1, 1), (10, 1, 1)]"

definition PUZZLES :: "kboard list" where
  "PUZZLES =
    [[[2, 1, 1, 5], [2, 1, 1, 5], [3, 4, 4, 6], [3, 7, 8, 6], [9, 0, 0, 10]],
     [[2, 1, 1, 5], [2, 1, 1, 5], [3, 4, 4, 6], [3, 7, 0, 6], [9, 8, 0, 10]],
     [[2, 1, 1, 5], [2, 1, 1, 5], [3, 7, 8, 6], [3, 4, 4, 6], [9, 0, 0, 10]],
     [[2, 1, 1, 5], [2, 1, 1, 5], [3, 7, 8, 6], [3, 9, 10, 6], [0, 4, 4, 0]],
     [[2, 1, 1, 5], [2, 1, 1, 5], [3, 4, 4, 6], [3, 7, 8, 6], [0, 9, 10, 0]]]"

definition clone_board :: "kboard \<Rightarrow> kboard" where
  "clone_board b = map (\<lambda>row. row) b"

text \<open>The two nested loops append \<open>(r, c)\<close> in row-major order.\<close>

definition find_piece_cells :: "kboard \<Rightarrow> nat \<Rightarrow> (nat \<times> nat) list" where
  "find_piece_cells b pid =
     concat (map (\<lambda>r. map (\<lambda>c. (r, c)) (filter (\<lambda>c. b ! r ! c = pid) [0..<BC])) [0..<BR])"

definition piece_top_left :: "kboard \<Rightarrow> nat \<Rightarrow> (nat \<times> nat) option" where
  "piece_top_left b pid =
     (let cells = find_piece_cells b pid
      in if cells = [] then None else Some (min_list (map fst cells), min_list (map snd cells)))"

text \<open>The cells read by the two loops of \<open>validate_board\<close>, in order.\<close>

definition board_vals :: "kboard \<Rightarrow> nat list" where
  "board_vals b = concat (map (\<lambda>r. map (\<lambda>c. b ! r ! c) [0..<BC]) [0..<BR])"

text \<open>\<open>counts.get(pid, 0)\<close> is the number of cells holding \<open>pid\<close>; \<open>empties\<close> the number of zeros.\<close>

definition validate_board :: "kboard \<Rightarrow> bool" where
  "validate_board b \<longleftrightarrow>
     list_all (\<lambda>(pid, w, h). count_list (board_vals b) pid = w * h) PIECES \<and>
     count_list (board_vals b) 0 = 2"

text \<open>
  \<open>PIECES[pid]\<close> raises \<open>KeyError\<close> for an unknown id, and unpacking \<open>None\<close> raises
  \<open>TypeError\<close>: both are values of the model.
\<close>

datatype kerror = KeyError | TypeError

text \<open>The cells \<open>for r in range(r0, r0 + h): for c in range(c0, c0 + w)\<close>.\<close>

definition rect_cells :: "nat \<Rightarrow> nat \<Rightarrow> nat \<Rightarrow> nat \<Rightarrow> (nat \<times> nat) list" where
  "rect_cells r0 c0 w h = concat (map (\<lambda>r. map (\<lambda>c. (r, c)) [c0..<c0 + w]) [r0..<r0 + h])"

definition can_move :: "kboard \<Rightarrow> nat \<Rightarrow> int \<Rightarrow> int \<Rightarrow> kerror + bool" where
  "can_move b pid dr dc =
     (case piece_top_left b pid of
        None \<Rightarrow> Inr False
      | Some (pr, pc) \<Rightarrow>
          (case map_of PIECES pid of
             None \<Rightarrow> Inl KeyError
           | Some (pw, ph) \<Rightarrow>
               (let nr = int pr + dr; nc = int pc + dc
                in if nr < 0 \<or> nc < 0 \<or> nr + int ph > int BR \<or> nc + int pw > int BC then Inr False
                   else Inr (list_all (\<lambda>(r, c). let v = b ! r ! c in v = 0 \<or> v = pid)
                                      (rect_cells (nat nr) (nat nc) pw ph)))))"

text \<open>\<open>board[r][c] = v\<close>\<close>

definition set_cell :: "nat \<Rightarrow> nat \<times> nat \<Rightarrow> kboard \<Rightarrow> kboard" where
  "set_cell v rc b = (case rc of (r, c) \<Rightarrow> b[r := (b ! r)[c := v]])"

text \<open>
  \<open>move_piece\<close> returns whether it moved and the board it leaves. The new corner is
  taken with \<open>nat\<close>: \<open>can_move\<close> has checked it is not negative.
\<close>

definition move_piece :: "kboard \<Rightarrow> nat \<Rightarrow> int \<Rightarrow> int \<Rightarrow> kerror + bool \<times> kboard" where
  "move_piece b pid dr dc =
     (case can_move b pid dr dc of
        Inl e \<Rightarrow> Inl e
      | Inr False \<Rightarrow> Inr (False, b)
      | Inr True \<Rightarrow>
          (case piece_top_left b pid of
             None \<Rightarrow> Inl TypeError
           | Some (pr, pc) \<Rightarrow>
               (case map_of PIECES pid of
                  None \<Rightarrow> Inl KeyError
                | Some (pw, ph) \<Rightarrow>
                    (let b1 = fold (set_cell 0) (rect_cells pr pc pw ph) b;
                         nr = nat (int pr + dr); nc = nat (int pc + dc);
                         b2 = fold (set_cell pid) (rect_cells nr nc pw ph) b1
                     in Inr (True, b2)))))"

definition is_win :: "kboard \<Rightarrow> bool" where
  "is_win b \<longleftrightarrow> piece_top_left b 1 = Some (3, 1)"

definition pid_under_cursor :: "kboard \<Rightarrow> nat \<Rightarrow> nat \<Rightarrow> nat option" where
  "pid_under_cursor b r c = (let pid = b ! r ! c in if pid \<noteq> 0 then Some pid else None)"

section \<open>Menus\<close>

datatype kmenu = MStart | MExit | MAgain | MNext

text \<open>
  The \<open>while True\<close> loop of \<open>pick_puzzle\<close>: one \<open>eb.update()\<close> per pass; LEFT and RIGHT
  step the puzzle index modulo \<open>len(PUZZLES)\<close>, UP starts, DOWN exits. \<open>None\<close> is a trace
  that ends inside the loop.
\<close>

fun pick_loop :: "edge_buttons \<Rightarrow> nat \<Rightarrow> sample list \<Rightarrow> (kmenu \<times> nat \<times> sample list) option" where
  "pick_loop eb pidx [] = None"
| "pick_loop eb pidx (s # ss) =
     (case eb_update eb s of (eb', (pu, pd, pl, pr)) \<Rightarrow>
        if pl then pick_loop eb' (nat ((int pidx - 1) mod int (length PUZZLES))) ss
        else if pr then pick_loop eb' ((pidx + 1) mod length PUZZLES) ss
        else if pu then Some (MStart, pidx, ss)
        else if pd then Some (MExit, pidx, ss)
        else pick_loop eb' pidx ss)"

definition pick_puzzle :: "sample list \<Rightarrow> (kmenu \<times> nat \<times> sample list) option" where
  "pick_puzzle ss = (case wait_released ss of None \<Rightarrow> None | Some ss' \<Rightarrow> pick_loop EdgeButtons 0 ss')"

fun win_loop :: "edge_buttons \<Rightarrow> nat \<Rightarrow> sample list \<Rightarrow> (kmenu \<times> nat \<times> sample list) option" where
  "win_loop eb pidx [] = None"
| "win_loop eb pidx (s # ss) =
     (case eb_update eb s of (eb', (pu, pd, pl, pr)) \<Rightarrow>
        if pu then Some (MAgain, pidx, ss)
        else if pr then Some (MNext, (pidx + 1) mod length PUZZLES, ss)
        else if pd then Some (MExit, pidx, ss)
        else win_loop eb' pidx ss)"

text \<open>\<open>win_menu(moves, pidx)\<close>: \<open>moves\<close> is only drawn.\<close>

definition win_menu :: "nat \<Rightarrow> sample list \<Rightarrow> (kmenu \<times> nat \<times> sample list) option" where
  "win_menu pidx ss = (case wait_released ss of None \<Rightarrow> None | Some ss' \<Rightarrow> win_loop EdgeButtons pidx ss')"

section \<open>Main loop\<close>

text \<open>The locals of \<open>main()\<close> that live across iterations, and its \<open>EdgeButtons\<close>.\<close>

record kstate =
  k_board :: kboard
  k_r :: nat
  k_c :: nat
  k_grab :: "nat option"
  k_moves :: nat
  k_last :: nat
  k_pidx :: nat
  k_eb :: edge_buttons

text \<open>The start of a puzzle: \<open>board = clone_board(PUZZLES[pidx])\<close>, cursor (4, 1), no grab, no moves.\<close>

definition k_reset :: "kstate \<Rightarrow> kstate" where
  "k_reset st = st\<lparr>k_board := clone_board (PUZZLES ! k_pidx st), k_r := 4, k_c := 1,
                    k_grab := None, k_moves := 0\<rparr>"

definition kstart :: "nat \<Rightarrow> edge_buttons \<Rightarrow> kstate" where
  "kstart p eb = k_reset \<lparr>k_board = [], k_r = 0, k_c = 0, k_grab = None, k_moves = 0,
                          k_last = 0, k_pidx = p, k_eb = eb\<rparr>"

text \<open>The cursor step when nothing is grabbed: \<open>(cur_r - 1) % BR\<close> and so on.\<close>

definition cursor_move :: "edges \<Rightarrow> nat \<Rightarrow> nat \<Rightarrow> nat \<times> nat" where
  "cursor_move e r c = (case e of (pu, pd, pl, pr) \<Rightarrow>
     if pu then (nat ((int r - 1) mod int BR), c)
     else if pd then ((r + 1) mod BR, c)
     else if pl then (r, nat ((int c - 1) mod int BC))
     else if pr then (r, (c + 1) mod BC)
     else (r, c))"

text \<open>The direction \<open>move_piece\<close> is called with when a piece is grabbed.\<close>

definition grab_dir :: "edges \<Rightarrow> (int \<times> int) option" where
  "grab_dir e = (case e of (pu, pd, pl, pr) \<Rightarrow>
     if pu then Some (-1, 0) else if pd then Some (1, 0)
     else if pl then Some (0, -1) else if pr then Some (0, 1) else None)"

datatype kout = KCont kstate | KExit | KErr kerror

text \<open>
  The \<open>if moved:\<close> block: count the move, put the cursor on the piece, and on a win
  run the win menu (exit, or restart with the puzzle it returns).
\<close>

definition k_moved :: "kstate \<Rightarrow> nat \<Rightarrow> kboard \<Rightarrow> ud_action option \<Rightarrow> sample list \<Rightarrow>
                       (kout \<times> ud_action option \<times> sample list) option" where
  "k_moved st g b' act ss =
     (let st3 = st\<lparr>k_board := b', k_moves := k_moves st + 1\<rparr>;
          st4 = (case piece_top_left b' g of None \<Rightarrow> st3 | Some (r, c) \<Rightarrow> st3\<lparr>k_r := r, k_c := c\<rparr>)
      in if is_win b' then
           (case win_menu (k_pidx st4) ss of None \<Rightarrow> None
            | Some (MExit, _, ss3) \<Rightarrow> Some (KExit, act, ss3)
            | Some (_, p', ss3) \<Rightarrow>
                (case wait_released ss3 of None \<Rightarrow> None
                 | Some ss4 \<Rightarrow> Some (KCont (k_reset (st4\<lparr>k_pidx := p'\<rparr>)), act, ss4)))
         else Some (KCont st4, act, ss))"

text \<open>
  What the loop does with the edges \<open>e\<close> of \<open>eb.update()\<close> and the chord action \<open>act\<close>:
  reset, grab toggle, cursor step, or a move of the grabbed piece.
\<close>

definition k_dispatch :: "kstate \<Rightarrow> edges \<Rightarrow> ud_action option \<Rightarrow> sample list \<Rightarrow>
                          (kout \<times> ud_action option \<times> sample list) option" where
  "k_dispatch st e act ss =
     (if act = Some Reset then Some (KCont (k_reset st), act, ss)
      else if act = Some Grab then
        Some (KCont (st\<lparr>k_grab := (if k_grab st = None
                         then pid_under_cursor (k_board st) (k_r st) (k_c st) else None)\<rparr>), act, ss)
      else (case k_grab st of
          None \<Rightarrow> (case cursor_move e (k_r st) (k_c st) of (r', c') \<Rightarrow>
                     Some (KCont (st\<lparr>k_r := r', k_c := c'\<rparr>), act, ss))
        | Some g \<Rightarrow>
           (case grab_dir e of None \<Rightarrow> Some (KCont st, act, ss)
            | Some (dr, dc) \<Rightarrow>
               (case move_piece (k_board st) g dr dc of
                  Inl err \<Rightarrow> Some (KErr err, act, ss)
                | Inr (False, _) \<Rightarrow> Some (KCont st, act, ss)
                | Inr (True, b') \<Rightarrow> k_moved st g b' act ss))))"

text \<open>
  One pass of the inner \<open>while True\<close> of \<open>main()\<close>: \<open>eb.update()\<close> reads one sample,
  \<open>detect_ud_action\<close> the following ones and \<open>last_action_ms\<close> is stamped when it
  reports an action. The result is the next state (or exit, or the exception raised),
  the chord action of the pass, and the rest of the trace.
\<close>

definition k_iter :: "kstate \<Rightarrow> sample list \<Rightarrow> (kout \<times> ud_action option \<times> sample list) option" where
  "k_iter st ss =
     (case ss of [] \<Rightarrow> None
      | s # ss1 \<Rightarrow>
         (case eb_update (k_eb st) s of (eb', e) \<Rightarrow>
          (case detect_ud_action (k_last st) ss1 of None \<Rightarrow> None
           | Some (act, ss2) \<Rightarrow>
               k_dispatch (if act \<noteq> None then st\<lparr>k_eb := eb', k_last := last_read ss1 ss2\<rparr>
                           else st\<lparr>k_eb := eb'\<rparr>) e act ss2)))"

text \<open>
  \<open>main()\<close>: the puzzle check (a bad puzzle exits), the puzzle menu, the start of the game,
  then at most \<open>n\<close> passes of the loop. It returns the outcome, the chord actions in order
  and the rest of the trace.
\<close>

fun k_loop :: "nat \<Rightarrow> kstate \<Rightarrow> sample list \<Rightarrow> kout \<times> ud_action option list \<times> sample list" where
  "k_loop 0 st ss = (KCont st, [], ss)"
| "k_loop (Suc n) st ss =
     (case k_iter st ss of None \<Rightarrow> (KCont st, [], ss)
      | Some (KCont st', a, ss') \<Rightarrow> (case k_loop n st' ss' of (o', acts, rest) \<Rightarrow> (o', a # acts, rest))
      | Some (o', a, ss') \<Rightarrow> (o', [a], ss'))"

definition k_main :: "nat \<Rightarrow> sample list \<Rightarrow> (kout \<times> ud_action option list \<times> sample list) option" where
  "k_main n ss =
     (if \<not> list_all validate_board PUZZLES then Some (KExit, [], ss)
      else case pick_puzzle ss of None \<Rightarrow> None
        | Some (MExit, _, ss1) \<Rightarrow> Some (KExit, [], ss1)
        | Some (_, p, ss1) \<Rightarrow>
            (case wait_released ss1 of None \<Rightarrow> None
             | Some ss2 \<Rightarrow> Some (k_loop n (kstart p EdgeButtons) ss2)))"

section \<open>Invariants\<close>

text \<open>The board has \<open>BR\<close> rows of \<open>BC\<close> cells.\<close>

definition board_shape :: "kboard \<Rightarrow> bool" where
  "board_shape b \<longleftrightarrow> length b = BR \<and> list_all (\<lambda>row. length row = BC) b"

text \<open>
  A piece of the table is on the board exactly as its rectangle: its cells are the
  \<open>w\<close> by \<open>h\<close> block at the corner \<open>piece_top_left\<close> reports, inside the board.
\<close>

definition piece_ok :: "kboard \<Rightarrow> nat \<times> nat \<times> nat \<Rightarrow> bool" where
  "piece_ok b p = (case p of (pid, w, h) \<Rightarrow>
     (case piece_top_left b pid of None \<Rightarrow> False
      | Some (r0, c0) \<Rightarrow> r0 + h \<le> BR \<and> c0 + w \<le> BC \<and>
          set (find_piece_cells b pid) = set (rect_cells r0 c0 w h)))"

text \<open>Every piece is its rectangle and every cell is empty or holds a piece of the table.\<close>

definition board_ok :: "kboard \<Rightarrow> bool" where
  "board_ok b \<longleftrightarrow> board_shape b \<and> list_all (piece_ok b) PIECES \<and>
     list_all (\<lambda>v. v = 0 \<or> map_of PIECES v \<noteq> None) (board_vals b)"

text \<open>The set of cells holding \<open>pid\<close>.\<close>

definition cells_of :: "kboard \<Rightarrow> nat \<Rightarrow> (nat \<times> nat) set" where
  "cells_of b pid = {(r, c). r < BR \<and> c < BC \<and> b ! r ! c = pid}"

text \<open>The game state: a well-formed board, the cursor on the board, a valid puzzle, a grabbed piece of the table.\<close>

definition kinv :: "kstate \<Rightarrow> bool" where
  "kinv st \<longleftrightarrow> board_ok (k_board st) \<and> k_r st < BR \<and> k_c st < BC \<and> k_pidx st < length PUZZLES \<and>
     (case k_grab st of None \<Rightarrow> True | Some g \<Rightarrow> map_of PIECES g \<noteq> None)"

section \<open>Board lemmas\<close>





lemma set_find_piece_cells: "set (find_piece_cells b pid) = cells_of b pid"
  by (auto simp: find_piece_cells_def cells_of_def)

lemma set_rect_cells: "set (rect_cells r0 c0 w h) = {r0..<r0 + h} \<times> {c0..<c0 + w}"
  by (auto simp: rect_cells_def)

lemma piece_top_left_cells:
  "piece_top_left b pid =
     (if cells_of b pid = {} then None
      else Some (Min (fst ` cells_of b pid), Min (snd ` cells_of b pid)))"
  unfolding piece_top_left_def Let_def set_find_piece_cells[symmetric]
  by (simp add: min_list_Min)

lemma Min_interval [simp]: "0 < h \<Longrightarrow> Min {r0..<r0 + h} = (r0::nat)"
  by (auto intro!: Min_eqI)

lemma set_cell_eq:
  "set_cell v (r0, c0) b = (if r0 < length b then b[r0 := (b ! r0)[c0 := v]] else b)"
  by (simp add: set_cell_def list_update_beyond)

lemma length_set_cell [simp]:
  "length (set_cell v rc b) = length b"
  "length (set_cell v rc b ! r) = length (b ! r)"
  by (cases rc, simp add: set_cell_eq)
     (cases rc, simp add: set_cell_eq nth_list_update)

lemma nth_set_cell:
  assumes "r < length b" "c < length (b ! r)"
  shows "set_cell v rc b ! r ! c = (if (r, c) = rc then v else b ! r ! c)"
proof (cases rc)
  case (Pair r0 c0)
  show ?thesis
  proof (cases "r = r0")
    case True
    with assms Pair show ?thesis by (simp add: set_cell_eq nth_list_update)
  next
    case False
    with assms Pair show ?thesis by (simp add: set_cell_eq)
  qed
qed

lemma length_fold_set_cell [simp]:
  "length (fold (set_cell v) cs b) = length b"
  "length (fold (set_cell v) cs b ! r) = length (b ! r)"
  by (induction cs arbitrary: b) simp_all

lemma nth_fold_set_cell:
  "r < length b \<Longrightarrow> c < length (b ! r) \<Longrightarrow>
   fold (set_cell v) cs b ! r ! c = (if (r, c) \<in> set cs then v else b ! r ! c)"
proof (induction cs arbitrary: b)
  case Nil then show ?case by simp
next
  case (Cons rc cs)
  then have "r < length (set_cell v rc b)" "c < length (set_cell v rc b ! r)" by simp_all
  from Cons.IH[OF this] Cons.prems show ?case by (simp add: nth_set_cell)
qed
lemma can_move_Inr_True:
  assumes "can_move b pid dr dc = Inr True"
  obtains pr pc pw ph where "piece_top_left b pid = Some (pr, pc)" "map_of PIECES pid = Some (pw, ph)"
    "0 \<le> int pr + dr" "0 \<le> int pc + dc"
    "nat (int pr + dr) + ph \<le> BR" "nat (int pc + dc) + pw \<le> BC"
    "\<forall>(r, c) \<in> set (rect_cells (nat (int pr + dr)) (nat (int pc + dc)) pw ph).
        b ! r ! c = 0 \<or> b ! r ! c = pid"
  using assms
  by (auto simp: can_move_def Let_def list_all_iff split: option.splits if_splits)

lemma move_piece_Inl:
  "move_piece b pid dr dc = Inl e \<longleftrightarrow>
   e = KeyError \<and> map_of PIECES pid = None \<and> piece_top_left b pid \<noteq> None"
  by (auto simp: move_piece_def can_move_def Let_def split: option.splits sum.splits bool.splits)

lemma move_piece_False:
  "move_piece b pid dr dc = Inr (False, b') \<Longrightarrow> b' = b"
  by (auto simp: move_piece_def Let_def split: option.splits sum.splits bool.splits)
lemma move_piece_True:
  assumes "move_piece b pid dr dc = Inr (True, b')"
  obtains pr pc pw ph where "piece_top_left b pid = Some (pr, pc)" "map_of PIECES pid = Some (pw, ph)"
    "0 \<le> int pr + dr" "0 \<le> int pc + dc"
    "nat (int pr + dr) + ph \<le> BR" "nat (int pc + dc) + pw \<le> BC"
    "\<forall>(r, c) \<in> set (rect_cells (nat (int pr + dr)) (nat (int pc + dc)) pw ph).
        b ! r ! c = 0 \<or> b ! r ! c = pid"
    "b' = fold (set_cell pid) (rect_cells (nat (int pr + dr)) (nat (int pc + dc)) pw ph)
            (fold (set_cell 0) (rect_cells pr pc pw ph) b)"
proof -
  have cm: "can_move b pid dr dc = Inr True"
    using assms by (auto simp: move_piece_def split: sum.splits bool.splits)
  obtain pr pc pw ph where tl: "piece_top_left b pid = Some (pr, pc)"
    and dims: "map_of PIECES pid = Some (pw, ph)"
    and rest: "0 \<le> int pr + dr" "0 \<le> int pc + dc"
    "nat (int pr + dr) + ph \<le> BR" "nat (int pc + dc) + pw \<le> BC"
    "\<forall>(r, c) \<in> set (rect_cells (nat (int pr + dr)) (nat (int pc + dc)) pw ph).
        b ! r ! c = 0 \<or> b ! r ! c = pid"
    using can_move_Inr_True[OF cm] by blast
  have "b' = fold (set_cell pid) (rect_cells (nat (int pr + dr)) (nat (int pc + dc)) pw ph)
            (fold (set_cell 0) (rect_cells pr pc pw ph) b)"
    using assms cm tl dims by (simp add: move_piece_def Let_def)
  with tl dims rest that show ?thesis by blast
qed

lemma nth_move_piece:
  assumes "r < length b" "c < length (b ! r)"
  shows "fold (set_cell pid) new (fold (set_cell 0) old b) ! r ! c =
         (if (r, c) \<in> set new then pid else if (r, c) \<in> set old then 0 else b ! r ! c)"
  using assms by (simp add: nth_fold_set_cell)
lemma PIECES_keys: "distinct (map fst PIECES)"
  by (simp add: PIECES_def)

lemma PIECES_pos: "(q, w, h) \<in> set PIECES \<Longrightarrow> 0 < q \<and> 0 < w \<and> 0 < h"
  by (auto simp: PIECES_def)

lemma PIECES_lookup: "(q, w, h) \<in> set PIECES \<Longrightarrow> map_of PIECES q = Some (w, h)"
  using PIECES_keys by (rule map_of_is_SomeI)

lemma piece_ok_cells:
  "piece_ok b (q, w, h) \<longleftrightarrow>
     cells_of b q \<noteq> {} \<and> Min (fst ` cells_of b q) + h \<le> BR \<and> Min (snd ` cells_of b q) + w \<le> BC \<and>
     cells_of b q = {Min (fst ` cells_of b q)..<Min (fst ` cells_of b q) + h} \<times>
                    {Min (snd ` cells_of b q)..<Min (snd ` cells_of b q) + w}"
  by (simp add: piece_ok_def piece_top_left_cells set_find_piece_cells set_rect_cells)

lemma piece_ok_rect:
  "piece_ok b (q, w, h) \<Longrightarrow> piece_top_left b q = Some (r0, c0) \<Longrightarrow>
   cells_of b q = {r0..<r0 + h} \<times> {c0..<c0 + w}"
  by (simp add: piece_ok_def set_find_piece_cells set_rect_cells)

lemma rect_piece_ok:
  "cells_of b q = {r0..<r0 + h} \<times> {c0..<c0 + w} \<Longrightarrow> 0 < w \<Longrightarrow> 0 < h \<Longrightarrow>
   r0 + h \<le> BR \<Longrightarrow> c0 + w \<le> BC \<Longrightarrow> piece_ok b (q, w, h)"
  by (simp add: piece_ok_cells)

lemma board_shape_nth:
  "board_shape b \<Longrightarrow> r < BR \<Longrightarrow> c < BC \<Longrightarrow> r < length b \<and> c < length (b ! r)"
  by (simp add: board_shape_def list_all_length)

lemma board_shape_fold [simp]:
  "board_shape (fold (set_cell v) cs b) = board_shape b"
  by (simp add: board_shape_def list_all_length)

lemma set_board_vals: "set (board_vals b) = {b ! r ! c | r c. r < BR \<and> c < BC}"
  by (auto simp: board_vals_def; blast)
lemma move_piece_cells_of:
  assumes ok: "board_ok b" and mv: "move_piece b pid dr dc = Inr (True, b')"
    and tl: "piece_top_left b pid = Some (pr, pc)" and dims: "map_of PIECES pid = Some (pw, ph)"
  shows "cells_of b' pid =
           {nat (int pr + dr)..<nat (int pr + dr) + ph} \<times> {nat (int pc + dc)..<nat (int pc + dc) + pw}"
    and "q \<noteq> pid \<Longrightarrow> q \<noteq> 0 \<Longrightarrow> cells_of b' q = cells_of b q"
    and "r < BR \<Longrightarrow> c < BC \<Longrightarrow> b' ! r ! c = pid \<or> b' ! r ! c = 0 \<or> b' ! r ! c = b ! r ! c"
proof -
  obtain pr' pc' pw' ph' where tl': "piece_top_left b pid = Some (pr', pc')"
    and dims': "map_of PIECES pid = Some (pw', ph')"
    and nonneg: "0 \<le> int pr' + dr" "0 \<le> int pc' + dc"
    and bnd: "nat (int pr' + dr) + ph' \<le> BR" "nat (int pc' + dc) + pw' \<le> BC"
    and free: "\<forall>(r, c) \<in> set (rect_cells (nat (int pr' + dr)) (nat (int pc' + dc)) pw' ph').
        b ! r ! c = 0 \<or> b ! r ! c = pid"
    and b': "b' = fold (set_cell pid) (rect_cells (nat (int pr' + dr)) (nat (int pc' + dc)) pw' ph')
            (fold (set_cell 0) (rect_cells pr' pc' pw' ph') b)"
    by (rule move_piece_True[OF mv])
  have same: "pr' = pr" "pc' = pc" "pw' = pw" "ph' = ph" using tl tl' dims dims' by simp_all
  define NEW where "NEW = set (rect_cells (nat (int pr + dr)) (nat (int pc + dc)) pw ph)"
  define OLD where "OLD = set (rect_cells pr pc pw ph)"
  have mem: "(pid, pw, ph) \<in> set PIECES" using dims by (rule map_of_SomeD)
  then have pos: "0 < pid" "0 < pw" "0 < ph" using PIECES_pos by blast+
  have shape: "board_shape b" using ok by (simp add: board_ok_def)
  have at: "b' ! r ! c = (if (r, c) \<in> NEW then pid else if (r, c) \<in> OLD then 0 else b ! r ! c)"
    if "r < BR" "c < BC" for r c
    using board_shape_nth[OF shape that] unfolding b' same NEW_def OLD_def by (simp add: nth_move_piece)
  have "piece_ok b (pid, pw, ph)" using ok mem by (simp add: board_ok_def list_all_iff)
  then have old: "cells_of b pid = OLD"
    using tl by (simp add: piece_ok_rect OLD_def set_rect_cells)
  have NEW_rng: "NEW \<subseteq> {0..<BR} \<times> {0..<BC}" using bnd by (auto simp: NEW_def set_rect_cells same)
  have "(r, c) \<in> cells_of b' pid \<longleftrightarrow> (r, c) \<in> NEW" for r c
  proof (cases "r < BR \<and> c < BC")
    case True
    have "b ! r ! c = pid \<longleftrightarrow> (r, c) \<in> OLD" using True old by (auto simp: cells_of_def)
    with True pos show ?thesis by (simp add: cells_of_def at)
  next
    case False
    with NEW_rng show ?thesis by (auto simp: cells_of_def)
  qed
  then show "cells_of b' pid =
           {nat (int pr + dr)..<nat (int pr + dr) + ph} \<times> {nat (int pc + dc)..<nat (int pc + dc) + pw}"
    by (auto simp: NEW_def set_rect_cells)
  show "q \<noteq> pid \<Longrightarrow> q \<noteq> 0 \<Longrightarrow> cells_of b' q = cells_of b q"
  proof -
    assume qp: "q \<noteq> pid" and q0: "q \<noteq> 0"
    have "(r, c) \<in> cells_of b' q \<longleftrightarrow> (r, c) \<in> cells_of b q" for r c
    proof (cases "r < BR \<and> c < BC")
      case rng: True
      consider "(r, c) \<in> NEW" | "(r, c) \<notin> NEW" "(r, c) \<in> OLD" | "(r, c) \<notin> NEW" "(r, c) \<notin> OLD"
        by blast
      then have "b' ! r ! c = q \<longleftrightarrow> b ! r ! c = q"
      proof cases
        case 1
        with free have "b ! r ! c = 0 \<or> b ! r ! c = pid" by (auto simp: NEW_def same)
        with 1 rng qp q0 show ?thesis by (auto simp: at)
      next
        case 2
        with old rng have "b ! r ! c = pid" by (auto simp: cells_of_def)
        with 2 rng qp q0 show ?thesis by (auto simp: at)
      next
        case 3
        with rng show ?thesis by (simp add: at)
      qed
      with rng show ?thesis by (simp add: cells_of_def)
    next
      case False
      then show ?thesis by (auto simp: cells_of_def)
    qed
    then show ?thesis by auto
  qed
  show "r < BR \<Longrightarrow> c < BC \<Longrightarrow> b' ! r ! c = pid \<or> b' ! r ! c = 0 \<or> b' ! r ! c = b ! r ! c"
    by (simp add: at)
qed

lemma board_ok_move_piece:
  assumes ok: "board_ok b" and mv: "move_piece b pid dr dc = Inr (m, b')"
  shows "board_ok b'"
proof (cases m)
  case False
  with mv have "b' = b" by (simp add: move_piece_False)
  with ok show ?thesis by simp
next
  case True
  with mv have mvT: "move_piece b pid dr dc = Inr (True, b')" by simp
  obtain pr pc pw ph where tl: "piece_top_left b pid = Some (pr, pc)"
    and dims: "map_of PIECES pid = Some (pw, ph)"
    and nonneg: "0 \<le> int pr + dr" "0 \<le> int pc + dc"
    and bnd: "nat (int pr + dr) + ph \<le> BR" "nat (int pc + dc) + pw \<le> BC"
    and free: "\<forall>(r, c) \<in> set (rect_cells (nat (int pr + dr)) (nat (int pc + dc)) pw ph).
        b ! r ! c = 0 \<or> b ! r ! c = pid"
    and b': "b' = fold (set_cell pid) (rect_cells (nat (int pr + dr)) (nat (int pc + dc)) pw ph)
            (fold (set_cell 0) (rect_cells pr pc pw ph) b)"
    by (rule move_piece_True[OF mvT])
  note cells = move_piece_cells_of[OF ok mvT tl dims]
  have mem: "(pid, pw, ph) \<in> set PIECES" using dims by (rule map_of_SomeD)
  then have pos: "0 < pw" "0 < ph" using PIECES_pos by blast+
  have shape: "board_shape b" using ok by (simp add: board_ok_def)
  have pieces: "piece_ok b' (q, w, h)" if qm: "(q, w, h) \<in> set PIECES" for q w h
  proof (cases "q = pid")
    case True
    with qm dims PIECES_lookup have "w = pw" "h = ph" by fastforce+
    with True cells(1) bnd pos show ?thesis by (intro rect_piece_ok) simp_all
  next
    case False
    with qm PIECES_pos cells(2) have "cells_of b' q = cells_of b q" by blast
    moreover have "piece_ok b (q, w, h)" using ok qm by (simp add: board_ok_def list_all_iff)
    ultimately show ?thesis by (simp add: piece_ok_cells)
  qed
  have vals: "v = 0 \<or> map_of PIECES v \<noteq> None" if vm: "v \<in> set (board_vals b')" for v
  proof -
    obtain r c where rc: "r < BR" "c < BC" "v = b' ! r ! c" using vm by (auto simp: set_board_vals)
    have "b ! r ! c \<in> set (board_vals b)" using rc by (auto simp: set_board_vals)
    then have "b ! r ! c = 0 \<or> map_of PIECES (b ! r ! c) \<noteq> None"
      using ok by (simp add: board_ok_def list_all_iff)
    with rc cells(3)[of r c] dims show ?thesis by auto
  qed
  show ?thesis
    using shape pieces vals unfolding board_ok_def b'[symmetric] by (auto simp: list_all_iff b')
qed

lemma find_piece_cells_cong:
  assumes "cells_of b q = cells_of b' q"
  shows "find_piece_cells b q = find_piece_cells b' q"
proof -
  have "b ! r ! c = q \<longleftrightarrow> b' ! r ! c = q" if "r < BR" "c < BC" for r c
    using eqset_imp_iff[OF assms, of "(r, c)"] that by (simp add: cells_of_def)
  then show ?thesis unfolding find_piece_cells_def
    by (intro arg_cong[where f = concat] map_cong arg_cong[where f = "map _"] filter_cong refl) auto
qed


lemma PUZZLES_ok: "list_all board_ok PUZZLES"
  by code_simp

lemma kinv_reset: "k_pidx st < length PUZZLES \<Longrightarrow> kinv (k_reset st)"
  using PUZZLES_ok by (simp add: kinv_def k_reset_def clone_board_def list_all_length BR_def BC_def)

lemma pick_loop_bound:
  "pick_loop eb p ss = Some (m, p', rest) \<Longrightarrow> p < length PUZZLES \<Longrightarrow>
   p' < length PUZZLES \<and> (m = MStart \<or> m = MExit)"
proof (induction ss arbitrary: eb p)
  case (Cons s ss)
  obtain eb' pu pd pl pr where e: "eb_update eb s = (eb', pu, pd, pl, pr)"
    by (cases "eb_update eb s") auto
  have "nat ((int p - 1) mod int (length PUZZLES)) < length PUZZLES"
    "(p + 1) mod length PUZZLES < length PUZZLES"
    by (simp_all add: PUZZLES_def nat_less_iff)
  with Cons.IH Cons.prems e show ?case by (auto split: if_splits)
qed simp

lemma win_loop_bound:
  "win_loop eb p ss = Some (m, p', rest) \<Longrightarrow> p < length PUZZLES \<Longrightarrow>
   p' < length PUZZLES \<and> m \<noteq> MStart"
proof (induction ss arbitrary: eb)
  case (Cons s ss)
  obtain eb' pu pd pl pr where e: "eb_update eb s = (eb', pu, pd, pl, pr)"
    by (cases "eb_update eb s") auto
  have "(p + 1) mod length PUZZLES < length PUZZLES" by (simp add: PUZZLES_def)
  with Cons.IH Cons.prems e show ?case by (auto split: if_splits)
qed simp

lemma cursor_move_range:
  "cursor_move e r c = (r', c') \<Longrightarrow> r < BR \<Longrightarrow> c < BC \<Longrightarrow> r' < BR \<and> c' < BC"
  by (auto simp: cursor_move_def BR_def BC_def nat_less_iff split: prod.splits if_splits)

lemma board_ok_cell:
  "board_ok b \<Longrightarrow> r < BR \<Longrightarrow> c < BC \<Longrightarrow> b ! r ! c = 0 \<or> map_of PIECES (b ! r ! c) \<noteq> None"
  by (auto simp: board_ok_def list_all_iff set_board_vals)

lemma pid_under_cursor_ok:
  "board_ok b \<Longrightarrow> r < BR \<Longrightarrow> c < BC \<Longrightarrow> pid_under_cursor b r c = Some g \<Longrightarrow> map_of PIECES g \<noteq> None"
  using board_ok_cell[of b r c] by (auto simp: pid_under_cursor_def Let_def split: if_splits)

lemma piece_top_left_range:
  assumes "board_ok b" "map_of PIECES g = Some (w, h)" "piece_top_left b g = Some (r, c)"
  shows "r < BR \<and> c < BC"
proof -
  have "(g, w, h) \<in> set PIECES" using assms(2) by (rule map_of_SomeD)
  with assms(1) have "piece_ok b (g, w, h)" by (simp add: board_ok_def list_all_iff)
  with assms(3) PIECES_pos[OF \<open>(g, w, h) \<in> set PIECES\<close>] show ?thesis by (simp add: piece_ok_def)
qed
lemma kinv_upd [simp]:
  "kinv (st\<lparr>k_eb := x\<rparr>) = kinv st" "kinv (st\<lparr>k_last := t\<rparr>) = kinv st"
  by (simp_all add: kinv_def)

lemma kinv_grab:
  "kinv st \<Longrightarrow> kinv (st\<lparr>k_grab := None\<rparr>)"
  "kinv st \<Longrightarrow> kinv (st\<lparr>k_grab := pid_under_cursor (k_board st) (k_r st) (k_c st)\<rparr>)"
  by (auto simp: kinv_def dest: pid_under_cursor_ok split: option.splits)

lemma kinv_cursor:
  "kinv st \<Longrightarrow> cursor_move e (k_r st) (k_c st) = (r', c') \<Longrightarrow> kinv (st\<lparr>k_r := r', k_c := c'\<rparr>)"
  by (auto simp: kinv_def dest: cursor_move_range)

lemma kinv_moved:
  assumes inv: "kinv st" and g: "k_grab st = Some g"
    and mv: "move_piece (k_board st) g dr dc = Inr (True, b')"
  shows "kinv (case piece_top_left b' g of None \<Rightarrow> st\<lparr>k_board := b', k_moves := k_moves st + 1\<rparr>
               | Some (r, c) \<Rightarrow> st\<lparr>k_board := b', k_moves := k_moves st + 1, k_r := r, k_c := c\<rparr>)"
proof -
  have ok': "board_ok b'" using inv mv board_ok_move_piece by (auto simp: kinv_def)
  obtain w h where wh: "map_of PIECES g = Some (w, h)" using inv g by (auto simp: kinv_def)
  show ?thesis
  proof (cases "piece_top_left b' g")
    case (Some rc)
    with ok' wh piece_top_left_range[of b' g w h "fst rc" "snd rc"] inv g show ?thesis
      by (cases rc) (auto simp: kinv_def)
  qed (use ok' inv g in \<open>auto simp: kinv_def\<close>)
qed

lemma move_piece_no_error:
  "map_of PIECES g \<noteq> None \<Longrightarrow> move_piece b g dr dc \<noteq> Inl e"
  by (simp add: move_piece_Inl)
lemma k_moved_inv:
  assumes inv: "kinv st" and g: "k_grab st = Some g"
    and mv: "move_piece (k_board st) g dr dc = Inr (True, b')"
    and it: "k_moved st g b' act ss = Some (out, a, ss')"
  shows "(\<forall>e. out \<noteq> KErr e) \<and> (\<forall>st'. out = KCont st' \<longrightarrow> kinv st')"
proof -
  define st4 where "st4 = (case piece_top_left b' g of None \<Rightarrow> st\<lparr>k_board := b', k_moves := k_moves st + 1\<rparr>
       | Some (r, c) \<Rightarrow> st\<lparr>k_board := b', k_moves := k_moves st + 1, k_r := r, k_c := c\<rparr>)"
  have inv4: "kinv st4" unfolding st4_def using kinv_moved[OF inv g mv] .
  have it4: "k_moved st g b' act ss =
     (if is_win b' then
        (case win_menu (k_pidx st4) ss of None \<Rightarrow> None
         | Some (MExit, _, ss3) \<Rightarrow> Some (KExit, act, ss3)
         | Some (_, p', ss3) \<Rightarrow>
             (case wait_released ss3 of None \<Rightarrow> None
              | Some ss4 \<Rightarrow> Some (KCont (k_reset (st4\<lparr>k_pidx := p'\<rparr>)), act, ss4)))
      else Some (KCont st4, act, ss))"
    unfolding k_moved_def st4_def Let_def by (simp split: option.splits prod.splits)
  have "p' < length PUZZLES" if "win_menu (k_pidx st4) ss = Some (m, p', ss3)" for m p' ss3
    using that inv4 win_loop_bound by (auto simp: win_menu_def kinv_def split: option.splits)
  with it it4 inv4 show ?thesis
    by (auto intro!: kinv_reset split: if_splits option.splits kmenu.splits)
qed

lemma k_dispatch_inv:
  assumes inv: "kinv st" and it: "k_dispatch st e act ss = Some (out, a, ss')"
  shows "(\<forall>e. out \<noteq> KErr e) \<and> (\<forall>st'. out = KCont st' \<longrightarrow> kinv st')"
proof (cases "act = Some Reset \<or> act = Some Grab")
  case True
  have "k_pidx st < length PUZZLES" using inv by (simp add: kinv_def)
  with True it inv show ?thesis
    by (auto simp: k_dispatch_def intro: kinv_reset kinv_grab)
next
  case nact: False
  show ?thesis
  proof (cases "k_grab st")
    case None
    with it nact inv show ?thesis by (auto simp: k_dispatch_def intro: kinv_cursor split: prod.splits)
  next
    case (Some g)
    have gok: "map_of PIECES g \<noteq> None" using inv Some by (simp add: kinv_def)
    show ?thesis
    proof (cases "grab_dir e")
      case None
      with it nact inv Some show ?thesis by (auto simp: k_dispatch_def)
    next
      case (Some d)
      obtain dr dc where d: "d = (dr, dc)" by (cases d) auto
      show ?thesis
      proof (cases "move_piece (k_board st) g dr dc")
        case (Inl err) with gok move_piece_no_error show ?thesis by blast
      next
        case (Inr r)
        obtain m b' where r: "r = (m, b')" by (cases r) auto
        show ?thesis
        proof (cases m)
          case False
          with it nact inv Some d Inr r \<open>k_grab st = Some g\<close> show ?thesis by (auto simp: k_dispatch_def)
        next
          case True
          with it nact Some d Inr r \<open>k_grab st = Some g\<close> have "k_moved st g b' act ss = Some (out, a, ss')"
            by (auto simp: k_dispatch_def)
          moreover have "move_piece (k_board st) g dr dc = Inr (True, b')" using Inr r True by simp
          ultimately show ?thesis using k_moved_inv[OF inv \<open>k_grab st = Some g\<close>] by blast
        qed
      qed
    qed
  qed
qed

lemma k_iter_inv:
  assumes inv: "kinv st" and it: "k_iter st ss = Some (out, a, ss')"
  shows "(\<forall>e. out \<noteq> KErr e) \<and> (\<forall>st'. out = KCont st' \<longrightarrow> kinv st')"
proof -
  obtain s ss1 where ss: "ss = s # ss1" using it by (cases ss) (auto simp: k_iter_def)
  obtain eb' e where e: "eb_update (k_eb st) s = (eb', e)" by (cases "eb_update (k_eb st) s") auto
  obtain act ss2 where d: "detect_ud_action (k_last st) ss1 = Some (act, ss2)"
    using it by (auto simp: k_iter_def ss e split: option.splits)
  define st2 where "st2 = (if act \<noteq> None then st\<lparr>k_eb := eb', k_last := last_read ss1 ss2\<rparr>
                         else st\<lparr>k_eb := eb'\<rparr>)"
  have "kinv st2" using inv by (simp add: st2_def)
  moreover have "k_dispatch st2 e act ss2 = Some (out, a, ss')"
    using it e d by (simp add: k_iter_def ss st2_def)
  ultimately show ?thesis by (rule k_dispatch_inv)
qed
lemma k_loop_inv:
  "kinv st \<Longrightarrow> k_loop n st ss = (out, acts, rest) \<Longrightarrow>
   (\<forall>e. out \<noteq> KErr e) \<and> (\<forall>st'. out = KCont st' \<longrightarrow> kinv st')"
proof (induction n arbitrary: st ss out acts rest)
  case 0 then show ?case by auto
next
  case (Suc n)
  show ?case
  proof (cases "k_iter st ss")
    case None with Suc.prems show ?thesis by auto
  next
    case (Some r)
    obtain o1 a ss1 where r: "r = (o1, a, ss1)" by (cases r) auto
    have step: "(\<forall>e. o1 \<noteq> KErr e) \<and> (\<forall>st'. o1 = KCont st' \<longrightarrow> kinv st')"
      using k_iter_inv[OF Suc.prems(1)] Some r by blast
    show ?thesis
    proof (cases o1)
      case (KCont st1)
      with Suc.prems(2) Some r obtain acts' where "k_loop n st1 ss1 = (out, acts', rest)"
        by (auto split: prod.splits)
      with Suc.IH step KCont show ?thesis by blast
    qed (use Suc.prems(2) Some r step in auto)
  qed
qed

lemma kinv_kstart: "p < length PUZZLES \<Longrightarrow> kinv (kstart p eb)"
  by (simp add: kstart_def kinv_reset)

lemma pick_puzzle_bound:
  "pick_puzzle ss = Some (m, p, rest) \<Longrightarrow> p < length PUZZLES \<and> (m = MStart \<or> m = MExit)"
  using pick_loop_bound by (auto simp: pick_puzzle_def PUZZLES_def split: option.splits)

lemma detect_held:
  "list_all chord_held ss \<Longrightarrow> detect_ud_action t ss = Some (a, rest) \<Longrightarrow>
   a = Some Reset \<and> list_all chord_held rest"
  by (cases "(t, ss)" rule: detect_ud_action.cases)
     (auto simp: chord_held_def split: option.splits prod.splits bool.splits dest: hold_loop_held)

lemma k_iter_held:
  assumes "list_all chord_held ss" "k_iter st ss = Some (out, a, ss')"
  shows "a = Some Reset \<and> out = KCont (k_reset (st\<lparr>k_eb := fst (eb_update (k_eb st) (hd ss)),
                                                   k_last := last_read (tl ss) ss'\<rparr>)) \<and>
         list_all chord_held ss'"
proof -
  obtain s ss1 where ss: "ss = s # ss1" using assms(2) by (cases ss) (auto simp: k_iter_def)
  obtain act ss2 where d: "detect_ud_action (k_last st) ss1 = Some (act, ss2)"
    using assms(2) by (auto simp: k_iter_def ss split: option.splits prod.splits)
  have "act = Some Reset" "list_all chord_held ss2" using detect_held[OF _ d] assms(1) ss by auto
  with assms(2) d show ?thesis
    by (auto simp: k_iter_def ss k_dispatch_def split: prod.splits)
qed

lemma k_main_run:
  assumes "k_main n ss = Some (out, acts, rest)"
  shows "out = KExit \<or> (\<exists>p ss2. p < length PUZZLES \<and> k_loop n (kstart p EdgeButtons) ss2 = (out, acts, rest))"
proof -
  consider "out = KExit"
    | m p ss1 ss2 where "pick_puzzle ss = Some (m, p, ss1)" "wait_released ss1 = Some ss2"
        "k_loop n (kstart p EdgeButtons) ss2 = (out, acts, rest)"
    using assms by (auto simp: k_main_def split: if_splits option.splits prod.splits kmenu.splits)
  then show ?thesis
  proof cases
    case 1 then show ?thesis by simp
  next
    case 2 with pick_puzzle_bound show ?thesis by blast
  qed
qed

lemma k_main_kinv: "k_main n ss = Some (KCont st, acts, rest) \<Longrightarrow> kinv st"
  using k_main_run [of n ss "KCont st" acts rest] k_loop_inv [OF kinv_kstart] by blast

lemma k_iter_held_pass:
  assumes "list_all chord_held ss" "paced ss" "74 \<le> length ss"
  shows "\<exists>out a m. m \<le> 74 \<and> k_iter st ss = Some (out, a, drop m ss)"
proof -
  obtain s s0 ss2 where ss: "ss = s # s0 # ss2" and l: "72 \<le> length ss2"
    using assms(3) by (cases ss; cases "tl ss") auto
  from assms(1) ss have h0: "chord_held s0" and h2: "list_all chord_held ss2" by simp_all
  from assms(2) ss have "paced (s0 # ss2)" using paced_drop [of ss 1] by simp
  from hold_loop_paced [OF h2 this l] obtain j where
    j: "j < 72" "hold_loop (s_t s0) ss2 = Some (True, drop (Suc j) ss2)" by blast
  with h0 have d: "detect_ud_action (k_last st) (s0 # ss2) = Some (Some Reset, drop (Suc j) ss2)"
    by (simp add: chord_held_def)
  obtain eb' e where "eb_update (k_eb st) s = (eb', e)" by (metis surj_pair)
  then obtain out where "k_iter st ss = Some (out, Some Reset, drop (Suc j) ss2)"
    by (simp add: k_iter_def ss d k_dispatch_def del: detect_ud_action.simps)
  moreover have "drop (Suc j) ss2 = drop (j + 3) ss" by (simp add: ss numeral_3_eq_3)
  moreover have "j + 3 \<le> 74" using j(1) by simp
  ultimately show ?thesis by metis
qed

text \<open>
  C22: on a well-formed board, \<open>move_piece\<close> of a piece of the table never raises
  and always leaves a well-formed board: pieces stay whole rectangles, never overlap
  and never leave the board.
\<close>
theorem move_piece_total_wf:
  "board_ok b \<Longrightarrow> map_of PIECES pid \<noteq> None \<Longrightarrow>
   \<exists>m b'. move_piece b pid dr dc = Inr (m, b') \<and> board_ok b'"
  by (metis board_ok_move_piece move_piece_no_error sum.exhaust surj_pair)

text \<open>
  C24: whatever the button trace, the Klotski program never raises (no \<open>KeyError\<close>
  from \<open>PIECES[pid]\<close>, no failed unpacking), and every state its loop reaches keeps
  the invariant \<open>kinv\<close>.
\<close>
theorem k_main_safe:
  "k_main n ss = Some (out, acts, rest) \<Longrightarrow>
   (\<forall>e. out \<noteq> KErr e) \<and> (\<forall>st. out = KCont st \<longrightarrow> kinv st)"
proof -
  assume "k_main n ss = Some (out, acts, rest)"
  from k_main_run [OF this] show ?thesis
  proof
    assume "out = KExit" then show ?thesis by simp
  next
    assume "\<exists>p ss2. p < length PUZZLES \<and> k_loop n (kstart p EdgeButtons) ss2 = (out, acts, rest)"
    with k_loop_inv [OF kinv_kstart] show ?thesis by blast
  qed
qed

text \<open>
  C25: the puzzle menu returns a valid puzzle index and only "start" or "exit"; the win
  menu, given a valid index, returns a valid index and never "start".
\<close>
theorem menu_ranges:
  "(pick_puzzle ss = Some (m, p, rest) \<longrightarrow> p < length PUZZLES \<and> (m = MStart \<or> m = MExit)) \<and>
   (q < length PUZZLES \<and> win_menu q ss' = Some (m', p', rest') \<longrightarrow> p' < length PUZZLES \<and> m' \<noteq> MStart)"
proof (rule conjI; rule impI)
  show "pick_puzzle ss = Some (m, p, rest) \<Longrightarrow> p < length PUZZLES \<and> (m = MStart \<or> m = MExit)"
    by (rule pick_puzzle_bound)
  assume "q < length PUZZLES \<and> win_menu q ss' = Some (m', p', rest')"
  then obtain ss2 where "win_loop EdgeButtons q ss2 = Some (m', p', rest')" "q < length PUZZLES"
    by (auto simp: win_menu_def split: option.splits)
  then show "p' < length PUZZLES \<and> m' \<noteq> MStart" by (rule win_loop_bound)
qed

text \<open>
  C26: a single long hold of UP and DOWN resets the puzzle again and again, not once.
  On a trace where both stay held and the samples come at the pace of the loop's
  10 ms sleeps, each pass of the main loop takes at most 74 samples and reports a
  reset, so \<open>n\<close> passes all complete and all \<open>n\<close> report \<open>reset\<close>.
\<close>
theorem k_loop_hold_resets:
  assumes "list_all chord_held ss" "paced ss" "74 * n \<le> length ss"
  shows "\<exists>st' rest. k_loop n st ss = (KCont st', replicate n (Some Reset), rest)"
  using assms
proof (induction n arbitrary: st ss)
  case 0
  then show ?case by simp
next
  case (Suc n)
  from k_iter_held_pass [OF Suc.prems(1,2)] Suc.prems(3) obtain out a m
    where m: "m \<le> 74" and it: "k_iter st ss = Some (out, a, drop m ss)" by fastforce
  from k_iter_held [OF Suc.prems(1) it] obtain st1 where
    a: "a = Some Reset" "out = KCont st1" "list_all chord_held (drop m ss)" by blast
  have "74 * n \<le> length (drop m ss)" using Suc.prems(3) m by simp
  from Suc.IH [OF a(3) paced_drop [OF Suc.prems(2)] this] obtain st' rest
    where "k_loop n st1 (drop m ss) = (KCont st', replicate n (Some Reset), rest)" by blast
  with it a show ?case by simp
qed

theorem k_loop_hold_resets_witness:
  "\<exists>st' rest. k_loop 2 (kstart 0 EdgeButtons) (map (\<lambda>i. levels_at 0 0 1 1 (10 * i)) [0..<148]) =
     (KCont st', [Some Reset, Some Reset], rest)"
proof -
  have "list_all chord_held (map (\<lambda>i. levels_at 0 0 1 1 (10 * i)) [0..<148])"
    by (simp add: list_all_iff chord_held_def levels_at_def)
  moreover have "paced (map (\<lambda>i. levels_at 0 0 1 1 (10 * i)) [0..<148])"
    by (simp add: levels_at_def upt_rec)
  moreover have "74 * 2 \<le> length (map (\<lambda>i. levels_at 0 0 1 1 (10 * i)) [0..<148])" by simp
  ultimately show ?thesis using k_loop_hold_resets [of _ 2 "kstart 0 EdgeButtons"] by (simp add: numeral_2_eq_2)
qed
text \<open>
  C23: a successful \<open>move_piece\<close> puts the moved piece's corner at the old corner plus
  \<open>(dr, dc)\<close> and leaves the cells of every other piece exactly where they were.
\<close>
theorem move_piece_moves_piece:
  "board_ok b \<Longrightarrow> piece_top_left b pid = Some (pr, pc) \<Longrightarrow> move_piece b pid dr dc = Inr (True, b') \<Longrightarrow>
   piece_top_left b' pid = Some (nat (int pr + dr), nat (int pc + dc)) \<and>
   (\<forall>q. q \<noteq> pid \<and> q \<noteq> 0 \<longrightarrow> find_piece_cells b' q = find_piece_cells b q)"
proof -
  assume ok: "board_ok b" and tl: "piece_top_left b pid = Some (pr, pc)"
    and mv: "move_piece b pid dr dc = Inr (True, b')"
  obtain pw ph where dims: "map_of PIECES pid = Some (pw, ph)"
    using move_piece_True[OF mv] tl by (metis option.inject)
  have "0 < pw" "0 < ph" using PIECES_pos map_of_SomeD[OF dims] by blast+
  with move_piece_cells_of(1)[OF ok mv tl dims]
  have "piece_top_left b' pid = Some (nat (int pr + dr), nat (int pc + dc))"
    by (simp add: piece_top_left_cells)
  moreover have "find_piece_cells b' q = find_piece_cells b q" if "q \<noteq> pid" "q \<noteq> 0" for q
    using move_piece_cells_of(2)[OF ok mv tl dims that] by (rule find_piece_cells_cong)
  ultimately show ?thesis by blast
qed

theorem move_piece_moves_piece_witness:
  "piece_top_left [[2, 1, 1, 5], [2, 1, 1, 5], [3, 4, 4, 6], [3, 7, 8, 6], [0, 9, 0, 10]] 9 = Some (4, 1) \<and>
   find_piece_cells [[2, 1, 1, 5], [2, 1, 1, 5], [3, 4, 4, 6], [3, 7, 8, 6], [0, 9, 0, 10]] 1 =
   find_piece_cells (PUZZLES ! 0) 1"
proof -
  have "board_ok (PUZZLES ! 0)" "piece_top_left (PUZZLES ! 0) 9 = Some (4, 0)"
    "move_piece (PUZZLES ! 0) 9 0 1 =
       Inr (True, [[2, 1, 1, 5], [2, 1, 1, 5], [3, 4, 4, 6], [3, 7, 8, 6], [0, 9, 0, 10]])"
    by code_simp+
  from move_piece_moves_piece[OF this] show ?thesis by simp
qed

theorem move_piece_total_wf_witness:
  "\<exists>m b'. move_piece (PUZZLES ! 0) 9 0 1 = Inr (m, b') \<and> board_ok b'"
proof -
  have "board_ok (PUZZLES ! 0)" "map_of PIECES 9 \<noteq> None" by code_simp+
  from move_piece_total_wf[OF this] show ?thesis .
qed

theorem k_main_safe_witness:
  "k_main 1 [levels_at 1 1 1 1 0, levels_at 0 1 1 1 10, levels_at 1 1 1 1 20,
             levels_at 1 1 1 1 30, levels_at 1 1 1 1 40] = Some (KCont (kstart 0 EdgeButtons), [None], []) \<and>
   kinv (kstart 0 EdgeButtons)"
proof -
  have "k_main 1 [levels_at 1 1 1 1 0, levels_at 0 1 1 1 10, levels_at 1 1 1 1 20,
             levels_at 1 1 1 1 30, levels_at 1 1 1 1 40] = Some (KCont (kstart 0 EdgeButtons), [None], [])"
    by code_simp
  with k_main_safe show ?thesis by blast
qed

theorem menu_ranges_witness:
  "pick_puzzle [levels_at 1 1 1 1 0, levels_at 1 1 0 1 10, levels_at 1 1 1 1 20, levels_at 0 1 1 1 30] =
     Some (MStart, 4, []) \<and>
   win_menu 4 [levels_at 1 1 1 1 0, levels_at 1 1 1 0 10] = Some (MNext, 0, []) \<and>
   4 < length PUZZLES \<and> 0 < length PUZZLES"
proof -
  have "pick_puzzle [levels_at 1 1 1 1 0, levels_at 1 1 0 1 10, levels_at 1 1 1 1 20, levels_at 0 1 1 1 30] =
     Some (MStart, 4, [])" "win_menu 4 [levels_at 1 1 1 1 0, levels_at 1 1 1 0 10] = Some (MNext, 0, [])"
    "4 < length PUZZLES" by code_simp+
  with menu_ranges show ?thesis by blast
qed
end
