(* ===== verification/DrawKlotski.thy ===== *)
theory DrawKlotski
  imports Klotski Font3x5
begin

text \<open>
  The drawing code of \<open>src/klotski.py\<close>: its copy of the 3x5 font (with K, L, X, Y
  and + but no H and no Z), text layout, rectangles, the fill pattern of each piece,
  the board \<open>render\<close> with its \<open>PIECES[pid]\<close> lookup, and the title and win screens.
  A drawing is the list of \<open>draw_pixel\<close> calls it makes, in order.
\<close>

section \<open>Font and text\<close>

definition KGLYPH :: "(char \<times> nat list) list" where
  "KGLYPH =
    [(CHR ''0'', [7, 5, 5, 5, 7]), (CHR ''1'', [2, 6, 2, 2, 7]), (CHR ''2'', [7, 1, 7, 4, 7]),
     (CHR ''3'', [7, 1, 7, 1, 7]), (CHR ''4'', [5, 5, 7, 1, 1]), (CHR ''5'', [7, 4, 7, 1, 7]),
     (CHR ''6'', [7, 4, 7, 5, 7]), (CHR ''7'', [7, 1, 2, 2, 2]), (CHR ''8'', [7, 5, 7, 5, 7]),
     (CHR ''9'', [7, 5, 7, 1, 7]), (CHR ''A'', [7, 5, 7, 5, 5]), (CHR ''B'', [6, 5, 6, 5, 6]),
     (CHR ''C'', [7, 4, 4, 4, 7]), (CHR ''D'', [6, 5, 5, 5, 6]), (CHR ''E'', [7, 4, 7, 4, 7]),
     (CHR ''G'', [7, 4, 5, 5, 7]), (CHR ''I'', [7, 2, 2, 2, 7]), (CHR ''K'', [5, 6, 4, 6, 5]),
     (CHR ''L'', [4, 4, 4, 4, 7]), (CHR ''M'', [5, 7, 7, 5, 5]), (CHR ''N'', [5, 7, 7, 7, 5]),
     (CHR ''O'', [7, 5, 5, 5, 7]), (CHR ''P'', [6, 5, 6, 4, 4]), (CHR ''R'', [6, 5, 6, 5, 5]),
     (CHR ''S'', [7, 4, 7, 1, 7]), (CHR ''T'', [7, 2, 2, 2, 2]), (CHR ''U'', [5, 5, 5, 5, 7]),
     (CHR ''V'', [5, 5, 5, 5, 2]), (CHR ''W'', [5, 5, 5, 7, 7]), (CHR ''X'', [5, 5, 2, 5, 5]),
     (CHR ''Y'', [5, 5, 2, 2, 2]), (CHR '' '', [0, 0, 0, 0, 0]), (CHR '':'', [0, 2, 0, 2, 0]),
     (CHR ''-'', [0, 0, 7, 0, 0]), (CHR ''+'', [0, 2, 7, 2, 0])]"

text \<open>\<open>GLYPH.get(ch, GLYPH[" "])\<close>\<close>

definition k_glyph_rows :: "char \<Rightarrow> nat list" where
  "k_glyph_rows ch = (case map_of KGLYPH ch of Some rows \<Rightarrow> rows | None \<Rightarrow> the (map_of KGLYPH (CHR '' '')))"

definition k_draw_glyph :: "char \<Rightarrow> int \<Rightarrow> int \<Rightarrow> nat \<Rightarrow> int \<Rightarrow> (int \<times> int \<times> int) list" where
  "k_draw_glyph ch x y scale c = glyph_px (k_glyph_rows ch) x y scale c"

definition k_text_width :: "string \<Rightarrow> nat \<Rightarrow> nat \<Rightarrow> int" where
  "k_text_width s scale spacing =
     (if s = [] then 0 else int (length s * (3 * scale)) + (int (length s) - 1) * int (spacing * scale))"

definition k_draw_text :: "string \<Rightarrow> int \<Rightarrow> int \<Rightarrow> nat \<Rightarrow> nat \<Rightarrow> int \<Rightarrow> (int \<times> int \<times> int) list" where
  "k_draw_text s x y scale spacing c = text_px k_glyph_rows s x y scale spacing c"

definition k_draw_text_center :: "string \<Rightarrow> int \<Rightarrow> nat \<Rightarrow> (int \<times> int \<times> int) list" where
  "k_draw_text_center s y scale =
     (let w = k_text_width s scale 1; x = (64 - w) div 2 in k_draw_text s x y scale 1 1)"

section \<open>Rectangles and piece patterns\<close>

definition k_draw_rect :: "int \<Rightarrow> int \<Rightarrow> int \<Rightarrow> int \<Rightarrow> int \<Rightarrow> (int \<times> int \<times> int) list" where
  "k_draw_rect x y w h c =
     concat (map (\<lambda>i. [(x + int i, y, c), (x + int i, y + h - 1, c)]) [0..<nat w]) @
     concat (map (\<lambda>j. [(x, y + int j, c), (x + w - 1, y + int j, c)]) [0..<nat h])"

text \<open>The \<open>if\<close>/\<open>elif\<close> chain of \<open>pattern_fill\<close> choosing the texture of a piece.\<close>

definition pattern_on :: "nat \<Rightarrow> nat \<Rightarrow> nat \<Rightarrow> bool" where
  "pattern_on pid i j =
     (if pid = 1 then (i + j) mod 2 = 0
      else if pid = 2 \<or> pid = 3 then i mod 2 = 0
      else if pid = 4 then i mod 3 = 0 \<and> j mod 2 = 0
      else if pid = 5 \<or> pid = 6 then j mod 2 = 0
      else (i + pid) mod 3 = 0 \<and> (j + pid) mod 2 = 0)"

definition pattern_fill :: "int \<Rightarrow> int \<Rightarrow> int \<Rightarrow> int \<Rightarrow> nat \<Rightarrow> (int \<times> int \<times> int) list" where
  "pattern_fill x y w h pid =
     concat (map (\<lambda>j. concat (map (\<lambda>i. if pattern_on pid i j then [(x + int i, y + int j, 1)] else [])
                                 [1..<nat (w - 1)])) [1..<nat (h - 1)])"

section \<open>The board\<close>

definition KCELL :: int where "KCELL = 14"
definition KGAP :: int where "KGAP = 2"
definition KGRID_W :: int where "KGRID_W = int BC * KCELL + (int BC - 1) * KGAP"
definition KGRID_H :: int where "KGRID_H = int BR * KCELL + (int BR - 1) * KGAP"
definition KGRID_X :: int where "KGRID_X = (64 - KGRID_W) div 2"
definition KGRID_Y :: int where "KGRID_Y = 24"

text \<open>
  One piece of \<open>render\<close>: its outline and pattern at its top-left cell, and a second
  outline when it is grabbed; \<open>PIECES[pid]\<close> raises \<open>KeyError\<close> for an id not in the table.
\<close>

definition render_piece :: "kboard \<Rightarrow> nat option \<Rightarrow> nat \<Rightarrow> kerror + (int \<times> int \<times> int) list" where
  "render_piece b grabbed pid =
     (case piece_top_left b pid of
        None \<Rightarrow> Inr []
      | Some (pr, pc) \<Rightarrow>
          (case map_of PIECES pid of
             None \<Rightarrow> Inl KeyError
           | Some (pw, ph) \<Rightarrow>
               (let x = KGRID_X + int pc * (KCELL + KGAP); y = KGRID_Y + int pr * (KCELL + KGAP);
                    w = int pw * KCELL + (int pw - 1) * KGAP; h = int ph * KCELL + (int ph - 1) * KGAP
                in Inr (k_draw_rect x y w h 1 @ pattern_fill x y w h pid @
                        (if grabbed = Some pid then k_draw_rect (x - 1) (y - 1) (w + 2) (h + 2) 1 else [])))))"

text \<open>One cell of the double loop: skip empty cells and pieces already in \<open>drawn\<close>.\<close>

definition render_cell :: "kboard \<Rightarrow> nat option \<Rightarrow> nat \<times> nat \<Rightarrow> nat list \<times> (int \<times> int \<times> int) list \<Rightarrow>
                           kerror + nat list \<times> (int \<times> int \<times> int) list" where
  "render_cell b grabbed rc acc =
     (let pid = b ! fst rc ! snd rc
      in if pid = 0 \<or> pid \<in> set (fst acc) then Inr acc
         else ebind (render_piece b grabbed pid) (\<lambda>qs. Inr (fst acc @ [pid], snd acc @ qs)))"

definition render_pieces :: "kboard \<Rightarrow> nat option \<Rightarrow> kerror + nat list \<times> (int \<times> int \<times> int) list" where
  "render_pieces b grabbed =
     fold (\<lambda>rc r. ebind r (render_cell b grabbed rc))
          (concat (map (\<lambda>r. map (\<lambda>c. (r, c)) [0..<BC]) [0..<BR])) (Inr ([], []))"

text \<open>\<open>render\<close> between \<open>fill(0)\<close> and \<open>show()\<close>.\<close>

definition render_pixels :: "kboard \<Rightarrow> nat \<Rightarrow> nat \<Rightarrow> nat option \<Rightarrow> nat \<Rightarrow> nat \<Rightarrow>
                             kerror + (int \<times> int \<times> int) list" where
  "render_pixels b cur_r cur_c grabbed moves pidx =
     ebind (render_pieces b grabbed) (\<lambda>(drawn, ps).
       (let exit_x = KGRID_X + 1 * (KCELL + KGAP); exit_y = KGRID_Y + KGRID_H + 2;
            cx = KGRID_X + int cur_c * (KCELL + KGAP); cy = KGRID_Y + int cur_r * (KCELL + KGAP)
        in Inr (k_draw_text ''KLOT'' 2 2 1 1 1 @ k_draw_text ''P'' 38 2 1 1 1 @
                k_draw_text (py_str (int pidx + 1)) 46 2 1 1 1 @ k_draw_text ''M'' 38 10 1 1 1 @
                k_draw_text (py_str (int moves)) 46 10 1 1 1 @
                k_draw_rect exit_x exit_y (2 * KCELL + KGAP) 6 1 @ ps @
                k_draw_rect (cx - 1) (cy - 1) (KCELL + 2) (KCELL + 2) 1 @
                k_draw_text_center ''UD GRAB'' 112 1 @ k_draw_text_center ''HOLD UD RESET'' 122 1)))"

definition k_render :: "ssd1306 \<Rightarrow> kboard \<Rightarrow> nat \<Rightarrow> nat \<Rightarrow> nat option \<Rightarrow> nat \<Rightarrow> nat \<Rightarrow>
                        (kerror + drv_error) + ssd1306" where
  "k_render oled b cur_r cur_c grabbed moves pidx =
     (case render_pixels b cur_r cur_c grabbed moves pidx of
        Inl e \<Rightarrow> Inl (Inl e)
      | Inr ps \<Rightarrow> (case show_disp (draw_all (fill_d oled 0) ps) of Inl e \<Rightarrow> Inl (Inr e) | Inr d \<Rightarrow> Inr d))"

section \<open>Screens\<close>

definition k_title_pixels :: "nat \<Rightarrow> (int \<times> int \<times> int) list" where
  "k_title_pixels pidx =
     k_draw_text_center ''KLOTSKI'' 16 2 @ k_draw_text_center (py_str (int pidx + 1)) 64 2 @
     k_draw_text_center ''LR PICK'' 92 2 @ k_draw_text_center ''UP START'' 110 2 @
     k_draw_text_center ''DN MENU'' 124 2"

definition k_win_pixels :: "nat \<Rightarrow> nat \<Rightarrow> (int \<times> int \<times> int) list" where
  "k_win_pixels moves pidx =
     k_draw_text_center ''CLEARED'' 10 2 @ k_draw_text_center ''PUZZLE'' 34 2 @
     k_draw_text_center (py_str (int pidx + 1)) 52 3 @ k_draw_text_center ''MOVES'' 78 2 @
     k_draw_text_center (py_str (int moves)) 96 2 @ k_draw_text_center ''UP AGAIN'' 114 2 @
     k_draw_text_center ''RT NEXT'' 126 2"

section \<open>Lemmas\<close>

lemma k_text_width_eq: "k_text_width = text_width_3x5"
  by (intro ext) (simp add: k_text_width_def text_width_3x5_def)

lemma k_text_extent:
  "(px, py, c') \<in> set (k_draw_text s x y scale spacing c) \<Longrightarrow>
   x \<le> px \<and> px < x + k_text_width s scale spacing \<and> y \<le> py \<and> py < y + int (5 * scale)"
  unfolding k_draw_text_def k_text_width_eq by (rule text_px_extent)

text \<open>The texture of a piece stays strictly inside its outline.\<close>

lemma pattern_fill_inside:
  "(px, py, c) \<in> set (pattern_fill x y w h pid) \<Longrightarrow> x < px \<and> px < x + w - 1 \<and> y < py \<and> py < y + h - 1"
  by (auto simp: pattern_fill_def split: if_splits)

lemma render_piece_ok:
  "pid = 0 \<or> map_of PIECES pid \<noteq> None \<Longrightarrow> pid \<noteq> 0 \<Longrightarrow> \<exists>qs. render_piece b g pid = Inr qs"
  by (auto simp: render_piece_def Let_def split: option.splits)

lemma render_pieces_ok:
  assumes "board_ok b"
  shows "\<exists>ds ps. render_pieces b g = Inr (ds, ps)"
proof -
  have "\<exists>a'. fold (\<lambda>rc r. ebind r (render_cell b g rc)) (concat (map (\<lambda>r. map (\<lambda>c. (r, c)) [0..<BC]) [0..<BR]))
                 (Inr ([], [])) = Inr a' \<and> True"
  proof (rule fold_ebind_total)
    fix rc :: "nat \<times> nat" and a :: "nat list \<times> (int \<times> int \<times> int) list"
    assume "rc \<in> set (concat (map (\<lambda>r. map (\<lambda>c. (r, c)) [0..<BC]) [0..<BR]))"
    then have "fst rc < BR" "snd rc < BC" by auto
    from board_ok_cell [OF assms this] show "\<exists>a'. render_cell b g rc a = Inr a' \<and> True"
      using render_piece_ok [of "b ! fst rc ! snd rc" b g]
      by (auto simp: render_cell_def Let_def)
  qed simp
  then show ?thesis by (auto simp: render_pieces_def)
qed

text \<open>The frame the main loop draws for any state it reaches never raises \<open>KeyError\<close>.\<close>

lemma render_kinv_ok:
  "kinv st \<Longrightarrow> \<exists>ps. render_pixels (k_board st) (k_r st) (k_c st) (k_grab st) (k_moves st) (k_pidx st) = Inr ps"
  using render_pieces_ok [of "k_board st" "k_grab st"] by (auto simp: kinv_def render_pixels_def Let_def)

text \<open>The table has no H and no Z, so those letters are drawn as spaces.\<close>

lemma k_hold_drawn_as_old:
  "k_draw_text ''HOLD UD RESET'' x y scale spacing c = k_draw_text '' OLD UD RESET'' x y scale spacing c"
  and k_puzzle_drawn_as_pu_le:
  "k_draw_text ''PUZZLE'' x y scale spacing c = k_draw_text ''PU  LE'' x y scale spacing c"
  by (simp_all add: k_draw_text_def k_glyph_rows_def KGLYPH_def)

text \<open>The last line of the win screen starts at row 126 at scale 2: its rows 128 to 135 fall
  outside the 128-row screen, and \<open>draw_pixel\<close> drops them.\<close>

lemma k_win_next_clipped:
  "(5, 128, 1) \<in> set (k_win_pixels moves pidx) \<and> draw_pixel d 5 128 1 = d"
proof -
  have "(5, 128, 1) \<in> set (k_draw_text_center ''RT NEXT'' 126 2)" by code_simp
  then show ?thesis by (simp add: k_win_pixels_def draw_pixel_def)
qed


text \<open>
  C38: whatever the button trace, every state the Klotski main loop reaches is drawn
  without an exception: \<open>render\<close> finds every piece id of the board in \<open>PIECES\<close>
  (no \<open>KeyError\<close>), and on a panel whose bus acknowledges, its \<open>show()\<close> returns.
\<close>

theorem k_frames_drawable:
  assumes "k_main n ss = Some (KCont st, acts, rest)" "drv_wf oled" "no_nack (bus oled)"
  shows "\<exists>d. k_render oled (k_board st) (k_r st) (k_c st) (k_grab st) (k_moves st) (k_pidx st) = Inr d"
proof -
  obtain ps where r: "render_pixels (k_board st) (k_r st) (k_c st) (k_grab st) (k_moves st) (k_pidx st) = Inr ps"
    using render_kinv_ok [OF k_main_kinv [OF assms(1)]] by blast
  obtain d where "show_disp (draw_all (fill_d oled 0) ps) = Inr d" using frame_show_ok [OF assms(2,3)] by blast
  with r show ?thesis by (simp add: k_render_def)
qed

theorem k_frames_drawable_witness:
  "\<exists>d. k_render \<lparr>width = 128, height = 64, external_vcc = False, pages = 8, buffer = replicate 1024 0,
            line = replicate RAM_COLS 0, bus = \<lparr>i2c_log = [], i2c_nack = (\<lambda>_. False)\<rparr>, addr = 0x3C,
            tmp = [0, 0]\<rparr>
        (k_board (kstart 0 EdgeButtons)) (k_r (kstart 0 EdgeButtons)) (k_c (kstart 0 EdgeButtons))
        (k_grab (kstart 0 EdgeButtons)) (k_moves (kstart 0 EdgeButtons)) (k_pidx (kstart 0 EdgeButtons)) = Inr d"
proof -
  have "k_main 1 [levels_at 1 1 1 1 0, levels_at 0 1 1 1 10, levels_at 1 1 1 1 20,
             levels_at 1 1 1 1 30, levels_at 1 1 1 1 40] = Some (KCont (kstart 0 EdgeButtons), [None], [])"
    by code_simp
  moreover have "drv_wf \<lparr>width = 128, height = 64, external_vcc = False, pages = 8, buffer = replicate 1024 (0::byte),
            line = replicate RAM_COLS 0, bus = \<lparr>i2c_log = [], i2c_nack = (\<lambda>_::nat. False)\<rparr>, addr = 0x3C,
            tmp = [0, 0]\<rparr>" by (simp add: drv_wf_def RAM_COLS_def COL_OFFSET_def)
  moreover have "no_nack \<lparr>i2c_log = [], i2c_nack = (\<lambda>_::nat. False)\<rparr>" by (simp add: no_nack_def)
  ultimately show ?thesis using k_frames_drawable by fastforce
qed

end
