(* ===== verification/Minesweeper.thy ===== *)
theory Minesweeper
  imports Input
begin

text \<open>
  The rules and the game loop of \<open>src/minesweeper.py\<close>: the 8x8 grids of mines,
  neighbour counts, visibility and flags, mine placement away from the first
  revealed cell, the flood reveal of empty regions, and the main loop driven by the
  trace of button samples and the stream of \<open>random.getrandbits(16)\<close> results.
\<close>

section \<open>Grids\<close>

type_synonym 'a grid = "'a list list"

definition ROWS :: nat where "ROWS = 8"
definition COLS :: nat where "COLS = 8"
definition MINES :: nat where "MINES = 10"
definition COVERED :: nat where "COVERED = 0"
definition REVEALED :: nat where "REVEALED = 1"

definition in_bounds :: "int \<Rightarrow> int \<Rightarrow> bool" where
  "in_bounds r c \<longleftrightarrow> 0 \<le> r \<and> r < int ROWS \<and> 0 \<le> c \<and> c < int COLS"

text \<open>The generator \<open>neighbors(r, c)\<close>, in the order it yields the cells.\<close>

definition neighbors :: "nat \<Rightarrow> nat \<Rightarrow> (nat \<times> nat) list" where
  "neighbors r c =
     concat (map (\<lambda>dr. concat (map (\<lambda>dc.
        if dr = 0 \<and> dc = 0 then []
        else (let rr = int r + dr; cc = int c + dc
              in if in_bounds rr cc then [(nat rr, nat cc)] else [])) [-1, 0, 1])) [-1, 0, 1])"

definition make_empty :: "bool grid \<times> int grid \<times> nat grid \<times> bool grid" where
  "make_empty = (replicate ROWS (replicate COLS False), replicate ROWS (replicate COLS 0),
                 replicate ROWS (replicate COLS COVERED), replicate ROWS (replicate COLS False))"

text \<open>\<open>grid[r][c] = v\<close>\<close>

definition set_at :: "'a grid \<Rightarrow> nat \<Rightarrow> nat \<Rightarrow> 'a \<Rightarrow> 'a grid" where
  "set_at g r c v = g[r := (g ! r)[c := v]]"

text \<open>All cells in the order of \<open>for r in range(ROWS): for c in range(COLS)\<close>.\<close>

definition all_cells :: "(nat \<times> nat) list" where
  "all_cells = concat (map (\<lambda>r. map (\<lambda>c. (r, c)) [0..<COLS]) [0..<ROWS])"

section \<open>Mine placement\<close>

text \<open>The cells of the 3x3 block around the safe cell that lie on the board.\<close>

definition blocked :: "nat \<Rightarrow> nat \<Rightarrow> (nat \<times> nat) list" where
  "blocked safe_r safe_c =
     concat (map (\<lambda>rr. concat (map (\<lambda>cc. if in_bounds rr cc then [(nat rr, nat cc)] else [])
                                 [int safe_c - 1..int safe_c + 1]))
                 [int safe_r - 1..int safe_r + 1])"

definition spots :: "nat \<Rightarrow> nat \<Rightarrow> (nat \<times> nat) list" where
  "spots safe_r safe_c = filter (\<lambda>rc. rc \<notin> set (blocked safe_r safe_c)) all_cells"

text \<open>
  \<open>while mines_to_place > 0 and spots\<close>: the \<open>i\<close>-th draw \<open>rnd i\<close> of
  \<open>random.getrandbits(16)\<close> picks \<open>spots.pop(idx)\<close>. The result is the mines and the
  number of draws taken.
\<close>

fun place_loop :: "nat \<Rightarrow> (nat \<times> nat) list \<Rightarrow> (nat \<Rightarrow> nat) \<Rightarrow> nat \<Rightarrow> bool grid \<Rightarrow> bool grid \<times> nat" where
  "place_loop 0 sp rnd i mines = (mines, i)"
| "place_loop (Suc k) sp rnd i mines =
     (if sp = [] then (mines, i)
      else (let idx = rnd i mod length sp; (r, c) = sp ! idx
            in place_loop k (take idx sp @ drop (Suc idx) sp) rnd (Suc i) (set_at mines r c True)))"

definition count_adj :: "bool grid \<Rightarrow> nat \<Rightarrow> nat \<Rightarrow> nat" where
  "count_adj mines r c = length (filter (\<lambda>(rr, cc). mines ! rr ! cc) (neighbors r c))"

text \<open>The second pair of loops of \<open>place_mines\<close>: \<open>-1\<close> on a mine, else the count of adjacent mines.\<close>

definition fill_nums :: "bool grid \<Rightarrow> int grid \<Rightarrow> int grid" where
  "fill_nums mines nums =
     fold (\<lambda>(r, c) nums. set_at nums r c (if mines ! r ! c then -1 else int (count_adj mines r c)))
          all_cells nums"

definition place_mines :: "bool grid \<Rightarrow> int grid \<Rightarrow> nat \<Rightarrow> nat \<Rightarrow> (nat \<Rightarrow> nat) \<Rightarrow> nat \<Rightarrow>
                           bool grid \<times> int grid \<times> nat" where
  "place_mines mines nums safe_r safe_c rnd i =
     (case place_loop MINES (spots safe_r safe_c) rnd i mines of
        (mines', i') \<Rightarrow> (mines', fill_nums mines' nums, i'))"

section \<open>Flood reveal\<close>

text \<open>One pass of \<open>for rr, cc in neighbors(r, c)\<close>: skip seen, flagged and revealed cells, else mark seen and push.\<close>

definition push_nbr :: "bool grid \<Rightarrow> nat grid \<Rightarrow> nat \<times> nat \<Rightarrow>
                        (nat \<times> nat) list \<times> (nat \<times> nat) list \<Rightarrow> (nat \<times> nat) list \<times> (nat \<times> nat) list" where
  "push_nbr flag vis rc sq =
     (case (rc, sq) of ((rr, cc), (seen, q)) \<Rightarrow>
        if (rr, cc) \<in> set seen then (seen, q)
        else if flag ! rr ! cc then (seen, q)
        else if vis ! rr ! cc = REVEALED then (seen, q)
        else ((rr, cc) # seen, q @ [(rr, cc)]))"

text \<open>The cells of the board, as a set; the measure of the loop counts those not yet seen.\<close>

definition board_set :: "(nat \<times> nat) set" where
  "board_set = {0..<ROWS} \<times> {0..<COLS}"

text \<open>
  \<open>while q:\<close> with \<open>q.pop()\<close> from the end. Every cell is pushed at most once, as
  it joins \<open>seen\<close> when pushed, so the loop ends: twice the number of board cells not
  seen plus the length of the queue decreases at every pass.
\<close>

function flood_loop :: "int grid \<Rightarrow> bool grid \<Rightarrow> (nat \<times> nat) list \<Rightarrow> (nat \<times> nat) list \<Rightarrow> nat grid \<Rightarrow> nat grid" where
  "flood_loop nums flag q seen vis =
     (if q = [] then vis
      else (case last q of (r, c) \<Rightarrow>
        if flag ! r ! c then flood_loop nums flag (butlast q) seen vis
        else (let vis1 = set_at vis r c REVEALED
              in if nums ! r ! c \<noteq> 0 then flood_loop nums flag (butlast q) seen vis1
                 else (case fold (push_nbr flag vis1) (neighbors r c) (seen, butlast q) of
                         (seen2, q2) \<Rightarrow> flood_loop nums flag q2 seen2 vis1))))"
  by pat_completeness auto

termination flood_loop
proof (relation "measure (\<lambda>(nums, flag, q, seen, vis). 2 * card (board_set - set seen) + length q)", simp_all)
  have card_ins: "card (board_set - set seen) = Suc (card (board_set - set (rc # seen)))"
    if "rc \<in> board_set" "rc \<notin> set seen" for rc seen
  proof -
    have e: "board_set - set (rc # seen) = (board_set - set seen) - {rc}" by auto
    have "rc \<in> board_set - set seen" using that by simp
    then have "Suc (card ((board_set - set seen) - {rc})) = card (board_set - set seen)"
      by (intro card_Suc_Diff1) (simp_all add: board_set_def)
    then show ?thesis unfolding e by simp
  qed
  have push: "case fold (push_nbr flag vis) ns (seen, q) of (seen2, q2) \<Rightarrow>
           2 * card (board_set - set seen2) + length q2 \<le> 2 * card (board_set - set seen) + length q"
    if "set ns \<subseteq> board_set" for flag vis ns seen q
    using that
  proof (induction ns arbitrary: seen q)
    case Nil then show ?case by simp
  next
    case (Cons rc ns)
    have ns: "set ns \<subseteq> board_set" and rc: "rc \<in> board_set" using Cons.prems by simp_all
    have "push_nbr flag vis rc (seen, q) = (seen, q) \<or>
          (rc \<notin> set seen \<and> push_nbr flag vis rc (seen, q) = (rc # seen, q @ [rc]))"
      by (cases rc) (simp add: push_nbr_def)
    then show ?case
    proof
      assume "push_nbr flag vis rc (seen, q) = (seen, q)"
      with Cons.IH[OF ns, of seen q] show ?thesis by simp
    next
      assume "rc \<notin> set seen \<and> push_nbr flag vis rc (seen, q) = (rc # seen, q @ [rc])"
      then have new: "rc \<notin> set seen" and p: "push_nbr flag vis rc (seen, q) = (rc # seen, q @ [rc])"
        by simp_all
      obtain seen2 q2 where f: "fold (push_nbr flag vis) ns (rc # seen, q @ [rc]) = (seen2, q2)"
        by (cases "fold (push_nbr flag vis) ns (rc # seen, q @ [rc])")
      with Cons.IH[OF ns, of "rc # seen" "q @ [rc]"]
      have "2 * card (board_set - set seen2) + length q2 \<le> 2 * card (board_set - set (rc # seen)) + Suc (length q)"
        by simp
      with card_ins[OF rc new] f p show ?thesis by simp
    qed
  qed
  have nb: "set (neighbors r c) \<subseteq> board_set" for r c
    by (auto simp: neighbors_def in_bounds_def board_set_def Let_def split: if_splits)
  fix nums flag q seen vis r c vis1 seen2 q2
  assume q: "q \<noteq> []" and "(r, c) = last q" and "\<not> flag ! r ! c" and "vis1 = set_at vis r c REVEALED"
    and "nums ! r ! c = 0"
    and f: "(seen2, q2) = fold (push_nbr flag (set_at vis r c REVEALED)) (neighbors r c) (seen, butlast q)"
  have m: "2 * card (board_set - set seen2) + length q2 \<le> 2 * card (board_set - set seen) + length (butlast q)"
    using push[OF nb[of r c], where flag = flag and vis = "set_at vis r c REVEALED" and seen = seen and q = "butlast q"] f[symmetric] by simp
  have "Suc (length (butlast q)) = length q" using q by simp
  with m show "2 * card (board_set - set seen2) + length q2 < 2 * card (board_set - set seen) + length q"
    by linarith
qed

declare flood_loop.simps [simp del]

definition flood_reveal :: "int grid \<Rightarrow> nat grid \<Rightarrow> bool grid \<Rightarrow> nat \<Rightarrow> nat \<Rightarrow> nat grid" where
  "flood_reveal nums vis flag start_r start_c = flood_loop nums flag [(start_r, start_c)] [(start_r, start_c)] vis"

section \<open>Counts\<close>

definition count_flags :: "bool grid \<Rightarrow> nat" where
  "count_flags flag = length (filter (\<lambda>(r, c). flag ! r ! c) all_cells)"

definition count_revealed :: "nat grid \<Rightarrow> nat" where
  "count_revealed vis = length (filter (\<lambda>(r, c). vis ! r ! c = REVEALED) all_cells)"

definition ms_is_win :: "nat grid \<Rightarrow> bool" where
  "ms_is_win vis \<longleftrightarrow> count_revealed vis = ROWS * COLS - MINES"

section \<open>Main loop\<close>

text \<open>The locals of \<open>main()\<close> that live across iterations, its \<open>EdgeButtons\<close>, and the number of random draws taken so far.\<close>

record mstate =
  m_mines :: "bool grid"
  m_nums :: "int grid"
  m_vis :: "nat grid"
  m_flag :: "bool grid"
  m_r :: nat
  m_c :: nat
  m_started :: bool
  m_start :: nat
  m_last :: nat
  m_eb :: edge_buttons
  m_draws :: nat

text \<open>The start of a game: \<open>make_empty()\<close>, cursor (0, 0), not started.\<close>

definition ms_new_game :: "edge_buttons \<Rightarrow> nat \<Rightarrow> mstate" where
  "ms_new_game eb d =
     (case make_empty of (mines, nums, vis, flag) \<Rightarrow>
        \<lparr>m_mines = mines, m_nums = nums, m_vis = vis, m_flag = flag, m_r = 0, m_c = 0,
         m_started = False, m_start = 0, m_last = 0, m_eb = eb, m_draws = d\<rparr>)"

text \<open>The cursor step on the edges of \<open>eb.update()\<close>, done before the chords are read.\<close>

definition ms_cursor :: "edges \<Rightarrow> nat \<Rightarrow> nat \<Rightarrow> nat \<times> nat" where
  "ms_cursor e r c = (case e of (pu, pd, pl, pr) \<Rightarrow>
     if pu then (nat ((int r - 1) mod int ROWS), c)
     else if pd then ((r + 1) mod ROWS, c)
     else if pl then (r, nat ((int c - 1) mod int COLS))
     else if pr then (r, (c + 1) mod COLS)
     else (r, c))"

datatype reveal_out = Boom | Cleared | Going mstate

text \<open>
  The \<open>if act == "reveal"\<close> block on a covered, unflagged cell: place the mines on the
  first reveal (away from the cursor; \<open>start_ms\<close> is \<open>now\<close>), then the mine, or the
  flood or single reveal and the win test.
\<close>

definition ms_reveal :: "(nat \<Rightarrow> nat) \<Rightarrow> nat \<Rightarrow> mstate \<Rightarrow> reveal_out" where
  "ms_reveal rnd now st =
     (let r = m_r st; c = m_c st;
          st1 = (if \<not> m_started st then
                   (case place_mines (m_mines st) (m_nums st) r c rnd (m_draws st) of
                      (mines, nums, d) \<Rightarrow> st\<lparr>m_mines := mines, m_nums := nums, m_draws := d,
                                              m_started := True, m_start := now\<rparr>)
                 else st)
      in if m_mines st1 ! r ! c then Boom
         else (let vis = (if m_nums st1 ! r ! c = 0
                          then flood_reveal (m_nums st1) (m_vis st1) (m_flag st1) r c
                          else set_at (m_vis st1) r c REVEALED)
               in if ms_is_win vis then Cleared else Going (st1\<lparr>m_vis := vis\<rparr>)))"

datatype mphase = MTitle edge_buttons nat | MGame mstate | MOver

text \<open>\<open>end_screen\<close> and the \<open>break\<close> after it: UP goes back to the title screen, DOWN exits.\<close>

definition ms_end :: "mstate \<Rightarrow> sample list \<Rightarrow> (mphase \<times> sample list) option" where
  "ms_end st ss = map_option (\<lambda>(again, ss'). (if again then MTitle (m_eb st) (m_draws st) else MOver, ss'))
                             (screen_choice ss)"

text \<open>
  One pass of the inner \<open>while True\<close>: \<open>eb.update()\<close> and the cursor step, then
  \<open>detect_action_chords\<close>, then restart, flag toggle or reveal. The result is the next
  phase, the chord action of the pass and the rest of the trace.
\<close>

definition ms_iter :: "(nat \<Rightarrow> nat) \<Rightarrow> mstate \<Rightarrow> sample list \<Rightarrow> (mphase \<times> chord_action option \<times> sample list) option" where
  "ms_iter rnd st ss =
     (case ss of [] \<Rightarrow> None
      | s # ss1 \<Rightarrow>
         (case eb_update (m_eb st) s of (eb', e) \<Rightarrow>
          (case ms_cursor e (m_r st) (m_c st) of (r, c) \<Rightarrow>
           (case detect_action_chords (m_last st) ss1 of None \<Rightarrow> None
            | Some (act, ss2) \<Rightarrow>
              (let now = last_read ss1 ss2;
                   st1 = st\<lparr>m_eb := eb', m_r := r, m_c := c\<rparr>;
                   st2 = (if act \<noteq> None then st1\<lparr>m_last := now\<rparr> else st1)
               in if act = Some Restart then Some (MTitle (m_eb st2) (m_draws st2), act, ss2)
                  else if act = Some Flag then
                    (if m_vis st2 ! r ! c = COVERED
                     then Some (MGame (st2\<lparr>m_flag := set_at (m_flag st2) r c (\<not> m_flag st2 ! r ! c)\<rparr>), act, ss2)
                     else Some (MGame st2, act, ss2))
                  else if act = Some Reveal \<and> m_vis st2 ! r ! c = COVERED \<and> \<not> m_flag st2 ! r ! c then
                    (case ms_reveal rnd now st2 of
                       Going st3 \<Rightarrow> Some (MGame st3, act, ss2)
                     | _ \<Rightarrow> map_option (\<lambda>(ph, ss3). (ph, act, ss3)) (ms_end st2 ss2))
                  else Some (MGame st2, act, ss2))))))"

text \<open>The outer \<open>while True\<close>: \<open>title_screen()\<close> (DOWN exits), a new game, \<open>wait_released()\<close>.\<close>

definition ms_title :: "edge_buttons \<Rightarrow> nat \<Rightarrow> sample list \<Rightarrow> (mphase \<times> sample list) option" where
  "ms_title eb d ss =
     (case screen_choice ss of None \<Rightarrow> None
      | Some (False, ss1) \<Rightarrow> Some (MOver, ss1)
      | Some (True, ss1) \<Rightarrow> map_option (\<lambda>ss2. (MGame (ms_new_game eb d), ss2)) (wait_released ss1))"

text \<open>\<open>main()\<close> for at most \<open>n\<close> passes of either loop, with the chord actions of the game passes.\<close>

fun ms_run :: "(nat \<Rightarrow> nat) \<Rightarrow> nat \<Rightarrow> mphase \<Rightarrow> sample list \<Rightarrow> mphase \<times> chord_action option list \<times> sample list" where
  "ms_run rnd 0 ph ss = (ph, [], ss)"
| "ms_run rnd (Suc n) MOver ss = (MOver, [], ss)"
| "ms_run rnd (Suc n) (MTitle eb d) ss =
     (case ms_title eb d ss of None \<Rightarrow> (MTitle eb d, [], ss) | Some (ph, ss') \<Rightarrow> ms_run rnd n ph ss')"
| "ms_run rnd (Suc n) (MGame st) ss =
     (case ms_iter rnd st ss of None \<Rightarrow> (MGame st, [], ss)
      | Some (ph, a, ss') \<Rightarrow> (case ms_run rnd n ph ss' of (ph', acts, rest) \<Rightarrow> (ph', a # acts, rest)))"

definition ms_main :: "(nat \<Rightarrow> nat) \<Rightarrow> nat \<Rightarrow> sample list \<Rightarrow> mphase \<times> chord_action option list \<times> sample list" where
  "ms_main rnd n ss = ms_run rnd n (MTitle EdgeButtons 0) ss"

section \<open>Invariants\<close>

text \<open>A grid of \<open>ROWS\<close> rows of \<open>COLS\<close> cells.\<close>

definition shape :: "'a grid \<Rightarrow> bool" where
  "shape g \<longleftrightarrow> length g = ROWS \<and> list_all (\<lambda>row. length row = COLS) g"

text \<open>The counts \<open>place_mines\<close> writes: \<open>-1\<close> on a mine, else the number of adjacent mines.\<close>

definition nums_ok :: "bool grid \<Rightarrow> int grid \<Rightarrow> bool" where
  "nums_ok mines nums \<longleftrightarrow>
     list_all (\<lambda>(r, c). nums ! r ! c = (if mines ! r ! c then -1 else int (count_adj mines r c))) all_cells"

text \<open>No revealed cell holds a mine.\<close>

definition no_revealed_mine :: "bool grid \<Rightarrow> nat grid \<Rightarrow> bool" where
  "no_revealed_mine mines vis \<longleftrightarrow> list_all (\<lambda>(r, c). vis ! r ! c = REVEALED \<longrightarrow> \<not> mines ! r ! c) all_cells"

text \<open>Only covered cells are flagged.\<close>

definition flags_covered :: "bool grid \<Rightarrow> nat grid \<Rightarrow> bool" where
  "flags_covered flag vis \<longleftrightarrow> list_all (\<lambda>(r, c). flag ! r ! c \<longrightarrow> vis ! r ! c = COVERED) all_cells"

definition mine_count :: "bool grid \<Rightarrow> nat" where
  "mine_count mines = length (filter (\<lambda>(r, c). mines ! r ! c) all_cells)"

definition reveal_ok :: "bool grid \<Rightarrow> bool grid \<Rightarrow> nat grid \<Rightarrow> nat grid \<Rightarrow> bool" where
  "reveal_ok mines flag vis vis' \<longleftrightarrow>
     list_all (\<lambda>(r, c). vis' ! r ! c = vis ! r ! c \<or>
                       (vis' ! r ! c = REVEALED \<and> \<not> mines ! r ! c \<and> \<not> flag ! r ! c)) all_cells \<and>
     list_all (\<lambda>(r, c). vis ! r ! c = REVEALED \<longrightarrow> vis' ! r ! c = REVEALED) all_cells"

text \<open>
  The state of a game in progress: grids of the right shape, the cursor on the board,
  no revealed mine, flags only on covered cells; before the first reveal no mine and
  nothing revealed, after it exactly \<open>MINES\<close> mines with their counts.
\<close>

definition ms_inv :: "mstate \<Rightarrow> bool" where
  "ms_inv st \<longleftrightarrow> shape (m_mines st) \<and> shape (m_nums st) \<and> shape (m_vis st) \<and> shape (m_flag st) \<and>
     m_r st < ROWS \<and> m_c st < COLS \<and>
     no_revealed_mine (m_mines st) (m_vis st) \<and> flags_covered (m_flag st) (m_vis st) \<and>
     (if m_started st then nums_ok (m_mines st) (m_nums st) \<and> mine_count (m_mines st) = MINES
      else mine_count (m_mines st) = 0 \<and> list_all (\<lambda>(r, c). m_vis st ! r ! c = COVERED) all_cells)"

definition phase_ok :: "mphase \<Rightarrow> bool" where
  "phase_ok ph = (case ph of MGame st \<Rightarrow> ms_inv st | _ \<Rightarrow> True)"

section \<open>Lemmas\<close>







text \<open>\<open>vis'\<close> reveals only safe cells of \<open>vis\<close> and hides none.\<close>




lemma set_all_cells: "set all_cells = board_set"
  by (auto simp: all_cells_def board_set_def)

lemma distinct_all_cells: "distinct all_cells"
  by (simp add: all_cells_def product_concat_map[symmetric] distinct_product)

lemma list_all_cells: "list_all P all_cells \<longleftrightarrow> (\<forall>r < ROWS. \<forall>c < COLS. P (r, c))"
  by (auto simp: list_all_iff set_all_cells board_set_def)

lemma shape_nth: "shape g \<Longrightarrow> r < ROWS \<Longrightarrow> c < COLS \<Longrightarrow> r < length g \<and> c < length (g ! r)"
  by (simp add: shape_def list_all_length)

lemma shape_set_at [simp]: "shape (set_at g r c v) = shape g"
  by (cases "r < length g") (auto simp: shape_def set_at_def list_all_length nth_list_update)

lemma nth_set_at:
  "r < length g \<Longrightarrow> c < length (g ! r) \<Longrightarrow>
   set_at g r' c' v ! r ! c = (if r = r' \<and> c = c' then v else g ! r ! c)"
  by (cases "r = r'") (auto simp: set_at_def nth_list_update)

lemma nth_set_at_shape:
  "shape g \<Longrightarrow> r < ROWS \<Longrightarrow> c < COLS \<Longrightarrow>
   set_at g r' c' v ! r ! c = (if r = r' \<and> c = c' then v else g ! r ! c)"
  using shape_nth by (blast intro: nth_set_at)

lemma finite_board_set [simp]: "finite board_set"
  by (simp add: board_set_def)

lemma finite_board_Collect [simp]: "finite {(r, c) \<in> board_set. P r c}"
  by (rule finite_subset[where B = board_set]) auto

lemma mine_count_card: "mine_count mines = card {(r, c) \<in> board_set. mines ! r ! c}"
proof -
  have "distinct (filter (\<lambda>(r, c). mines ! r ! c) all_cells)" by (simp add: distinct_all_cells)
  then have "mine_count mines = card (set (filter (\<lambda>(r, c). mines ! r ! c) all_cells))"
    unfolding mine_count_def by (rule distinct_card[symmetric])
  also have "set (filter (\<lambda>(r, c). mines ! r ! c) all_cells) = {(r, c) \<in> board_set. mines ! r ! c}"
    by (auto simp: set_all_cells)
  finally show ?thesis .
qed

lemma set_remove_at:
  assumes "distinct xs" "i < length xs"
  shows "set (take i xs @ drop (Suc i) xs) = set xs - {xs ! i}"
    and "distinct (take i xs @ drop (Suc i) xs)"
proof -
  have xs: "xs = take i xs @ xs ! i # drop (Suc i) xs" using assms(2) by (rule id_take_nth_drop)
  with assms(1) have d: "distinct (take i xs @ xs ! i # drop (Suc i) xs)" by simp
  then show "distinct (take i xs @ drop (Suc i) xs)" by simp
  from d have "xs ! i \<notin> set (take i xs @ drop (Suc i) xs)" by simp
  then show "set (take i xs @ drop (Suc i) xs) = set xs - {xs ! i}"
    by (subst (2) xs) auto
qed

lemma mine_count_set_at:
  assumes "shape mines" "(r, c) \<in> board_set" "\<not> mines ! r ! c"
  shows "mine_count (set_at mines r c True) = Suc (mine_count mines)"
proof -
  have "{(r', c') \<in> board_set. set_at mines r c True ! r' ! c'} =
        insert (r, c) {(r', c') \<in> board_set. mines ! r' ! c'}"
    using assms by (auto simp: nth_set_at_shape board_set_def)
  moreover have "(r, c) \<notin> {(r', c') \<in> board_set. mines ! r' ! c'}" using assms(3) by simp
  moreover have "finite {(r', c') \<in> board_set. mines ! r' ! c'}" by simp
  ultimately show ?thesis by (simp add: mine_count_card)
qed

lemma place_loop_props:
  assumes "distinct sp" "set sp \<subseteq> board_set" "shape mines" "\<forall>(r, c) \<in> set sp. \<not> mines ! r ! c"
  shows "shape (fst (place_loop k sp rnd i mines)) \<and>
         (\<forall>(r, c) \<in> board_set - set sp. fst (place_loop k sp rnd i mines) ! r ! c = mines ! r ! c) \<and>
         mine_count (fst (place_loop k sp rnd i mines)) = mine_count mines + min k (length sp)"
  using assms
proof (induction k arbitrary: sp i mines)
  case 0 then show ?case by simp
next
  case (Suc k)
  show ?case
  proof (cases "sp = []")
    case True then show ?thesis using Suc.prems by simp
  next
    case False
    define idx where "idx = rnd i mod length sp"
    have idx: "idx < length sp" using False by (simp add: idx_def)
    obtain r c where rc: "sp ! idx = (r, c)" by (cases "sp ! idx")
    define sp1 where "sp1 = take idx sp @ drop (Suc idx) sp"
    define mines1 where "mines1 = set_at mines r c True"
    have in_sp: "(r, c) \<in> set sp" using idx rc by (metis nth_mem)
    have board: "(r, c) \<in> board_set" using in_sp Suc.prems(2) by blast
    have free: "\<not> mines ! r ! c" using in_sp Suc.prems(4) by blast
    have sp1: "set sp1 = set sp - {(r, c)}" "distinct sp1"
      using set_remove_at[OF Suc.prems(1) idx] rc by (simp_all add: sp1_def)
    have sh1: "shape mines1" using Suc.prems(3) by (simp add: mines1_def)
    have m1: "mines1 ! r' ! c' = (if r' = r \<and> c' = c then True else mines ! r' ! c')"
      if "(r', c') \<in> board_set" for r' c'
      using that Suc.prems(3) by (simp add: mines1_def nth_set_at_shape board_set_def)
    have free1: "\<forall>(r', c') \<in> set sp1. \<not> mines1 ! r' ! c'"
      using Suc.prems(2,4) sp1(1) m1 by fastforce
    have IH: "shape (fst (place_loop k sp1 rnd (Suc i) mines1)) \<and>
         (\<forall>(r', c') \<in> board_set - set sp1. fst (place_loop k sp1 rnd (Suc i) mines1) ! r' ! c' = mines1 ! r' ! c') \<and>
         mine_count (fst (place_loop k sp1 rnd (Suc i) mines1)) = mine_count mines1 + min k (length sp1)"
      using Suc.IH[OF sp1(2) _ sh1 free1] Suc.prems(2) sp1(1) by blast
    have step: "place_loop (Suc k) sp rnd i mines = place_loop k sp1 rnd (Suc i) mines1"
      using False rc by (simp add: idx_def sp1_def mines1_def Let_def)
    have len: "length sp1 = length sp - 1" using idx by (simp add: sp1_def)
    have cnt: "mine_count mines1 = Suc (mine_count mines)"
      using mine_count_set_at[OF Suc.prems(3) board free] by (simp add: mines1_def)
    show ?thesis
    proof (intro conjI)
      show "shape (fst (place_loop (Suc k) sp rnd i mines))" unfolding step using IH by simp
      have "fst (place_loop (Suc k) sp rnd i mines) ! r' ! c' = mines ! r' ! c'"
        if o: "(r', c') \<in> board_set - set sp" for r' c'
      proof -
        have "(r', c') \<in> board_set - set sp1" using o sp1(1) by auto
        then have "fst (place_loop k sp1 rnd (Suc i) mines1) ! r' ! c' = mines1 ! r' ! c'" using IH by blast
        moreover have "\<not> (r' = r \<and> c' = c)" using o in_sp by auto
        ultimately show ?thesis unfolding step using m1[of r' c'] o by auto
      qed
      then show "\<forall>(r', c') \<in> board_set - set sp. fst (place_loop (Suc k) sp rnd i mines) ! r' ! c' = mines ! r' ! c'"
        by blast
      show "mine_count (fst (place_loop (Suc k) sp rnd i mines)) = mine_count mines + min (Suc k) (length sp)"
        unfolding step using IH cnt len False by (cases sp) simp_all
    qed
  qed
qed
lemma fold_set_at:
  "shape g \<Longrightarrow> r < ROWS \<Longrightarrow> c < COLS \<Longrightarrow>
   fold (\<lambda>(r, c) g. set_at g r c (F r c)) cs g ! r ! c = (if (r, c) \<in> set cs then F r c else g ! r ! c)"
proof (induction cs arbitrary: g)
  case Nil then show ?case by simp
next
  case (Cons rc cs)
  obtain r0 c0 where rc: "rc = (r0, c0)" by (cases rc)
  have "shape (set_at g r0 c0 (F r0 c0))" using Cons.prems(1) by simp
  note IH = Cons.IH[OF this Cons.prems(2,3)]
  have inner: "set_at g r0 c0 (F r0 c0) ! r ! c = (if r = r0 \<and> c = c0 then F r0 c0 else g ! r ! c)"
    using Cons.prems by (rule nth_set_at_shape)
  show ?case
  proof (cases "(r, c) = (r0, c0)")
    case True with IH inner rc show ?thesis by simp
  next
    case False
    then have "\<not> (r = r0 \<and> c = c0)" by simp
    with IH inner rc show ?thesis by auto
  qed
qed

lemma shape_fold_set_at [simp]: "shape (fold (\<lambda>(r, c) g. set_at g r c (F r c)) cs g) = shape g"
proof (induction cs arbitrary: g)
  case (Cons rc cs) then show ?case by (cases rc) simp
qed simp

lemma fill_nums_ok:
  "shape nums \<Longrightarrow> shape (fill_nums mines nums) \<and> nums_ok mines (fill_nums mines nums)"
  by (simp add: fill_nums_def nums_ok_def list_all_cells fold_set_at set_all_cells board_set_def)

lemma spots_enough: "r < ROWS \<Longrightarrow> c < COLS \<Longrightarrow> MINES \<le> length (spots r c)"
proof -
  have "list_all (\<lambda>r. list_all (\<lambda>c. MINES \<le> length (spots r c)) [0..<COLS]) [0..<ROWS]"
    by code_simp
  then show "r < ROWS \<Longrightarrow> c < COLS \<Longrightarrow> MINES \<le> length (spots r c)"
    by (simp add: list_all_iff)
qed

lemma spots_props: "distinct (spots r c)" "set (spots r c) = board_set - set (blocked r c)"
  by (auto simp: spots_def distinct_all_cells set_all_cells)

lemma place_mines_props:
  assumes "shape mines" "mine_count mines = 0" "shape nums" "r < ROWS" "c < COLS"
    and "place_mines mines nums r c rnd i = (mines', nums', i')"
  shows "shape mines' \<and> shape nums' \<and> mine_count mines' = MINES \<and>
         list_all (\<lambda>(rr, cc). \<not> mines' ! rr ! cc) (blocked r c) \<and> nums_ok mines' nums'"
proof -
  have none: "\<not> mines ! rr ! cc" if "(rr, cc) \<in> board_set" for rr cc
  proof -
    have "{(r, c) \<in> board_set. mines ! r ! c} = {}" using assms(2) by (simp add: mine_count_card)
    with that show ?thesis by blast
  qed
  have m': "mines' = fst (place_loop MINES (spots r c) rnd i mines)"
    and n': "nums' = fill_nums mines' nums"
    using assms(6) by (auto simp: place_mines_def split: prod.splits)
  have pl: "shape mines' \<and> (\<forall>(rr, cc) \<in> board_set - set (spots r c). mines' ! rr ! cc = mines ! rr ! cc) \<and>
            mine_count mines' = mine_count mines + min MINES (length (spots r c))"
    unfolding m' by (rule place_loop_props) (use assms(1) none spots_props in auto)
  have blk: "set (blocked r c) \<subseteq> board_set"
    by (auto simp: blocked_def in_bounds_def board_set_def split: if_splits)
  have "list_all (\<lambda>(rr, cc). \<not> mines' ! rr ! cc) (blocked r c)"
    using pl blk none spots_props(2) by (fastforce simp: list_all_iff)
  moreover have "mine_count mines' = MINES"
    using pl assms(2) spots_enough[OF assms(4,5)] by simp
  ultimately show ?thesis using pl fill_nums_ok[OF assms(3)] n' by simp
qed
lemma reveal_ok_refl: "reveal_ok mines flag vis vis"
  by (simp add: reveal_ok_def list_all_iff)

lemma reveal_ok_cell:
  "reveal_ok mines flag vis vis' \<longleftrightarrow>
     (\<forall>r < ROWS. \<forall>c < COLS.
        (vis' ! r ! c = vis ! r ! c \<or> (vis' ! r ! c = REVEALED \<and> \<not> mines ! r ! c \<and> \<not> flag ! r ! c)) \<and>
        (vis ! r ! c = REVEALED \<longrightarrow> vis' ! r ! c = REVEALED))"
  by (auto simp: reveal_ok_def list_all_cells)

lemma reveal_ok_trans:
  assumes "reveal_ok mines flag v1 v2" "reveal_ok mines flag v2 v3"
  shows "reveal_ok mines flag v1 v3"
  unfolding reveal_ok_cell
proof (intro allI impI)
  fix r c assume rc: "r < ROWS" "c < COLS"
  have a: "v2 ! r ! c = v1 ! r ! c \<or> (v2 ! r ! c = REVEALED \<and> \<not> mines ! r ! c \<and> \<not> flag ! r ! c)"
    "v1 ! r ! c = REVEALED \<longrightarrow> v2 ! r ! c = REVEALED"
    using assms(1) rc unfolding reveal_ok_cell by blast+
  have b: "v3 ! r ! c = v2 ! r ! c \<or> (v3 ! r ! c = REVEALED \<and> \<not> mines ! r ! c \<and> \<not> flag ! r ! c)"
    "v2 ! r ! c = REVEALED \<longrightarrow> v3 ! r ! c = REVEALED"
    using assms(2) rc unfolding reveal_ok_cell by blast+
  from a b show "(v3 ! r ! c = v1 ! r ! c \<or> (v3 ! r ! c = REVEALED \<and> \<not> mines ! r ! c \<and> \<not> flag ! r ! c)) \<and>
        (v1 ! r ! c = REVEALED \<longrightarrow> v3 ! r ! c = REVEALED)" by auto
qed

lemma reveal_ok_set_at:
  assumes "shape vis" "r < ROWS" "c < COLS" "\<not> mines ! r ! c" "\<not> flag ! r ! c"
  shows "reveal_ok mines flag vis (set_at vis r c REVEALED)"
  unfolding reveal_ok_cell
proof (intro allI impI)
  fix r' c' assume "r' < ROWS" "c' < COLS"
  then have "set_at vis r c REVEALED ! r' ! c' = (if r' = r \<and> c' = c then REVEALED else vis ! r' ! c')"
    using assms(1) by (rule nth_set_at_shape[rotated])
  with assms(4,5) show "(set_at vis r c REVEALED ! r' ! c' = vis ! r' ! c' \<or>
        (set_at vis r c REVEALED ! r' ! c' = REVEALED \<and> \<not> mines ! r' ! c' \<and> \<not> flag ! r' ! c')) \<and>
       (vis ! r' ! c' = REVEALED \<longrightarrow> set_at vis r c REVEALED ! r' ! c' = REVEALED)"
    by auto
qed

lemma push_nbr_queue:
  "set (snd (fold (push_nbr flag vis) ns (seen, q))) \<subseteq> set q \<union> set ns"
proof (induction ns arbitrary: seen q)
  case (Cons rc ns)
  obtain seen1 q1 where p: "push_nbr flag vis rc (seen, q) = (seen1, q1)" by (cases "push_nbr flag vis rc (seen, q)")
  have "set q1 \<subseteq> set q \<union> {rc}" using p by (cases rc) (auto simp: push_nbr_def split: if_splits)
  with Cons.IH[of seen1 q1] p show ?case by auto
qed simp

lemma nums_ok_zero:
  assumes "nums_ok mines nums" "r < ROWS" "c < COLS" "nums ! r ! c = 0" "(rr, cc) \<in> set (neighbors r c)"
  shows "\<not> mines ! rr ! cc"
proof -
  have "nums ! r ! c = (if mines ! r ! c then -1 else int (count_adj mines r c))"
    using assms(1-3) by (simp add: nums_ok_def list_all_cells)
  with assms(4) have "count_adj mines r c = 0" by (simp split: if_splits)
  then have "filter (\<lambda>(rr, cc). mines ! rr ! cc) (neighbors r c) = []" by (simp add: count_adj_def)
  with assms(5) show ?thesis by (auto simp: filter_empty_conv)
qed

lemma nums_ok_nonmine:
  "nums_ok mines nums \<Longrightarrow> r < ROWS \<Longrightarrow> c < COLS \<Longrightarrow> nums ! r ! c = 0 \<Longrightarrow> \<not> mines ! r ! c"
  by (auto simp: nums_ok_def list_all_cells split: if_splits)

lemma neighbors_board: "(rr, cc) \<in> set (neighbors r c) \<Longrightarrow> rr < ROWS \<and> cc < COLS"
  by (auto simp: neighbors_def in_bounds_def Let_def split: if_splits)

lemma flood_loop_ok:
  assumes "shape vis" "nums_ok mines nums"
    and "\<forall>(r, c) \<in> set q. r < ROWS \<and> c < COLS \<and> \<not> mines ! r ! c"
  shows "shape (flood_loop nums flag q seen vis) \<and> reveal_ok mines flag vis (flood_loop nums flag q seen vis)"
  using assms
proof (induction nums flag q seen vis rule: flood_loop.induct)
  case (1 nums flag q seen vis)
  show ?case
  proof (cases "q = []")
    case True then show ?thesis
      using "1.prems" by (simp add: flood_loop.simps[of nums flag "[]" seen vis] reveal_ok_refl)
  next
    case nq: False
    obtain r c where rc: "last q = (r, c)" by (cases "last q")
    have "(r, c) \<in> set q" using nq rc by (metis last_in_set)
    then have cell: "r < ROWS" "c < COLS" "\<not> mines ! r ! c" using "1.prems"(3) by auto
    have bq: "\<forall>(r, c) \<in> set (butlast q). r < ROWS \<and> c < COLS \<and> \<not> mines ! r ! c"
      using "1.prems"(3) in_set_butlastD by fastforce
    show ?thesis
    proof (cases "flag ! r ! c")
      case True
      have "flood_loop nums flag q seen vis = flood_loop nums flag (butlast q) seen vis"
        using nq rc True by (simp add: flood_loop.simps[of nums flag q seen vis])
      with "1.IH"(1)[OF nq rc[symmetric] True "1.prems"(1,2) bq] show ?thesis by simp
    next
      case nf: False
      define vis1 where "vis1 = set_at vis r c REVEALED"
      have s1: "shape vis1" using "1.prems"(1) by (simp add: vis1_def)
      have ok1: "reveal_ok mines flag vis vis1"
        unfolding vis1_def using "1.prems"(1) cell nf by (rule reveal_ok_set_at)
      show ?thesis
      proof (cases "nums ! r ! c \<noteq> 0")
        case True
        have "flood_loop nums flag q seen vis = flood_loop nums flag (butlast q) seen vis1"
          using nq rc nf True by (simp add: flood_loop.simps[of nums flag q seen vis] vis1_def Let_def)
        with "1.IH"(2)[OF nq rc[symmetric] nf vis1_def True s1 "1.prems"(2) bq] ok1
        show ?thesis by (auto intro: reveal_ok_trans)
      next
        case False
        obtain seen2 q2 where f: "fold (push_nbr flag vis1) (neighbors r c) (seen, butlast q) = (seen2, q2)"
          by (cases "fold (push_nbr flag vis1) (neighbors r c) (seen, butlast q)")
        have q2: "\<forall>(r', c') \<in> set q2. r' < ROWS \<and> c' < COLS \<and> \<not> mines ! r' ! c'"
        proof
          fix x assume x: "x \<in> set q2"
          obtain r' c' where x': "x = (r', c')" by (cases x)
          have "x \<in> set (butlast q) \<union> set (neighbors r c)"
            using push_nbr_queue[of flag vis1 "neighbors r c" seen "butlast q"] f x by auto
          then show "case x of (r', c') \<Rightarrow> r' < ROWS \<and> c' < COLS \<and> \<not> mines ! r' ! c'"
            using bq nums_ok_zero[OF "1.prems"(2) cell(1,2)] neighbors_board False x' by auto
        qed
        have "flood_loop nums flag q seen vis = flood_loop nums flag q2 seen2 vis1"
          using nq rc nf False f by (simp add: flood_loop.simps[of nums flag q seen vis] vis1_def Let_def)
        with "1.IH"(3)[OF nq rc[symmetric] nf vis1_def _ f[symmetric] s1 "1.prems"(2) q2] False ok1
        show ?thesis by (auto intro: reveal_ok_trans)
      qed
    qed
  qed
qed
lemma reveal_ok_keeps:
  assumes ok: "reveal_ok mines flag vis vis'"
  shows "no_revealed_mine mines vis \<Longrightarrow> no_revealed_mine mines vis'"
    and "flags_covered flag vis \<Longrightarrow> flags_covered flag vis'"
proof -
  have cell: "(vis' ! r ! c = vis ! r ! c \<or> (vis' ! r ! c = REVEALED \<and> \<not> mines ! r ! c \<and> \<not> flag ! r ! c))"
    if "r < ROWS" "c < COLS" for r c
    using ok that unfolding reveal_ok_cell by blast
  show "no_revealed_mine mines vis \<Longrightarrow> no_revealed_mine mines vis'"
    unfolding no_revealed_mine_def list_all_cells using cell by fastforce
  show "flags_covered flag vis \<Longrightarrow> flags_covered flag vis'"
    unfolding flags_covered_def list_all_cells using cell by fastforce
qed

lemma in_concat_map: "x \<in> set (f y) \<Longrightarrow> y \<in> set ys \<Longrightarrow> x \<in> set (concat (map f ys))"
  by auto

lemma blocked_self:
  assumes "r < ROWS" "c < COLS"
  shows "(r, c) \<in> set (blocked r c)"
proof -
  have "int r \<in> set [int r - 1..int r + 1]" "int c \<in> set [int c - 1..int c + 1]" by simp_all
  moreover have "in_bounds (int r) (int c)" using assms by (simp add: in_bounds_def)
  ultimately show ?thesis unfolding blocked_def
    by (intro in_concat_map[where y = "int r"] in_concat_map[where y = "int c"]) simp_all
qed

lemma ms_new_game_inv: "ms_inv (ms_new_game eb d)"
  by (simp add: ms_inv_def ms_new_game_def make_empty_def shape_def no_revealed_mine_def flags_covered_def
                mine_count_def list_all_cells filter_empty_conv set_all_cells board_set_def list_all_iff
                ROWS_def COLS_def)

lemma flood_reveal_ok:
  assumes "shape vis" "nums_ok mines nums" "r < ROWS" "c < COLS" "\<not> mines ! r ! c"
  shows "shape (flood_reveal nums vis flag r c) \<and> reveal_ok mines flag vis (flood_reveal nums vis flag r c)"
  unfolding flood_reveal_def using assms by (intro flood_loop_ok) auto
lemma ms_reveal_placed:
  assumes inv: "ms_inv st"
  obtains st1 where
    "ms_reveal rnd now st =
       (if m_mines st1 ! m_r st ! m_c st then Boom
        else (let vis = (if m_nums st1 ! m_r st ! m_c st = 0
                         then flood_reveal (m_nums st1) (m_vis st1) (m_flag st1) (m_r st) (m_c st)
                         else set_at (m_vis st1) (m_r st) (m_c st) REVEALED)
              in if ms_is_win vis then Cleared else Going (st1\<lparr>m_vis := vis\<rparr>)))"
    "ms_inv st1" "m_started st1" "m_vis st1 = m_vis st" "m_flag st1 = m_flag st"
    "m_r st1 = m_r st" "m_c st1 = m_c st"
    "\<not> m_started st \<Longrightarrow> \<not> m_mines st1 ! m_r st ! m_c st"
proof (cases "m_started st")
  case True
  then show ?thesis using that[of st] inv by (simp add: ms_reveal_def Let_def)
next
  case False
  obtain mines nums d where pm: "place_mines (m_mines st) (m_nums st) (m_r st) (m_c st) rnd (m_draws st) = (mines, nums, d)"
    by (cases "place_mines (m_mines st) (m_nums st) (m_r st) (m_c st) rnd (m_draws st)")
  define st1 where "st1 = st\<lparr>m_mines := mines, m_nums := nums, m_draws := d, m_started := True, m_start := now\<rparr>"
  have rc: "m_r st < ROWS" "m_c st < COLS" using inv by (simp_all add: ms_inv_def)
  have props: "shape mines \<and> shape nums \<and> mine_count mines = MINES \<and>
         list_all (\<lambda>(rr, cc). \<not> mines ! rr ! cc) (blocked (m_r st) (m_c st)) \<and> nums_ok mines nums"
    using inv False rc by (intro place_mines_props[OF _ _ _ _ _ pm]) (simp_all add: ms_inv_def)
  have free: "\<not> mines ! m_r st ! m_c st"
    using props blocked_self[OF rc] by (auto simp: list_all_iff)
  have covered: "list_all (\<lambda>(r, c). m_vis st ! r ! c = COVERED) all_cells" using inv False by (simp add: ms_inv_def)
  then have "no_revealed_mine mines (m_vis st)"
    by (simp add: no_revealed_mine_def list_all_iff COVERED_def REVEALED_def split_def)
  then have "ms_inv st1" using inv props False by (simp add: ms_inv_def st1_def)
  moreover have "ms_reveal rnd now st =
       (if m_mines st1 ! m_r st ! m_c st then Boom
        else (let vis = (if m_nums st1 ! m_r st ! m_c st = 0
                         then flood_reveal (m_nums st1) (m_vis st1) (m_flag st1) (m_r st) (m_c st)
                         else set_at (m_vis st1) (m_r st) (m_c st) REVEALED)
              in if ms_is_win vis then Cleared else Going (st1\<lparr>m_vis := vis\<rparr>)))"
    using False pm by (simp add: ms_reveal_def st1_def Let_def)
  ultimately show ?thesis using that[of st1] free by (simp add: st1_def)
qed

lemma ms_reveal_going:
  assumes inv: "ms_inv st" and nf: "\<not> m_flag st ! m_r st ! m_c st"
    and rv: "ms_reveal rnd now st = Going st'"
  shows "ms_inv st'"
proof -
  obtain st1 where eq: "ms_reveal rnd now st =
       (if m_mines st1 ! m_r st ! m_c st then Boom
        else (let vis = (if m_nums st1 ! m_r st ! m_c st = 0
                         then flood_reveal (m_nums st1) (m_vis st1) (m_flag st1) (m_r st) (m_c st)
                         else set_at (m_vis st1) (m_r st) (m_c st) REVEALED)
              in if ms_is_win vis then Cleared else Going (st1\<lparr>m_vis := vis\<rparr>)))"
    and inv1: "ms_inv st1" and st1: "m_started st1" "m_flag st1 = m_flag st" "m_r st1 = m_r st" "m_c st1 = m_c st"
    using ms_reveal_placed[OF inv] by metis
  define vis where "vis = (if m_nums st1 ! m_r st ! m_c st = 0
                         then flood_reveal (m_nums st1) (m_vis st1) (m_flag st1) (m_r st) (m_c st)
                         else set_at (m_vis st1) (m_r st) (m_c st) REVEALED)"
  have free: "\<not> m_mines st1 ! m_r st ! m_c st" and st': "st' = st1\<lparr>m_vis := vis\<rparr>"
    using rv eq by (auto simp: vis_def Let_def split: if_splits)
  have rc: "m_r st < ROWS" "m_c st < COLS" using inv by (simp_all add: ms_inv_def)
  have sh: "shape (m_vis st1)" and nok: "nums_ok (m_mines st1) (m_nums st1)" using inv1 st1 by (simp_all add: ms_inv_def)
  have "shape vis \<and> reveal_ok (m_mines st1) (m_flag st1) (m_vis st1) vis"
  proof (cases "m_nums st1 ! m_r st ! m_c st = 0")
    case True
    then show ?thesis using flood_reveal_ok[OF sh nok rc free] by (simp add: vis_def)
  next
    case False
    have "\<not> m_flag st1 ! m_r st ! m_c st" using nf st1 by simp
    with False show ?thesis using reveal_ok_set_at[OF sh rc free] sh by (simp add: vis_def)
  qed
  with inv1 st1 show ?thesis
    by (auto simp: st' ms_inv_def dest: reveal_ok_keeps)
qed
lemma ms_cursor_range:
  "ms_cursor e r c = (r', c') \<Longrightarrow> r < ROWS \<Longrightarrow> c < COLS \<Longrightarrow> r' < ROWS \<and> c' < COLS"
  by (auto simp: ms_cursor_def ROWS_def COLS_def nat_less_iff split: prod.splits if_splits)

lemma ms_inv_upd [simp]:
  "ms_inv (st\<lparr>m_eb := x\<rparr>) = ms_inv st" "ms_inv (st\<lparr>m_last := t\<rparr>) = ms_inv st"
  by (simp_all add: ms_inv_def)

lemma ms_inv_flag:
  assumes "ms_inv st" "m_vis st ! m_r st ! m_c st = COVERED"
  shows "ms_inv (st\<lparr>m_flag := set_at (m_flag st) (m_r st) (m_c st) v\<rparr>)"
proof -
  have "flags_covered (set_at (m_flag st) (m_r st) (m_c st) v) (m_vis st)"
    using assms unfolding ms_inv_def flags_covered_def list_all_cells
    by (auto simp: nth_set_at_shape)
  with assms show ?thesis by (simp add: ms_inv_def)
qed

lemma ms_end_phase: "ms_end st ss = Some (ph, ss') \<Longrightarrow> phase_ok ph"
  by (auto simp: ms_end_def phase_ok_def split: if_splits)

lemma ms_iter_inv:
  assumes inv: "ms_inv st" and it: "ms_iter rnd st ss = Some (ph, a, ss')"
  shows "phase_ok ph"
proof -
  obtain s ss1 where ss: "ss = s # ss1" using it by (cases ss) (auto simp: ms_iter_def)
  obtain eb' e where e: "eb_update (m_eb st) s = (eb', e)" by (cases "eb_update (m_eb st) s")
  obtain r c where rc: "ms_cursor e (m_r st) (m_c st) = (r, c)" by (cases "ms_cursor e (m_r st) (m_c st)")
  obtain act ss2 where d: "detect_action_chords (m_last st) ss1 = Some (act, ss2)"
    using it by (auto simp: ms_iter_def ss e rc split: option.splits)
  define st2 where "st2 = (if act \<noteq> None then st\<lparr>m_eb := eb', m_r := r, m_c := c, m_last := last_read ss1 ss2\<rparr>
                         else st\<lparr>m_eb := eb', m_r := r, m_c := c\<rparr>)"
  have range: "r < ROWS" "c < COLS" using ms_cursor_range[OF rc] inv by (auto simp: ms_inv_def)
  have inv2: "ms_inv st2" using inv range by (simp add: st2_def ms_inv_def)
  have pos: "m_r st2 = r" "m_c st2 = c" by (simp_all add: st2_def)
  have it2: "ms_iter rnd st ss =
     (if act = Some Restart then Some (MTitle (m_eb st2) (m_draws st2), act, ss2)
      else if act = Some Flag then
        (if m_vis st2 ! r ! c = COVERED
         then Some (MGame (st2\<lparr>m_flag := set_at (m_flag st2) r c (\<not> m_flag st2 ! r ! c)\<rparr>), act, ss2)
         else Some (MGame st2, act, ss2))
      else if act = Some Reveal \<and> m_vis st2 ! r ! c = COVERED \<and> \<not> m_flag st2 ! r ! c then
        (case ms_reveal rnd (last_read ss1 ss2) st2 of
           Going st3 \<Rightarrow> Some (MGame st3, act, ss2)
         | _ \<Rightarrow> map_option (\<lambda>(ph, ss3). (ph, act, ss3)) (ms_end st2 ss2))
      else Some (MGame st2, act, ss2))"
    unfolding ms_iter_def ss list.case e rc d prod.case option.case st2_def Let_def by (rule refl)
  show ?thesis
  proof (cases "act = Some Restart \<or> act = Some Flag")
    case True
    with it it2 inv2 pos show ?thesis
      by (auto simp: phase_ok_def split: if_splits intro: ms_inv_flag[OF inv2])
  next
    case nf: False
    show ?thesis
    proof (cases "act = Some Reveal \<and> m_vis st2 ! r ! c = COVERED \<and> \<not> m_flag st2 ! r ! c")
      case False with nf it it2 inv2 show ?thesis by (auto simp: phase_ok_def)
    next
      case True
      show ?thesis
      proof (cases "ms_reveal rnd (last_read ss1 ss2) st2")
        case (Going st3)
        with True nf it it2 have "ph = MGame st3" by auto
        with ms_reveal_going[OF inv2 _ Going] True pos show ?thesis by (simp add: phase_ok_def)
      qed (use True nf it it2 in \<open>auto dest: ms_end_phase\<close>)
    qed
  qed
qed

lemma ms_title_phase:
  assumes "ms_title eb d ss = Some (ph, ss')"
  shows "phase_ok ph"
proof (cases "screen_choice ss")
  case (Some r)
  obtain b ss1 where r: "r = (b, ss1)" by (cases r)
  show ?thesis
  proof (cases b)
    case True
    with assms Some r have "ph = MGame (ms_new_game eb d)"
      by (auto simp: ms_title_def split: option.splits)
    then show ?thesis by (simp add: phase_ok_def ms_new_game_inv)
  next
    case False
    with assms Some r have "ph = MOver" by (simp add: ms_title_def)
    then show ?thesis by (simp add: phase_ok_def)
  qed
qed (use assms in \<open>simp add: ms_title_def\<close>)

lemma ms_run_inv:
  "phase_ok ph \<Longrightarrow> ms_run rnd n ph ss = (ph', acts, rest) \<Longrightarrow> phase_ok ph'"
proof (induction rnd n ph ss arbitrary: ph' acts rest rule: ms_run.induct)
  case (3 rnd n eb d ss)
  show ?case
  proof (cases "ms_title eb d ss")
    case None with "3.prems" show ?thesis by simp
  next
    case (Some r)
    obtain ph1 ss1 where r: "r = (ph1, ss1)" by (cases r)
    with Some have "phase_ok ph1" by (simp add: ms_title_phase)
    with "3.IH"[OF Some[unfolded r]] "3.prems"(2) Some r show ?thesis by simp
  qed
next
  case (4 rnd n st ss)
  show ?case
  proof (cases "ms_iter rnd st ss")
    case None with "4.prems" show ?thesis by simp
  next
    case (Some r)
    obtain ph1 a ss1 where r: "r = (ph1, a, ss1)" by (cases r)
    have inv: "ms_inv st" using "4.prems"(1) by (simp add: phase_ok_def)
    have ok1: "phase_ok ph1" using ms_iter_inv[OF inv] Some r by simp
    obtain ph2 acts2 rest2 where rr: "ms_run rnd n ph1 ss1 = (ph2, acts2, rest2)"
      by (cases "ms_run rnd n ph1 ss1")
    have "phase_ok ph2" using "4.IH"[OF Some[unfolded r] refl refl ok1 rr] .
    with "4.prems"(2) Some r rr show ?thesis by simp
  qed
qed auto
lemma flood_reveal_start:
  assumes "shape vis" "nums_ok mines nums" "r < ROWS" "c < COLS" "\<not> mines ! r ! c" "\<not> flag ! r ! c"
  shows "flood_reveal nums vis flag r c ! r ! c = REVEALED"
proof -
  define vis1 where "vis1 = set_at vis r c REVEALED"
  have s1: "shape vis1" using assms(1) by (simp add: vis1_def)
  have v1: "vis1 ! r ! c = REVEALED" using assms(1,3,4) by (simp add: vis1_def nth_set_at_shape)
  obtain seen2 q2 where f: "fold (push_nbr flag vis1) (neighbors r c) ([(r, c)], []) = (seen2, q2)"
    by (cases "fold (push_nbr flag vis1) (neighbors r c) ([(r, c)], [])")
  have q2: "\<forall>(r', c') \<in> set q2. r' < ROWS \<and> c' < COLS \<and> \<not> mines ! r' ! c'"
    if z: "nums ! r ! c = 0"
  proof
    fix x assume x: "x \<in> set q2"
    obtain r' c' where x': "x = (r', c')" by (cases x)
    have "x \<in> set (neighbors r c)" using push_nbr_queue[of flag vis1 "neighbors r c" "[(r, c)]" "[]"] f x by auto
    then show "case x of (r', c') \<Rightarrow> r' < ROWS \<and> c' < COLS \<and> \<not> mines ! r' ! c'"
      using nums_ok_zero[OF assms(2-4) z] neighbors_board x' by auto
  qed
  have eq: "flood_reveal nums vis flag r c =
            (if nums ! r ! c \<noteq> 0 then vis1 else flood_loop nums flag q2 seen2 vis1)"
    using assms(6) f
    by (simp add: flood_reveal_def flood_loop.simps[of nums flag "[(r, c)]" "[(r, c)]" vis] vis1_def
                  flood_loop.simps[of nums flag "[]" "[(r, c)]"])
  show ?thesis
  proof (cases "nums ! r ! c = 0")
    case True
    with flood_loop_ok[OF s1 assms(2) q2[OF True], of flag seen2] v1 assms(3,4)
    show ?thesis by (simp add: eq reveal_ok_cell)
  qed (simp add: eq v1)
qed

lemma card_board_set: "card board_set = ROWS * COLS"
  by (simp add: board_set_def)

lemma count_revealed_card: "count_revealed vis = card {(r, c) \<in> board_set. vis ! r ! c = REVEALED}"
proof -
  have "distinct (filter (\<lambda>(r, c). vis ! r ! c = REVEALED) all_cells)" by (simp add: distinct_all_cells)
  then have "count_revealed vis = card (set (filter (\<lambda>(r, c). vis ! r ! c = REVEALED) all_cells))"
    unfolding count_revealed_def by (rule distinct_card[symmetric])
  also have "set (filter (\<lambda>(r, c). vis ! r ! c = REVEALED) all_cells) = {(r, c) \<in> board_set. vis ! r ! c = REVEALED}"
    by (auto simp: set_all_cells)
  finally show ?thesis .
qed

text \<open>
  C27: on an empty 8x8 board, \<open>place_mines\<close> places exactly \<open>MINES\<close> mines, none in the
  3x3 block around the safe cell (so the first revealed cell and its neighbours are
  mine-free), and writes into \<open>nums\<close> \<open>-1\<close> on each mine and the number of adjacent
  mines on every other cell, whatever the random draws.
\<close>
theorem place_mines_spec:
  "shape mines \<Longrightarrow> mine_count mines = 0 \<Longrightarrow> shape nums \<Longrightarrow> r < ROWS \<Longrightarrow> c < COLS \<Longrightarrow>
   place_mines mines nums r c rnd i = (mines', nums', i') \<Longrightarrow>
   mine_count mines' = MINES \<and> list_all (\<lambda>(rr, cc). \<not> mines' ! rr ! cc) (blocked r c) \<and>
   list_all (\<lambda>(rr, cc). nums' ! rr ! cc = (if mines' ! rr ! cc then -1 else int (count_adj mines' rr cc))) all_cells"
  using place_mines_props[of mines nums r c rnd i mines' nums' i'] by (simp add: nums_ok_def)

theorem place_mines_spec_witness:
  "mine_count (fst (place_mines (replicate 8 (replicate 8 False)) (replicate 8 (replicate 8 0)) 0 0 (\<lambda>i. i * 7919) 0)) = 10"
proof -
  have h: "shape (replicate 8 (replicate 8 False))" "mine_count (replicate 8 (replicate 8 False)) = 0"
    "shape (replicate 8 (replicate 8 (0::int)))" "0 < ROWS" "0 < COLS" by code_simp+
  obtain m n j where "place_mines (replicate 8 (replicate 8 False)) (replicate 8 (replicate 8 0)) 0 0 (\<lambda>i. i * 7919) 0 = (m, n, j)"
    by (cases "place_mines (replicate 8 (replicate 8 False)) (replicate 8 (replicate 8 (0::int))) 0 0 (\<lambda>i. i * 7919) 0")
  with place_mines_spec[OF h] show ?thesis by (simp add: MINES_def)
qed

text \<open>
  C28: started on a cell that is neither a mine nor flagged, with counts consistent with
  the mines, \<open>flood_reveal\<close> reveals that cell, reveals only cells that are neither
  mines nor flagged, and covers nothing that was revealed.
\<close>
theorem flood_reveal_spec:
  "shape vis \<Longrightarrow> nums_ok mines nums \<Longrightarrow> r < ROWS \<Longrightarrow> c < COLS \<Longrightarrow> \<not> mines ! r ! c \<Longrightarrow> \<not> flag ! r ! c \<Longrightarrow>
   flood_reveal nums vis flag r c ! r ! c = REVEALED \<and> shape (flood_reveal nums vis flag r c) \<and>
   reveal_ok mines flag vis (flood_reveal nums vis flag r c)"
  using flood_reveal_start flood_reveal_ok by blast

theorem flood_reveal_spec_witness:
  "flood_reveal (replicate 8 (replicate 8 0)) (replicate 8 (replicate 8 0)) (replicate 8 (replicate 8 False)) 0 0 ! 0 ! 0 = 1"
proof -
  have h: "shape (replicate 8 (replicate 8 (0::nat)))"
    "nums_ok (replicate 8 (replicate 8 False)) (replicate 8 (replicate 8 0))"
    "0 < ROWS" "0 < COLS" "\<not> replicate 8 (replicate 8 False) ! 0 ! 0"
    "\<not> replicate 8 (replicate 8 False) ! 0 ! 0" by code_simp+
  from flood_reveal_spec[OF h] show ?thesis by (simp add: REVEALED_def)
qed

text \<open>
  C29: the first reveal of a game never hits a mine: the mines are placed after the
  cell is chosen and away from it.
\<close>
theorem ms_first_reveal_safe:
  "ms_inv st \<Longrightarrow> \<not> m_started st \<Longrightarrow> ms_reveal rnd now st \<noteq> Boom"
  by (rule ms_reveal_placed[of st rnd now]) (auto simp: Let_def split: if_splits)

theorem ms_first_reveal_safe_witness: "ms_reveal (\<lambda>i. i * 7919) 0 (ms_new_game EdgeButtons 0) \<noteq> Boom"
proof -
  have "\<not> m_started (ms_new_game EdgeButtons 0)" by (simp add: ms_new_game_def make_empty_def)
  with ms_first_reveal_safe[OF ms_new_game_inv] show ?thesis by blast
qed

lemma ms_reveal_going_started: "ms_reveal rnd now st = Going st' \<Longrightarrow> m_started st'"
  by (auto simp: ms_reveal_def Let_def split: if_splits prod.splits)

text \<open>
  C32: in a started game, \<open>is_win\<close> (54 revealed cells) holds exactly when every cell
  without a mine is revealed.
\<close>
theorem ms_win_iff:
  "ms_inv st \<Longrightarrow> m_started st \<Longrightarrow>
   ms_is_win (m_vis st) \<longleftrightarrow> list_all (\<lambda>(r, c). m_mines st ! r ! c \<or> m_vis st ! r ! c = REVEALED) all_cells"
proof -
  assume inv: "ms_inv st" and started: "m_started st"
  define R where "R = {(r, c) \<in> board_set. m_vis st ! r ! c = REVEALED}"
  define N where "N = {(r, c) \<in> board_set. \<not> m_mines st ! r ! c}"
  define M where "M = {(r, c) \<in> board_set. m_mines st ! r ! c}"
  have RN: "R \<subseteq> N" using inv
    by (auto simp: R_def N_def ms_inv_def no_revealed_mine_def list_all_iff set_all_cells)
  have "card M = MINES" using inv started by (simp add: ms_inv_def mine_count_card M_def)
  moreover have "N = board_set - M" by (auto simp: N_def M_def)
  moreover have "M \<subseteq> board_set" by (auto simp: M_def)
  moreover have "finite M" by (simp add: M_def)
  ultimately have cN: "card N = ROWS * COLS - MINES" by (simp add: card_Diff_subset card_board_set)
  have fN: "finite N" by (simp add: N_def)
  have "ms_is_win (m_vis st) \<longleftrightarrow> card R = card N"
    by (simp add: ms_is_win_def count_revealed_card R_def[symmetric] cN)
  also have "\<dots> \<longleftrightarrow> R = N" using RN fN by (metis card_subset_eq)
  also have "\<dots> \<longleftrightarrow> N \<subseteq> R" using RN by blast
  also have "\<dots> \<longleftrightarrow> list_all (\<lambda>(r, c). m_mines st ! r ! c \<or> m_vis st ! r ! c = REVEALED) all_cells"
    by (auto simp: N_def R_def list_all_iff set_all_cells)
  finally show ?thesis .
qed
theorem ms_win_iff_witness:
  "case ms_reveal (\<lambda>i. i * 7919) 0 (ms_new_game EdgeButtons 0) of
     Going st \<Rightarrow> (ms_is_win (m_vis st) \<longleftrightarrow>
                   list_all (\<lambda>(r, c). m_mines st ! r ! c \<or> m_vis st ! r ! c = REVEALED) all_cells)
   | _ \<Rightarrow> True"
proof (cases "ms_reveal (\<lambda>i. i * 7919) 0 (ms_new_game EdgeButtons 0)")
  case (Going st)
  have nf: "\<not> m_flag (ms_new_game EdgeButtons 0) ! m_r (ms_new_game EdgeButtons 0) ! m_c (ms_new_game EdgeButtons 0)"
    by (simp add: ms_new_game_def make_empty_def ROWS_def COLS_def)
  have "ms_inv st" by (rule ms_reveal_going[OF ms_new_game_inv nf Going])
  moreover have "m_started st" using Going by (rule ms_reveal_going_started)
  ultimately show ?thesis using ms_win_iff Going by simp
qed simp_all

text \<open>
  C30: whatever the button trace and the random draws, every game state the program
  reaches satisfies the invariant: no revealed mine, flags only on covered cells, the
  cursor on the board, and once started exactly \<open>MINES\<close> mines with correct counts.
\<close>
theorem ms_main_safe:
  "ms_main rnd n ss = (ph, acts, rest) \<Longrightarrow> phase_ok ph"
  unfolding ms_main_def by (rule ms_run_inv) (simp_all add: phase_ok_def)

theorem ms_main_safe_witness:
  "phase_ok (fst (ms_main (\<lambda>i. i * 7919) 3
      [levels_at 1 1 1 1 0, levels_at 0 1 1 1 10, levels_at 1 1 1 1 20,
       levels_at 0 0 1 1 1000, levels_at 0 0 1 1 1010, levels_at 1 1 1 1 1020, levels_at 1 1 1 1 1030]))"
proof -
  obtain ph acts rest where e: "ms_main (\<lambda>i. i * 7919) 3
      [levels_at 1 1 1 1 0, levels_at 0 1 1 1 10, levels_at 1 1 1 1 20,
       levels_at 0 0 1 1 1000, levels_at 0 0 1 1 1010, levels_at 1 1 1 1 1020, levels_at 1 1 1 1 1030] = (ph, acts, rest)"
    by (rule prod_cases3)
  from ms_main_safe[OF e] e show ?thesis by simp
qed

lemma ms_end_not_game: "ms_end st ss \<noteq> Some (MGame st', rest)"
  by (auto simp: ms_end_def split: if_splits)

lemma ms_reveal_pos: "ms_reveal rnd now st = Going st' \<Longrightarrow> m_r st' = m_r st \<and> m_c st' = m_c st"
  by (auto simp: ms_reveal_def Let_def split: if_splits prod.splits)

text \<open>
  C31: when the two presses of the UP+DOWN chord are read by the same \<open>eb.update()\<close>,
  the UP edge moves the cursor up one row (wrapping) before the chord is detected, so
  the reveal acts on the cell above the one the player chose.
\<close>
theorem ms_chord_moves_cursor:
  "eb_u (m_eb st) = 1 \<Longrightarrow> eb_d (m_eb st) = 1 \<Longrightarrow> s_up s = 0 \<Longrightarrow> s_dn s = 0 \<Longrightarrow>
   ms_iter rnd st (s # ss) = Some (MGame st', Some Reveal, rest) \<Longrightarrow>
   m_r st' = nat ((int (m_r st) - 1) mod int ROWS) \<and> m_c st' = m_c st"
  by (auto simp: ms_iter_def eb_update_def ms_cursor_def Let_def
           split: option.splits prod.splits if_splits reveal_out.splits simp: ms_end_not_game dest!: ms_reveal_pos)

theorem ms_chord_moves_cursor_witness:
  "ms_iter (\<lambda>i. i * 7919) ((ms_new_game EdgeButtons 0)\<lparr>m_vis := set_at (replicate 8 (replicate 8 0)) 7 0 1\<rparr>)
     [levels_at 0 0 1 1 1000, levels_at 0 0 1 1 1010, levels_at 1 1 1 1 1020] =
   Some (MGame ((ms_new_game EdgeButtons 0)\<lparr>m_vis := set_at (replicate 8 (replicate 8 0)) 7 0 1,
                  m_eb := \<lparr>eb_u = 0, eb_d = 0, eb_l = 1, eb_r = 1\<rparr>, m_r := 7, m_last := 1020\<rparr>),
         Some Reveal, []) \<and>
   (7::nat) = nat ((int 0 - 1) mod int ROWS)"
proof -
  have it: "ms_iter (\<lambda>i. i * 7919) ((ms_new_game EdgeButtons 0)\<lparr>m_vis := set_at (replicate 8 (replicate 8 0)) 7 0 1\<rparr>)
     [levels_at 0 0 1 1 1000, levels_at 0 0 1 1 1010, levels_at 1 1 1 1 1020] =
   Some (MGame ((ms_new_game EdgeButtons 0)\<lparr>m_vis := set_at (replicate 8 (replicate 8 0)) 7 0 1,
                  m_eb := \<lparr>eb_u = 0, eb_d = 0, eb_l = 1, eb_r = 1\<rparr>, m_r := 7, m_last := 1020\<rparr>),
         Some Reveal, [])" by code_simp
  have "eb_u (m_eb ((ms_new_game EdgeButtons 0)\<lparr>m_vis := set_at (replicate 8 (replicate 8 0)) 7 0 1\<rparr>)) = 1"
    "eb_d (m_eb ((ms_new_game EdgeButtons 0)\<lparr>m_vis := set_at (replicate 8 (replicate 8 0)) 7 0 1\<rparr>)) = 1"
    "s_up (levels_at 0 0 1 1 1000) = 0" "s_dn (levels_at 0 0 1 1 1000) = 0"
    by (simp_all add: ms_new_game_def make_empty_def EdgeButtons_def levels_at_def)
  from ms_chord_moves_cursor[OF this it] it show ?thesis by (simp add: ms_new_game_def make_empty_def)
qed
end
