(* ===== verification/DrawMinesweeper.thy ===== *)
theory DrawMinesweeper
  imports Minesweeper Font3x5
begin

text \<open>
  The drawing code of \<open>src/minesweeper.py\<close>: its copy of the 3x5 font (with F but no
  H, K, Q, X or Z), text layout, rectangles, the flag and mine sprites, the header, the
  8x8 grid of 7x7 cells, the hints, \<open>render_game\<close>, and the title and end screens. A
  drawing is the list of \<open>draw_pixel\<close> calls it makes, in order.
\<close>

section \<open>Font and text\<close>

definition MGLYPH :: "(char \<times> nat list) list" where
  "MGLYPH =
    [(CHR ''0'', [7, 5, 5, 5, 7]), (CHR ''1'', [2, 6, 2, 2, 7]), (CHR ''2'', [7, 1, 7, 4, 7]),
     (CHR ''3'', [7, 1, 7, 1, 7]), (CHR ''4'', [5, 5, 7, 1, 1]), (CHR ''5'', [7, 4, 7, 1, 7]),
     (CHR ''6'', [7, 4, 7, 5, 7]), (CHR ''7'', [7, 1, 2, 2, 2]), (CHR ''8'', [7, 5, 7, 5, 7]),
     (CHR ''9'', [7, 5, 7, 1, 7]), (CHR ''A'', [7, 5, 7, 5, 5]), (CHR ''B'', [6, 5, 6, 5, 6]),
     (CHR ''C'', [7, 4, 4, 4, 7]), (CHR ''D'', [6, 5, 5, 5, 6]), (CHR ''E'', [7, 4, 7, 4, 7]),
     (CHR ''F'', [7, 4, 7, 4, 4]), (CHR ''G'', [7, 4, 5, 5, 7]), (CHR ''I'', [7, 2, 2, 2, 7]),
     (CHR ''L'', [4, 4, 4, 4, 7]), (CHR ''M'', [5, 7, 7, 5, 5]), (CHR ''N'', [5, 7, 7, 7, 5]),
     (CHR ''O'', [7, 5, 5, 5, 7]), (CHR ''P'', [6, 5, 6, 4, 4]), (CHR ''R'', [6, 5, 6, 5, 5]),
     (CHR ''S'', [7, 4, 7, 1, 7]), (CHR ''T'', [7, 2, 2, 2, 2]), (CHR ''U'', [5, 5, 5, 5, 7]),
     (CHR ''V'', [5, 5, 5, 5, 2]), (CHR ''W'', [5, 5, 5, 7, 7]), (CHR ''Y'', [5, 5, 2, 2, 2]),
     (CHR '' '', [0, 0, 0, 0, 0]), (CHR '':'', [0, 2, 0, 2, 0]), (CHR ''-'', [0, 0, 7, 0, 0]),
     (CHR ''+'', [0, 2, 7, 2, 0])]"

text \<open>\<open>GLYPH.get(ch, GLYPH[" "])\<close>\<close>

definition m_glyph_rows :: "char \<Rightarrow> nat list" where
  "m_glyph_rows ch = (case map_of MGLYPH ch of Some rows \<Rightarrow> rows | None \<Rightarrow> the (map_of MGLYPH (CHR '' '')))"

definition m_draw_glyph :: "char \<Rightarrow> int \<Rightarrow> int \<Rightarrow> nat \<Rightarrow> int \<Rightarrow> (int \<times> int \<times> int) list" where
  "m_draw_glyph ch x y scale c = glyph_px (m_glyph_rows ch) x y scale c"

definition m_text_width :: "string \<Rightarrow> nat \<Rightarrow> nat \<Rightarrow> int" where
  "m_text_width s scale spacing =
     (if s = [] then 0 else int (length s * (3 * scale)) + (int (length s) - 1) * int (spacing * scale))"

definition m_draw_text :: "string \<Rightarrow> int \<Rightarrow> int \<Rightarrow> nat \<Rightarrow> nat \<Rightarrow> int \<Rightarrow> (int \<times> int \<times> int) list" where
  "m_draw_text s x y scale spacing c = text_px m_glyph_rows s x y scale spacing c"

definition m_draw_text_center :: "string \<Rightarrow> int \<Rightarrow> nat \<Rightarrow> (int \<times> int \<times> int) list" where
  "m_draw_text_center s y scale =
     (let w = m_text_width s scale 1; x = (64 - w) div 2 in m_draw_text s x y scale 1 1)"

section \<open>Rectangles and sprites\<close>

definition m_draw_rect :: "int \<Rightarrow> int \<Rightarrow> int \<Rightarrow> int \<Rightarrow> int \<Rightarrow> (int \<times> int \<times> int) list" where
  "m_draw_rect x y w h c =
     concat (map (\<lambda>i. [(x + int i, y, c), (x + int i, y + h - 1, c)]) [0..<nat w]) @
     concat (map (\<lambda>j. [(x, y + int j, c), (x + w - 1, y + int j, c)]) [0..<nat h])"

definition draw_flag :: "int \<Rightarrow> int \<Rightarrow> (int \<times> int \<times> int) list" where
  "draw_flag cx cy =
     [(cx, cy - 2, 1), (cx, cy - 1, 1), (cx, cy, 1), (cx, cy + 1, 1), (cx + 1, cy - 2, 1),
      (cx + 2, cy - 1, 1), (cx + 1, cy, 1), (cx - 1, cy + 2, 1), (cx, cy + 2, 1), (cx + 1, cy + 2, 1)]"

definition draw_mine :: "int \<Rightarrow> int \<Rightarrow> (int \<times> int \<times> int) list" where
  "draw_mine cx cy =
     [(cx, cy, 1)] @ concat (map (\<lambda>d. [(cx + d, cy, 1), (cx, cy + d, 1)]) [-2, -1, 1, 2]) @
     [(cx - 1, cy - 1, 1), (cx + 1, cy - 1, 1), (cx - 1, cy + 1, 1), (cx + 1, cy + 1, 1)]"

section \<open>The grid\<close>

definition MCELL :: int where "MCELL = 7"
definition MGAP :: int where "MGAP = 1"
definition MGRID_W :: int where "MGRID_W = int COLS * MCELL + (int COLS - 1) * MGAP"
definition MGRID_H :: int where "MGRID_H = int ROWS * MCELL + (int ROWS - 1) * MGAP"
definition MGRID_X :: int where "MGRID_X = (64 - MGRID_W) div 2"
definition MGRID_Y :: int where "MGRID_Y = 22"

definition draw_header :: "int \<Rightarrow> int \<Rightarrow> (int \<times> int \<times> int) list" where
  "draw_header mines_left elapsed_ms =
     m_draw_text ''MINES'' 2 2 1 1 1 @ m_draw_text (py_str mines_left) 2 10 1 1 1 @
     m_draw_text ''TIME'' 40 2 1 1 1 @ m_draw_text (py_str (elapsed_ms div 1000)) 40 10 1 1 1"

text \<open>What a cell shows inside its outline: a flag or, at the end, a mine on a covered cell;
  a mine or its count (when positive) on a revealed one.\<close>

definition draw_cell_content :: "bool grid \<Rightarrow> int grid \<Rightarrow> nat grid \<Rightarrow> bool grid \<Rightarrow> bool \<Rightarrow> nat \<Rightarrow> nat \<Rightarrow>
                                 int \<Rightarrow> int \<Rightarrow> (int \<times> int \<times> int) list" where
  "draw_cell_content mines nums vis flag reveal_all r c x y =
     (if vis ! r ! c = COVERED then
        (if flag ! r ! c then draw_flag (x + MCELL div 2) (y + MCELL div 2)
         else if reveal_all \<and> mines ! r ! c then draw_mine (x + MCELL div 2) (y + MCELL div 2)
         else [])
      else if mines ! r ! c then draw_mine (x + MCELL div 2) (y + MCELL div 2)
      else (let n = nums ! r ! c
            in if 0 < n then
                 (let s = py_str n; tw = m_text_width s 1 0; tx = x + (MCELL - tw) div 2;
                      ty = y + (MCELL - 5) div 2
                  in m_draw_text s tx ty 1 0 1)
               else []))"

definition draw_cell :: "bool grid \<Rightarrow> int grid \<Rightarrow> nat grid \<Rightarrow> bool grid \<Rightarrow> nat \<Rightarrow> nat \<Rightarrow> bool \<Rightarrow>
                         nat \<Rightarrow> nat \<Rightarrow> (int \<times> int \<times> int) list" where
  "draw_cell mines nums vis flag cur_r cur_c reveal_all r c =
     (let x = MGRID_X + int c * (MCELL + MGAP); y = MGRID_Y + int r * (MCELL + MGAP)
      in m_draw_rect x y MCELL MCELL 1 @
         (if r = cur_r \<and> c = cur_c then m_draw_rect (x - 1) (y - 1) (MCELL + 2) (MCELL + 2) 1 else []) @
         draw_cell_content mines nums vis flag reveal_all r c x y)"

definition draw_grid :: "bool grid \<Rightarrow> int grid \<Rightarrow> nat grid \<Rightarrow> bool grid \<Rightarrow> nat \<Rightarrow> nat \<Rightarrow> bool \<Rightarrow>
                         (int \<times> int \<times> int) list" where
  "draw_grid mines nums vis flag cur_r cur_c reveal_all =
     concat (map (\<lambda>r. concat (map (\<lambda>c. draw_cell mines nums vis flag cur_r cur_c reveal_all r c) [0..<COLS]))
                 [0..<ROWS])"

definition draw_hints :: "(int \<times> int \<times> int) list" where
  "draw_hints = m_draw_text_center ''UD REVEAL'' 96 1 @ m_draw_text_center ''LR FLAG'' 108 1"

definition render_game :: "ssd1306 \<Rightarrow> bool grid \<Rightarrow> int grid \<Rightarrow> nat grid \<Rightarrow> bool grid \<Rightarrow> nat \<Rightarrow> nat \<Rightarrow>
                           int \<Rightarrow> int \<Rightarrow> bool \<Rightarrow> drv_error + ssd1306" where
  "render_game oled mines nums vis flag cur_r cur_c mines_left elapsed_ms reveal_all =
     show_disp (draw_all (fill_d oled 0)
       (draw_header mines_left elapsed_ms @ draw_grid mines nums vis flag cur_r cur_c reveal_all @ draw_hints))"

section \<open>Screens\<close>

definition ms_title_pixels :: "(int \<times> int \<times> int) list" where
  "ms_title_pixels =
     m_draw_text_center ''MINE'' 22 3 @ m_draw_text_center ''SWEEPER'' 48 2 @
     m_draw_text_center ''UP START'' 82 2 @ m_draw_text_center ''DN MENU'' 104 2"

definition ms_end_pixels :: "bool \<Rightarrow> int \<Rightarrow> (int \<times> int \<times> int) list" where
  "ms_end_pixels win elapsed_ms =
     (if win then m_draw_text_center ''YOU WIN'' 10 2 else m_draw_text_center ''BOOM'' 10 3) @
     m_draw_text_center ''TIME'' 44 2 @ m_draw_text_center (py_str (elapsed_ms div 1000)) 62 2 @
     m_draw_text_center ''UP AGAIN'' 88 2 @ m_draw_text_center ''DN MENU'' 108 2"

section \<open>Lemmas\<close>

lemma m_text_width_eq: "m_text_width = text_width_3x5"
  by (intro ext) (simp add: m_text_width_def text_width_3x5_def)

lemma m_text_extent:
  "(px, py, c') \<in> set (m_draw_text s x y scale spacing c) \<Longrightarrow>
   x \<le> px \<and> px < x + m_text_width s scale spacing \<and> y \<le> py \<and> py < y + int (5 * scale)"
  unfolding m_draw_text_def m_text_width_eq by (rule text_px_extent)

lemma py_str_digit: "0 < n \<Longrightarrow> n < 10 \<Longrightarrow> length (py_str n) = 1"
proof -
  assume "0 < n" "n < 10"
  then have "nat n < 10" by simp
  with \<open>0 < n\<close> show ?thesis by (simp add: py_str_def py_str_nat.simps [of "nat n"])
qed

lemma flag_inside: "(px, py, c) \<in> set (draw_flag cx cy) \<Longrightarrow> cx - 1 \<le> px \<and> px \<le> cx + 2 \<and> cy - 2 \<le> py \<and> py \<le> cy + 2"
  and mine_inside: "(px, py, c) \<in> set (draw_mine cx cy) \<Longrightarrow> cx - 2 \<le> px \<and> px \<le> cx + 2 \<and> cy - 2 \<le> py \<and> py \<le> cy + 2"
  by (auto simp: draw_flag_def draw_mine_def)

text \<open>
  C39: what \<open>draw_cell\<close> puts inside a cell (a flag, a mine, or a count of one digit, as
  every count of the board is) lies strictly inside the cell's 7x7 outline drawn at
  \<open>(x, y)\<close>, so neither the outline nor a neighbouring cell is drawn over.
\<close>

theorem cell_content_inside:
  assumes "nums ! r ! c < 10" "(px, py, c') \<in> set (draw_cell_content mines nums vis flag ra r c x y)"
  shows "x < px \<and> px < x + MCELL - 1 \<and> y < py \<and> py < y + MCELL - 1"
proof -
  let ?n = "nums ! r ! c"
  have num: "x + 2 \<le> px \<and> px < x + 5 \<and> y + 1 \<le> py \<and> py < y + 6"
    if "0 < ?n" "(px, py, c') \<in> set (m_draw_text (py_str ?n) (x + 2) (y + 1) 1 0 1)"
  proof -
    have "m_text_width (py_str ?n) 1 0 = 3"
      using py_str_digit [OF that(1) assms(1)] by (cases "py_str ?n") (simp_all add: m_text_width_def)
    with m_text_extent [OF that(2)] show ?thesis by simp
  qed
  have "m_text_width (py_str ?n) 1 0 = 3" if "0 < ?n"
    using py_str_digit [OF that assms(1)] by (cases "py_str ?n") (simp_all add: m_text_width_def)
  then show ?thesis
    using assms(2) num flag_inside [of px py c' "x + 3" "y + 3"] mine_inside [of px py c' "x + 3" "y + 3"]
    by (auto simp: draw_cell_content_def MCELL_def Let_def split: if_splits)
qed

theorem cell_content_inside_witness:
  "[[3::int]] ! 0 ! 0 < 10 \<and>
   (12, 21, 1) \<in> set (draw_cell_content [[False]] [[3]] [[REVEALED]] [[False]] False 0 0 10 20) \<and>
   10 < (12::int) \<and> 12 < 10 + MCELL - 1 \<and> 20 < (21::int) \<and> 21 < 20 + MCELL - 1"
proof -
  have m: "(12, 21, 1) \<in> set (draw_cell_content [[False]] [[3]] [[REVEALED]] [[False]] False 0 0 10 20)"
    by code_simp
  have "[[3::int]] ! 0 ! 0 < 10" by simp
  from cell_content_inside [OF this m] m show ?thesis by simp
qed

end
