(* ===== verification/Asteroids.thy ===== *)
theory Asteroids
  imports Input
begin

text \<open>
  The game state of \<open>src/asteroids.py\<close>: fixed-point positions (\<open>FP = 256\<close>) wrapped on the
  64x128 playfield by \<open>wrap_fp\<close>, the 16-direction table \<open>DIR\<close>, asteroid spawning with the
  results of \<open>random\<close> as a stream, and one pass of the \<open>play_once\<close> loop split as the code
  is: input, physics, bullet hits, ship hit, next wave. The drawing goes through the SH1106
  driver, which is not in the repository, and is not modelled.
\<close>

unbundle bit_operations_syntax

section \<open>Fixed point and directions\<close>

definition FP :: int where "FP = 256"
definition AW :: int where "AW = 64"
definition AH :: int where "AH = 128"

text \<open>\<open>wrap_fp\<close>: one correction by the playfield size, in either direction.\<close>

definition wrap_fp :: "int \<Rightarrow> int \<Rightarrow> int" where
  "wrap_fp x_fp max_px =
     (let max_fp = max_px * FP
      in if x_fp < 0 then x_fp + max_fp else if max_fp \<le> x_fp then x_fp - max_fp else x_fp)"

definition DIR :: "(int \<times> int) list" where
  "DIR = [(0, -256), (98, -236), (181, -181), (236, -98), (256, 0), (236, 98), (181, 181), (98, 236),
          (0, 256), (-98, 236), (-181, 181), (-236, 98), (-256, 0), (-236, -98), (-181, -181), (-98, -236)]"

definition dist2 :: "int \<Rightarrow> int \<Rightarrow> int \<Rightarrow> int \<Rightarrow> int" where
  "dist2 x0 y0 x1 y1 = (let dx = x0 - x1; dy = y0 - y1 in dx * dx + dy * dy)"

section \<open>Random draws\<close>

text \<open>
  The values \<open>random\<close> returns, as a stream indexed by a draw counter: \<open>randint(a, b)\<close> is
  \<open>a + r mod (b - a + 1)\<close>, \<open>getrandbits(4)\<close> is \<open>r mod 16\<close>, \<open>choice\<close> of three is
  \<open>r mod 3\<close>; every value in range is some draw.
\<close>

type_synonym rng = "nat \<Rightarrow> int"

definition randint :: "rng \<Rightarrow> nat \<Rightarrow> int \<Rightarrow> int \<Rightarrow> int" where
  "randint rnd i a b = a + rnd i mod (b - a + 1)"

definition SHAPES :: "(int \<times> int) list list" where
  "SHAPES =
    [[(-4, -1), (-2, -4), (1, -4), (4, -2), (3, 2), (1, 4), (-2, 3), (-4, 1)],
     [(-4, -2), (-1, -4), (2, -3), (4, -1), (3, 3), (0, 4), (-3, 2), (-2, 0)],
     [(-3, -4), (1, -4), (4, -1), (2, 1), (4, 4), (0, 3), (-4, 4), (-2, 0)]]"

section \<open>Asteroids and bullets\<close>

record asteroid =
  a_x :: int
  a_y :: int
  a_vx :: int
  a_vy :: int
  a_size :: int
  a_s :: int
  a_r2 :: int
  a_pts :: "(int \<times> int) list"

record bullet =
  b_x :: int
  b_y :: int
  b_vx :: int
  b_vy :: int
  b_ttl :: int

definition size_radius :: "int \<Rightarrow> int" where
  "size_radius sz = (if sz = 3 then 12 else if sz = 2 then 8 else 5)"

text \<open>
  The spawn loop of \<open>spawn_asteroid\<close>: up to \<open>n\<close> tries for a point more than 22 pixels
  from the ship; after the last try its point is kept whatever its distance.
\<close>

fun spawn_try :: "rng \<Rightarrow> nat \<Rightarrow> nat \<Rightarrow> int \<Rightarrow> int \<Rightarrow> int \<times> int \<times> nat" where
  "spawn_try rnd i n avoid_x avoid_y =
     (let x = randint rnd i 0 (AW - 1); y = randint rnd (i + 1) 10 (AH - 1)
      in if (x - avoid_x) * (x - avoid_x) + (y - avoid_y) * (y - avoid_y) > 22 * 22 \<or> n \<le> 1
         then (x, y, i + 2) else spawn_try rnd (i + 2) (n - 1) avoid_x avoid_y)"

definition spawn_asteroid :: "rng \<Rightarrow> nat \<Rightarrow> int \<Rightarrow> int \<Rightarrow> int \<Rightarrow> asteroid \<times> nat" where
  "spawn_asteroid rnd i sz avoid_x avoid_y =
     (let (x, y, i1) = spawn_try rnd i 20 avoid_x avoid_y;
          ang = rnd i1 mod 16; (dx, dy) = DIR ! nat ang; speed = randint rnd (i1 + 1) 40 90;
          r = size_radius sz
      in (\<lparr>a_x = x * FP, a_y = y * FP, a_vx = dx * speed div 256, a_vy = dy * speed div 256,
           a_size = sz, a_s = r, a_r2 = r ^ 2, a_pts = SHAPES ! nat (rnd (i1 + 2) mod 3)\<rparr>, i1 + 3))"

primrec spawn_wave :: "rng \<Rightarrow> nat \<Rightarrow> nat \<Rightarrow> int \<Rightarrow> int \<Rightarrow> asteroid list \<times> nat" where
  "spawn_wave rnd i 0 sx sy = ([], i)"
| "spawn_wave rnd i (Suc n) sx sy =
     (let (a, i1) = spawn_asteroid rnd i 3 sx sy; (as, i2) = spawn_wave rnd i1 n sx sy in (a # as, i2))"

section \<open>The game state\<close>

record astate =
  g_score :: int
  g_lives :: int
  g_wave :: int
  g_sx :: int
  g_sy :: int
  g_svx :: int
  g_svy :: int
  g_ang :: int
  g_invuln :: int
  g_bullets :: "bullet list"
  g_asts :: "asteroid list"
  g_last_fire :: int
  g_eb :: edge_buttons
  g_rnd :: nat

text \<open>\<open>EdgeButtons.update\<close> of this game also returns the four held levels.\<close>

definition ast_eb_update :: "edge_buttons \<Rightarrow> sample \<Rightarrow> edge_buttons \<times> edges \<times> bool \<times> bool \<times> bool \<times> bool" where
  "ast_eb_update eb s =
     (let (eb', e) = eb_update eb s in (eb', e, s_up s = 0, s_dn s = 0, s_lf s = 0, s_rt s = 0))"

definition ast_start :: "rng \<Rightarrow> nat \<Rightarrow> astate" where
  "ast_start rnd i =
     (let (as, i1) = spawn_wave rnd i 3 (AW div 2) (AH div 2)
      in \<lparr>g_score = 0, g_lives = 3, g_wave = 1, g_sx = (AW div 2) * FP, g_sy = (AH div 2) * FP,
          g_svx = 0, g_svy = 0, g_ang = 0, g_invuln = 0, g_bullets = [], g_asts = as, g_last_fire = 0,
          g_eb = EdgeButtons, g_rnd = i1\<rparr>)"

section \<open>One pass of the loop\<close>

text \<open>Input: turn while LEFT or RIGHT is held, thrust while UP is held, fire on a DOWN press
  at most every 140 ms.\<close>

definition ast_input :: "astate \<Rightarrow> int \<Rightarrow> bool \<Rightarrow> bool \<Rightarrow> bool \<Rightarrow> bool \<Rightarrow> astate" where
  "ast_input st now pd held_u held_l held_r =
     (let a1 = (if held_l then (g_ang st - 1) AND 15 else g_ang st);
          a2 = (if held_r then (a1 + 1) AND 15 else a1);
          (tx, ty) = DIR ! nat a2;
          vx = (if held_u then g_svx st + tx * 10 div 256 else g_svx st);
          vy = (if held_u then g_svy st + ty * 10 div 256 else g_svy st);
          st1 = st\<lparr>g_ang := a2, g_svx := vx, g_svy := vy\<rparr>
      in if pd \<and> now - g_last_fire st > 140 then
           (let (dx, dy) = DIR ! nat a2
            in st1\<lparr>g_bullets := g_bullets st @ [\<lparr>b_x = g_sx st + dx * 7, b_y = g_sy st + dy * 7,
                                                  b_vx = vx + dx * 180 div 256, b_vy = vy + dy * 180 div 256,
                                                  b_ttl = 38\<rparr>],
                   g_last_fire := now\<rparr>)
         else st1)"

definition friction :: "int \<Rightarrow> int" where
  "friction v = v * 245 div 256"

definition move_ast :: "asteroid \<Rightarrow> asteroid" where
  "move_ast a = a\<lparr>a_x := wrap_fp (a_x a + a_vx a) AW, a_y := wrap_fp (a_y a + a_vy a) AH\<rparr>"

definition move_bullet :: "bullet \<Rightarrow> bullet" where
  "move_bullet b = b\<lparr>b_x := wrap_fp (b_x b + b_vx b) AW, b_y := wrap_fp (b_y b + b_vy b) AH, b_ttl := b_ttl b - 1\<rparr>"

text \<open>Physics: friction, the ship, the asteroids, then the bullets, dropping expired ones.\<close>

definition ast_physics :: "astate \<Rightarrow> astate" where
  "ast_physics st =
     (let vx = friction (g_svx st); vy = friction (g_svy st)
      in st\<lparr>g_svx := vx, g_svy := vy, g_sx := wrap_fp (g_sx st + vx) AW, g_sy := wrap_fp (g_sy st + vy) AH,
            g_asts := map move_ast (g_asts st),
            g_bullets := filter (\<lambda>b. 0 < b_ttl b) (map move_bullet (g_bullets st))\<rparr>)"

text \<open>The inner loop over the bullets: the first one within the asteroid's radius. It does
  not look at \<open>ttl\<close>, so a bullet that already hit an asteroid in this pass can hit another.\<close>

fun first_hit :: "int \<Rightarrow> int \<Rightarrow> int \<Rightarrow> bullet list \<Rightarrow> nat option" where
  "first_hit ax ay r2 [] = None"
| "first_hit ax ay r2 (b # bs) =
     (if dist2 ax ay (b_x b div FP) (b_y b div FP) \<le> r2 then Some 0 else map_option Suc (first_hit ax ay r2 bs))"

definition hit_points :: "int \<Rightarrow> int" where
  "hit_points sz = (if sz = 3 then 20 else if sz = 2 then 50 else 100)"

text \<open>A fragment: a fresh asteroid of the next size at the parent's position, its velocity
  nudged by two further draws.\<close>

definition split_child :: "rng \<Rightarrow> nat \<Rightarrow> asteroid \<Rightarrow> int \<Rightarrow> int \<Rightarrow> asteroid \<times> nat" where
  "split_child rnd i a spx spy =
     (let (na, i1) = spawn_asteroid rnd i (a_size a - 1) spx spy
      in (na\<lparr>a_x := a_x a, a_y := a_y a, a_vx := a_vx na + randint rnd i1 (-35) 35,
             a_vy := a_vy na + randint rnd (i1 + 1) (-35) 35\<rparr>, i1 + 2))"

type_synonym hit_acc = "asteroid list \<times> bullet list \<times> bool \<times> int \<times> nat"

definition hit_one :: "rng \<Rightarrow> int \<Rightarrow> int \<Rightarrow> asteroid \<Rightarrow> hit_acc \<Rightarrow> hit_acc" where
  "hit_one rnd spx spy a acc =
     (let (news, bs, hit_any, score, i) = acc
      in case first_hit (a_x a div FP) (a_y a div FP) (a_r2 a) bs of
           None \<Rightarrow> (news @ [a], bs, hit_any, score, i)
         | Some k \<Rightarrow>
             (let bs' = bs[k := (bs ! k)\<lparr>b_ttl := 0\<rparr>]; score' = score + hit_points (a_size a)
              in if 1 < a_size a then
                   (let (c1, i1) = split_child rnd i a spx spy; (c2, i2) = split_child rnd i1 a spx spy
                    in (news @ [c1, c2], bs', True, score', i2))
                 else (news, bs', True, score', i)))"

definition ast_hits :: "rng \<Rightarrow> astate \<Rightarrow> astate" where
  "ast_hits rnd st =
     (let spx = g_sx st div FP; spy = g_sy st div FP;
          (news, bs, hit_any, score, i) = fold (hit_one rnd spx spy) (g_asts st) ([], g_bullets st, False, g_score st, g_rnd st)
      in st\<lparr>g_asts := news, g_bullets := (if hit_any then filter (\<lambda>b. 0 < b_ttl b) bs else bs),
            g_score := score, g_rnd := i\<rparr>)"

datatype aout = AGo astate | AOver int int

text \<open>Ship against asteroids once the invulnerability has run out: one life per pass; the
  last one ends \<open>play_once\<close> with the score and the wave.\<close>

definition ast_ship_hit :: "astate \<Rightarrow> int \<Rightarrow> aout" where
  "ast_ship_hit st now =
     (let spx = g_sx st div FP; spy = g_sy st div FP
      in if 0 \<le> now - g_invuln st \<and>
            list_ex (\<lambda>a. dist2 (a_x a div FP) (a_y a div FP) spx spy \<le> (a_s a + 4) * (a_s a + 4)) (g_asts st)
         then (if g_lives st - 1 \<le> 0 then AOver (g_score st) (g_wave st)
               else AGo (st\<lparr>g_lives := g_lives st - 1, g_sx := (AW div 2) * FP, g_sy := (AH div 2) * FP,
                            g_svx := 0, g_svy := 0, g_ang := 0, g_bullets := [], g_invuln := now + 1800\<rparr>))
         else AGo st)"

text \<open>A new wave when no asteroid is left; the clock after the 0.6 s banner is \<open>now + 600\<close>.\<close>

definition ast_next_wave :: "rng \<Rightarrow> astate \<Rightarrow> int \<Rightarrow> astate" where
  "ast_next_wave rnd st now =
     (if g_asts st = [] then
        (let w = g_wave st + 1;
             (as, i) = spawn_wave rnd (g_rnd st) (nat (min 6 (2 + w))) (g_sx st div FP) (g_sy st div FP)
         in st\<lparr>g_wave := w, g_asts := as, g_rnd := i, g_invuln := now + 600 + 1200\<rparr>)
      else st)"

definition ast_tick :: "rng \<Rightarrow> astate \<Rightarrow> sample \<Rightarrow> aout" where
  "ast_tick rnd st s =
     (let now = int (s_t s); (eb', (pu, pd, pl, pr), held_u, held_d, held_l, held_r) = ast_eb_update (g_eb st) s;
          st1 = ast_hits rnd (ast_physics (ast_input (st\<lparr>g_eb := eb'\<rparr>) now pd held_u held_l held_r))
      in case ast_ship_hit st1 now of
           AOver sc w \<Rightarrow> AOver sc w
         | AGo st2 \<Rightarrow> AGo (ast_next_wave rnd st2 now))"

fun ast_run :: "rng \<Rightarrow> astate \<Rightarrow> sample list \<Rightarrow> aout" where
  "ast_run rnd st [] = AGo st"
| "ast_run rnd st (s # ss) = (case ast_tick rnd st s of AGo st' \<Rightarrow> ast_run rnd st' ss | out \<Rightarrow> out)"

section \<open>Invariant\<close>

text \<open>Positions on the playfield, bounded velocities, sizes 1 to 3 with their radius.\<close>

definition on_field :: "int \<Rightarrow> int \<Rightarrow> bool" where
  "on_field x y \<longleftrightarrow> 0 \<le> x \<and> x < AW * FP \<and> 0 \<le> y \<and> y < AH * FP"

definition ast_ok :: "asteroid \<Rightarrow> bool" where
  "ast_ok a \<longleftrightarrow> on_field (a_x a) (a_y a) \<and> \<bar>a_vx a\<bar> \<le> 125 \<and> \<bar>a_vy a\<bar> \<le> 125 \<and>
     1 \<le> a_size a \<and> a_size a \<le> 3 \<and> a_s a = size_radius (a_size a)"

definition bullet_ok :: "bullet \<Rightarrow> bool" where
  "bullet_ok b \<longleftrightarrow> on_field (b_x b) (b_y b) \<and> \<bar>b_vx b\<bar> \<le> 446 \<and> \<bar>b_vy b\<bar> \<le> 446"

text \<open>A bullet just fired: up to seven direction units off the field.\<close>

definition bullet_pre :: "bullet \<Rightarrow> bool" where
  "bullet_pre b \<longleftrightarrow> -1792 \<le> b_x b \<and> b_x b < AW * FP + 1792 \<and> -1792 \<le> b_y b \<and> b_y b < AH * FP + 1792 \<and>
     \<bar>b_vx b\<bar> \<le> 446 \<and> \<bar>b_vy b\<bar> \<le> 446"

definition ast_inv :: "astate \<Rightarrow> bool" where
  "ast_inv st \<longleftrightarrow> on_field (g_sx st) (g_sy st) \<and> \<bar>g_svx st\<bar> \<le> 256 \<and> \<bar>g_svy st\<bar> \<le> 256 \<and>
     0 \<le> g_ang st \<and> g_ang st < 16 \<and> 0 < g_lives st \<and>
     list_all bullet_ok (g_bullets st) \<and> list_all ast_ok (g_asts st)"

text \<open>Between input and physics: the thrust may have pushed the speed to 266 and a new
  bullet may lie off the field until it moves.\<close>

definition pre_phys :: "astate \<Rightarrow> bool" where
  "pre_phys st \<longleftrightarrow> on_field (g_sx st) (g_sy st) \<and> \<bar>g_svx st\<bar> \<le> 266 \<and> \<bar>g_svy st\<bar> \<le> 266 \<and>
     0 \<le> g_ang st \<and> g_ang st < 16 \<and> 0 < g_lives st \<and>
     list_all bullet_pre (g_bullets st) \<and> list_all ast_ok (g_asts st)"

section \<open>Arithmetic\<close>

lemma wrap_fp_range:
  assumes "0 < m" "- (m * FP) \<le> x" "x < 2 * (m * FP)"
  shows "0 \<le> wrap_fp x m \<and> wrap_fp x m < m * FP"
  using assms by (simp add: wrap_fp_def FP_def Let_def)

lemma div256_bound:
  fixes p k :: int
  assumes "\<bar>p\<bar> \<le> 256 * k"
  shows "\<bar>p div 256\<bar> \<le> k"
proof -
  have "p div 256 \<le> (256 * k) div 256" using assms by (intro zdiv_mono1) auto
  moreover have "(- (256 * k)) div 256 \<le> p div 256" using assms by (intro zdiv_mono1) auto
  ultimately show ?thesis by simp
qed

lemma abs_mult_le:
  fixes a b :: int
  assumes "\<bar>a\<bar> \<le> A" "\<bar>b\<bar> \<le> B"
  shows "\<bar>a * b\<bar> \<le> A * B"
  using assms by (simp add: abs_mult mult_mono')

lemma abs_add_le: "\<bar>a\<bar> \<le> A \<Longrightarrow> \<bar>b\<bar> \<le> B \<Longrightarrow> \<bar>a + b\<bar> \<le> A + (B::int)"
  by arith

lemma DIR_bound: "(dx, dy) \<in> set DIR \<Longrightarrow> \<bar>dx\<bar> \<le> 256 \<and> \<bar>dy\<bar> \<le> 256"
  by (auto simp: DIR_def)

lemma DIR_nth: "0 \<le> a \<Longrightarrow> a < 16 \<Longrightarrow> DIR ! nat a \<in> set DIR"
  by (rule nth_mem) (simp add: DIR_def)

lemma and_15_range: "0 \<le> (x::int) AND 15 \<and> x AND 15 < 16"
proof -
  have "x AND 15 = take_bit 4 x" by (simp add: take_bit_eq_mask mask_eq_exp_minus_1)
  then show ?thesis by (simp add: take_bit_eq_mod)
qed

lemma randint_range: "a \<le> b \<Longrightarrow> a \<le> randint rnd i a b \<and> randint rnd i a b \<le> b"
proof -
  assume "a \<le> b"
  then have "0 < b - a + 1" by simp
  from pos_mod_bound [OF this, of "rnd i"] pos_mod_sign [OF this, of "rnd i"] show ?thesis
    by (simp add: randint_def)
qed

lemma friction_bound: "\<bar>v\<bar> \<le> 266 \<Longrightarrow> \<bar>friction v\<bar> \<le> 256"
  unfolding friction_def by (rule div256_bound) (simp add: abs_mult)

text \<open>Friction floors towards minus infinity: a velocity between -23 and -1 is a fixed point,
  so a ship moving up or left never stops, while positive velocities decay to zero.\<close>

lemma friction_drift: "-23 \<le> v \<Longrightarrow> v < 0 \<Longrightarrow> friction v = v"
  unfolding friction_def by (rule int_div_pos_eq [where r = "v * 245 - 256 * v"]) auto

lemma friction_decays: "0 < v \<Longrightarrow> friction v < v"
  unfolding friction_def by (simp add: div_less_iff_less_mult)

lemma friction_nonneg: "0 \<le> v \<Longrightarrow> 0 \<le> friction v"
  unfolding friction_def by simp

lemma friction_iter_stops:
  "0 \<le> v \<Longrightarrow> 0 \<le> (friction ^^ k) v \<and> (friction ^^ k) v \<le> max 0 (v - int k)"
proof (induction k)
  case 0
  then show ?case by simp
next
  case (Suc k)
  let ?w = "(friction ^^ k) v"
  from Suc have w: "0 \<le> ?w" "?w \<le> max 0 (v - int k)" by simp_all
  show ?case
  proof (cases "?w = 0")
    case True
    moreover have "friction 0 = 0" by (simp add: friction_def)
    ultimately show ?thesis by simp
  next
    case False
    with w have "0 < ?w" "?w \<le> v - int k" by auto
    with friction_decays [of ?w] friction_nonneg [of ?w] show ?thesis by simp
  qed
qed

lemma friction_iter_drift: "-23 \<le> v \<Longrightarrow> v < 0 \<Longrightarrow> (friction ^^ k) v = v"
  by (induction k) (simp_all add: friction_drift)

lemma ship_velocity_coast:
  "g_svx ((ast_physics ^^ k) st) = (friction ^^ k) (g_svx st) \<and>
   g_svy ((ast_physics ^^ k) st) = (friction ^^ k) (g_svy st)"
  by (induction k) (simp_all add: ast_physics_def Let_def)

section \<open>Spawning\<close>

lemma spawn_try_range:
  "spawn_try rnd i n ax ay = (x, y, i') \<Longrightarrow> 0 \<le> x \<and> x \<le> 63 \<and> 10 \<le> y \<and> y \<le> 127"
proof (induction rnd i n ax ay rule: spawn_try.induct)
  case (1 rnd i n ax ay)
  have "0 \<le> randint rnd i 0 (AW - 1) \<and> randint rnd i 0 (AW - 1) \<le> 63"
    using randint_range [of 0 "AW - 1" rnd i] by (simp add: AW_def)
  moreover have "10 \<le> randint rnd (i + 1) 10 (AH - 1) \<and> randint rnd (i + 1) 10 (AH - 1) \<le> 127"
    using randint_range [of 10 "AH - 1" rnd "i + 1"] by (simp add: AH_def)
  ultimately show ?case using 1 by (auto simp: Let_def simp del: spawn_try.simps
    split: if_splits elim: spawn_try.elims)
qed

lemma dir_speed_bound:
  assumes "(dx, dy) \<in> set DIR" "\<bar>sp\<bar> \<le> 90"
  shows "\<bar>dx * sp div 256\<bar> \<le> 90 \<and> \<bar>dy * sp div 256\<bar> \<le> 90"
proof -
  have "\<bar>dx\<bar> \<le> 256" "\<bar>dy\<bar> \<le> 256" using DIR_bound [OF assms(1)] by auto
  then have "\<bar>dx * sp\<bar> \<le> 256 * 90" "\<bar>dy * sp\<bar> \<le> 256 * 90"
    using abs_mult_le assms(2) by blast+
  then show ?thesis using div256_bound by blast
qed

lemma spawn_asteroid_ok:
  assumes "1 \<le> sz" "sz \<le> 3" "spawn_asteroid rnd i sz ax ay = (a, i')"
  shows "ast_ok a \<and> \<bar>a_vx a\<bar> \<le> 90 \<and> \<bar>a_vy a\<bar> \<le> 90"
proof -
  obtain x y i1 where t: "spawn_try rnd i 20 ax ay = (x, y, i1)" by (cases "spawn_try rnd i 20 ax ay") auto
  obtain dx dy where d: "DIR ! nat (rnd i1 mod 16) = (dx, dy)" by (cases "DIR ! nat (rnd i1 mod 16)") auto
  have "(dx, dy) \<in> set DIR" using DIR_nth [of "rnd i1 mod 16"] d by simp
  moreover have "\<bar>randint rnd (i1 + 1) 40 90\<bar> \<le> 90" using randint_range [of 40 90 rnd "i1 + 1"] by simp
  ultimately have v: "\<bar>dx * randint rnd (i1 + 1) 40 90 div 256\<bar> \<le> 90 \<and> \<bar>dy * randint rnd (i1 + 1) 40 90 div 256\<bar> \<le> 90"
    by (rule dir_speed_bound)
  have "0 \<le> x \<and> x \<le> 63 \<and> 10 \<le> y \<and> y \<le> 127" by (rule spawn_try_range [OF t])
  then show ?thesis
    using assms v t d by (auto simp: spawn_asteroid_def ast_ok_def on_field_def FP_def AW_def AH_def Let_def)
qed

lemma spawn_wave_ok: "spawn_wave rnd i n sx sy = (as, i') \<Longrightarrow> list_all ast_ok as"
proof (induction n arbitrary: i as i')
  case 0 then show ?case by simp
next
  case (Suc n)
  obtain a i1 where a: "spawn_asteroid rnd i 3 sx sy = (a, i1)" by (cases "spawn_asteroid rnd i 3 sx sy") auto
  obtain as' i2 where w: "spawn_wave rnd i1 n sx sy = (as', i2)" by (cases "spawn_wave rnd i1 n sx sy") auto
  have "ast_ok a" using spawn_asteroid_ok [OF _ _ a] by simp
  with Suc.IH [OF w] Suc.prems a w show ?case by auto
qed

lemma split_child_ok:
  assumes "ast_ok a" "1 < a_size a" "split_child rnd i a spx spy = (c, i')"
  shows "ast_ok c"
proof -
  obtain na i1 where n: "spawn_asteroid rnd i (a_size a - 1) spx spy = (na, i1)"
    by (cases "spawn_asteroid rnd i (a_size a - 1) spx spy") auto
  have na: "ast_ok na \<and> \<bar>a_vx na\<bar> \<le> 90 \<and> \<bar>a_vy na\<bar> \<le> 90"
    using assms(1,2) by (intro spawn_asteroid_ok [OF _ _ n]) (simp_all add: ast_ok_def)
  have r1: "-35 \<le> randint rnd i1 (-35) 35 \<and> randint rnd i1 (-35) 35 \<le> 35" by (rule randint_range) simp
  have r2: "-35 \<le> randint rnd (i1 + 1) (-35) 35 \<and> randint rnd (i1 + 1) (-35) 35 \<le> 35" by (rule randint_range) simp
  show ?thesis
    using assms(1,3) n na r1 r2 by (auto simp: split_child_def ast_ok_def Let_def)
qed

section \<open>The phases keep the invariant\<close>

lemma bullet_ok_pre: "bullet_ok b \<Longrightarrow> bullet_pre b"
  by (simp add: bullet_ok_def bullet_pre_def on_field_def)

lemma dir_scaled:
  assumes "(dx, dy) \<in> set DIR"
  shows "\<bar>dx * 10 div 256\<bar> \<le> 10 \<and> \<bar>dy * 10 div 256\<bar> \<le> 10 \<and>
         \<bar>dx * 180 div 256\<bar> \<le> 180 \<and> \<bar>dy * 180 div 256\<bar> \<le> 180 \<and>
         \<bar>dx * 7\<bar> \<le> 1792 \<and> \<bar>dy * 7\<bar> \<le> 1792"
proof -
  have d: "\<bar>dx\<bar> \<le> 256" "\<bar>dy\<bar> \<le> 256" using DIR_bound [OF assms] by auto
  have "\<bar>dx * 10\<bar> \<le> 256 * 10" "\<bar>dy * 10\<bar> \<le> 256 * 10" "\<bar>dx * 180\<bar> \<le> 256 * 180" "\<bar>dy * 180\<bar> \<le> 256 * 180"
    using d by (simp_all add: abs_mult)
  then show ?thesis using d div256_bound by (auto simp: abs_mult)
qed

lemma ast_input_pre:
  assumes inv: "ast_inv st"
  shows "pre_phys (ast_input st now pd hu hl hr)"
proof -
  define a1 where "a1 = (if hl then (g_ang st - 1) AND 15 else g_ang st)"
  define a2 where "a2 = (if hr then (a1 + 1) AND 15 else a1)"
  have ra1: "0 \<le> a1 \<and> a1 < 16" using inv and_15_range [of "g_ang st - 1"] by (simp add: a1_def ast_inv_def)
  then have ra2: "0 \<le> a2 \<and> a2 < 16" using and_15_range [of "a1 + 1"] by (simp add: a2_def)
  obtain tx ty where t: "DIR ! nat a2 = (tx, ty)" by (cases "DIR ! nat a2") auto
  have "(tx, ty) \<in> set DIR" using DIR_nth [of a2] ra2 t by simp
  note sc = dir_scaled [OF this]
  define vx where "vx = (if hu then g_svx st + tx * 10 div 256 else g_svx st)"
  define vy where "vy = (if hu then g_svy st + ty * 10 div 256 else g_svy st)"
  define nb where "nb = \<lparr>b_x = g_sx st + tx * 7, b_y = g_sy st + ty * 7,
                         b_vx = vx + tx * 180 div 256, b_vy = vy + ty * 180 div 256, b_ttl = 38\<rparr>"
  have eq: "ast_input st now pd hu hl hr =
            (if pd \<and> now - g_last_fire st > 140
             then st\<lparr>g_ang := a2, g_svx := vx, g_svy := vy, g_bullets := g_bullets st @ [nb], g_last_fire := now\<rparr>
             else st\<lparr>g_ang := a2, g_svx := vx, g_svy := vy\<rparr>)"
    unfolding ast_input_def Let_def a1_def [symmetric] a2_def [symmetric] t prod.case
      vx_def [symmetric] vy_def [symmetric] nb_def [symmetric] by simp
  have s: "\<bar>g_svx st\<bar> \<le> 256" "\<bar>g_svy st\<bar> \<le> 256" using inv by (simp_all add: ast_inv_def)
  have v: "\<bar>vx\<bar> \<le> 266" "\<bar>vy\<bar> \<le> 266"
    using abs_add_le [OF s(1), of "tx * 10 div 256" 10] abs_add_le [OF s(2), of "ty * 10 div 256" 10] sc s
    by (auto simp: vx_def vy_def)
  have bv: "\<bar>vx + tx * 180 div 256\<bar> \<le> 446" "\<bar>vy + ty * 180 div 256\<bar> \<le> 446"
    using abs_add_le [OF v(1), of "tx * 180 div 256" 180] abs_add_le [OF v(2), of "ty * 180 div 256" 180] sc
    by auto
  have "bullet_pre nb"
    using inv sc bv by (auto simp: nb_def bullet_pre_def ast_inv_def on_field_def abs_le_iff)
  moreover have "list_all bullet_pre (g_bullets st)"
    using inv by (auto simp: ast_inv_def list_all_iff intro: bullet_ok_pre)
  ultimately show ?thesis
    using inv ra2 v by (simp add: eq pre_phys_def ast_inv_def)
qed

lemma move_ast_ok: "ast_ok a \<Longrightarrow> ast_ok (move_ast a)"
  using wrap_fp_range [of AW "a_x a + a_vx a"] wrap_fp_range [of AH "a_y a + a_vy a"]
  by (auto simp: move_ast_def ast_ok_def on_field_def AW_def AH_def FP_def abs_le_iff)

lemma move_bullet_ok: "bullet_pre b \<Longrightarrow> bullet_ok (move_bullet b)"
  using wrap_fp_range [of AW "b_x b + b_vx b"] wrap_fp_range [of AH "b_y b + b_vy b"]
  by (auto simp: move_bullet_def bullet_ok_def bullet_pre_def on_field_def AW_def AH_def FP_def abs_le_iff)

lemma ast_physics_inv: "pre_phys st \<Longrightarrow> ast_inv (ast_physics st)"
proof -
  assume pre: "pre_phys st"
  have f: "\<bar>friction (g_svx st)\<bar> \<le> 256" "\<bar>friction (g_svy st)\<bar> \<le> 256"
    using pre friction_bound by (simp_all add: pre_phys_def)
  have "on_field (wrap_fp (g_sx st + friction (g_svx st)) AW) (wrap_fp (g_sy st + friction (g_svy st)) AH)"
    using pre f wrap_fp_range [of AW "g_sx st + friction (g_svx st)"] wrap_fp_range [of AH "g_sy st + friction (g_svy st)"]
    by (auto simp: pre_phys_def on_field_def AW_def AH_def FP_def abs_le_iff)
  moreover have "list_all bullet_ok (filter (\<lambda>b. 0 < b_ttl b) (map move_bullet (g_bullets st)))"
    using pre move_bullet_ok by (auto simp: pre_phys_def list_all_iff)
  moreover have "list_all ast_ok (map move_ast (g_asts st))"
    using pre move_ast_ok by (auto simp: pre_phys_def list_all_iff)
  ultimately show ?thesis using pre f by (simp add: ast_physics_def ast_inv_def pre_phys_def Let_def)
qed

lemma first_hit_lt: "first_hit ax ay r2 bs = Some k \<Longrightarrow> k < length bs"
  by (induction ax ay r2 bs arbitrary: k rule: first_hit.induct) (auto split: if_splits)

lemma hit_one_ok:
  assumes "ast_ok a" "list_all ast_ok (fst acc) \<and> list_all bullet_ok (fst (snd acc))"
  shows "list_all ast_ok (fst (hit_one rnd spx spy a acc)) \<and> list_all bullet_ok (fst (snd (hit_one rnd spx spy a acc)))"
proof -
  obtain news bs h sc i where acc: "acc = (news, bs, h, sc, i)" by (cases acc) auto
  show ?thesis
  proof (cases "first_hit (a_x a div FP) (a_y a div FP) (a_r2 a) bs")
    case None
    then show ?thesis using assms acc by (simp add: hit_one_def)
  next
    case (Some k)
    have "k < length bs" by (rule first_hit_lt [OF Some])
    then have "bullet_ok ((bs ! k)\<lparr>b_ttl := 0\<rparr>)" using assms(2) acc by (auto simp: list_all_iff bullet_ok_def)
    then have bs': "list_all bullet_ok (bs[k := (bs ! k)\<lparr>b_ttl := 0\<rparr>])"
      using assms(2) acc set_update_subset_insert [of bs k] by (auto simp: list_all_iff)
    show ?thesis
    proof (cases "1 < a_size a")
      case True
      obtain c1 i1 where c1: "split_child rnd i a spx spy = (c1, i1)" by (cases "split_child rnd i a spx spy") auto
      obtain c2 i2 where c2: "split_child rnd i1 a spx spy = (c2, i2)" by (cases "split_child rnd i1 a spx spy") auto
      have "ast_ok c1" "ast_ok c2" using split_child_ok [OF assms(1) True] c1 c2 by blast+
      then show ?thesis using Some True c1 c2 bs' assms(2) acc by (simp add: hit_one_def)
    next
      case False
      then show ?thesis using Some bs' assms(2) acc by (simp add: hit_one_def)
    qed
  qed
qed

lemma fold_hit_one_ok:
  "list_all ast_ok as \<Longrightarrow> list_all ast_ok (fst acc) \<and> list_all bullet_ok (fst (snd acc)) \<Longrightarrow>
   list_all ast_ok (fst (fold (hit_one rnd spx spy) as acc)) \<and>
   list_all bullet_ok (fst (snd (fold (hit_one rnd spx spy) as acc)))"
  by (induction as arbitrary: acc) (simp_all add: hit_one_ok)

lemma ast_hits_inv: "ast_inv st \<Longrightarrow> ast_inv (ast_hits rnd st)"
proof -
  assume inv: "ast_inv st"
  let ?f = "fold (hit_one rnd (g_sx st div FP) (g_sy st div FP)) (g_asts st) ([], g_bullets st, False, g_score st, g_rnd st)"
  obtain news bs h sc i where f: "?f = (news, bs, h, sc, i)" by (cases ?f) auto
  have "list_all ast_ok news \<and> list_all bullet_ok bs"
    using fold_hit_one_ok [of "g_asts st" "([], g_bullets st, False, g_score st, g_rnd st)" rnd
        "g_sx st div FP" "g_sy st div FP"] inv f
    by (simp add: ast_inv_def)
  then show ?thesis using inv f by (auto simp: ast_hits_def ast_inv_def Let_def list_all_iff)
qed

lemma ast_ship_hit_inv: "ast_inv st \<Longrightarrow> ast_ship_hit st now = AGo st' \<Longrightarrow> ast_inv st'"
  by (auto simp: ast_ship_hit_def ast_inv_def on_field_def AW_def AH_def FP_def Let_def split: if_splits)

lemma ast_next_wave_inv: "ast_inv st \<Longrightarrow> ast_inv (ast_next_wave rnd st now)"
proof -
  assume inv: "ast_inv st"
  obtain as i where w: "spawn_wave rnd (g_rnd st) (nat (min 6 (2 + (g_wave st + 1)))) (g_sx st div FP) (g_sy st div FP) = (as, i)"
    by (cases "spawn_wave rnd (g_rnd st) (nat (min 6 (2 + (g_wave st + 1)))) (g_sx st div FP) (g_sy st div FP)") auto
  have "list_all ast_ok as" by (rule spawn_wave_ok [OF w])
  then show ?thesis using inv w by (simp add: ast_next_wave_def ast_inv_def Let_def)
qed

lemma ast_tick_inv: "ast_inv st \<Longrightarrow> ast_tick rnd st s = AGo st' \<Longrightarrow> ast_inv st'"
proof -
  assume inv: "ast_inv st" and t: "ast_tick rnd st s = AGo st'"
  obtain eb' e hu hd hl hr where u: "ast_eb_update (g_eb st) s = (eb', e, hu, hd, hl, hr)"
    by (cases "ast_eb_update (g_eb st) s") auto
  obtain pu pd pl pr where e: "e = (pu, pd, pl, pr)" by (cases e) auto
  let ?st1 = "ast_hits rnd (ast_physics (ast_input (st\<lparr>g_eb := eb'\<rparr>) (int (s_t s)) pd hu hl hr))"
  have "ast_inv (st\<lparr>g_eb := eb'\<rparr>)" using inv by (simp add: ast_inv_def)
  then have i1: "ast_inv ?st1" by (intro ast_hits_inv ast_physics_inv ast_input_pre)
  have tk: "ast_tick rnd st s = (case ast_ship_hit ?st1 (int (s_t s)) of AOver sc w \<Rightarrow> AOver sc w
                                   | AGo st2 \<Rightarrow> AGo (ast_next_wave rnd st2 (int (s_t s))))"
    by (simp add: ast_tick_def u e Let_def)
  show ?thesis
  proof (cases "ast_ship_hit ?st1 (int (s_t s))")
    case (AGo st2)
    then have "ast_inv st2" by (rule ast_ship_hit_inv [OF i1])
    then show ?thesis using t tk AGo by (auto intro: ast_next_wave_inv)
  next
    case (AOver sc w)
    then show ?thesis using t tk by simp
  qed
qed

lemma ast_start_inv: "ast_inv (ast_start rnd i)"
proof -
  obtain as i1 where w: "spawn_wave rnd i 3 (AW div 2) (AH div 2) = (as, i1)"
    by (cases "spawn_wave rnd i 3 (AW div 2) (AH div 2)") auto
  have e: "ast_start rnd i =
           \<lparr>g_score = 0, g_lives = 3, g_wave = 1, g_sx = (AW div 2) * FP, g_sy = (AH div 2) * FP,
            g_svx = 0, g_svy = 0, g_ang = 0, g_invuln = 0, g_bullets = [], g_asts = as, g_last_fire = 0,
            g_eb = EdgeButtons, g_rnd = i1\<rparr>"
    unfolding ast_start_def w by simp
  have "list_all ast_ok as" by (rule spawn_wave_ok [OF w])
  moreover have "on_field ((AW div 2) * FP) ((AH div 2) * FP)" by (simp add: on_field_def AW_def AH_def FP_def)
  ultimately show ?thesis by (simp add: e ast_inv_def)
qed

lemma ast_run_inv: "ast_inv st \<Longrightarrow> ast_run rnd st ss = AGo st' \<Longrightarrow> ast_inv st'"
proof (induction ss arbitrary: st)
  case Nil then show ?case by simp
next
  case (Cons s ss)
  show ?case
  proof (cases "ast_tick rnd st s")
    case (AGo st1)
    have "ast_inv st1" by (rule ast_tick_inv [OF Cons.prems(1) AGo])
    with Cons.IH Cons.prems AGo show ?thesis by simp
  next
    case (AOver a b)
    with Cons.prems show ?thesis by simp
  qed
qed

section \<open>Properties of the game\<close>

text \<open>C11: whatever the button trace and the random draws, every state the \<open>play_once\<close>
  loop reaches has the ship, every asteroid and every bullet on the 64x128 playfield, the
  ship's speed at most 256 (one pixel per pass) per axis, asteroid and bullet speeds bounded,
  the angle an index of \<open>DIR\<close>, sizes 1 to 3 with their radius, and a life left: \<open>wrap_fp\<close>'s
  single correction is always enough.\<close>

theorem asteroids_safe:
  "ast_run rnd (ast_start rnd i) ss = AGo st \<Longrightarrow> ast_inv st"
  by (rule ast_run_inv [OF ast_start_inv])

lemma asteroids_safe_witness:
  "ast_run (\<lambda>k. int k) (ast_start (\<lambda>k. int k) 0) [] = AGo (ast_start (\<lambda>k. int k) 0) \<and>
   ast_inv (ast_start (\<lambda>k. int k) 0)"
  using asteroids_safe [of "\<lambda>k. int k" 0 "[]" "ast_start (\<lambda>k. int k) 0"] by simp

text \<open>The inner loop over the bullets does not skip a bullet whose \<open>ttl\<close> an earlier asteroid
  of the same pass set to 0: one bullet destroys two small asteroids at once.\<close>

lemma one_bullet_two_hits:
  "let a = \<lparr>a_x = 0, a_y = 0, a_vx = 0, a_vy = 0, a_size = 1, a_s = 5, a_r2 = 25, a_pts = []\<rparr>;
       st' = ast_hits rnd (st\<lparr>g_asts := [a, a], g_score := 0,
                              g_bullets := [\<lparr>b_x = 0, b_y = 0, b_vx = 0, b_vy = 0, b_ttl = 10\<rparr>]\<rparr>)
   in g_asts st' = [] \<and> g_score st' = 200 \<and> g_bullets st' = []"
  by (simp add: ast_hits_def hit_one_def dist2_def hit_points_def FP_def)

text \<open>After twenty tries near the ship, \<open>spawn_asteroid\<close> keeps the last point: an asteroid
  can appear on the ship.\<close>

lemma spawn_on_ship: "spawn_try (\<lambda>_. 0) 0 20 0 10 = (0, 10, 40)"
  by code_simp

text \<open>
  C40: friction is not symmetric. With no thrust, the physics step (\<open>(v * 245) // 256\<close>,
  which rounds towards minus infinity) brings a ship moving right or down at \<open>v\<close>
  units to a standstill within \<open>v\<close> frames, but a ship drifting left or up at up to
  23 units (0.09 pixel) per frame keeps that velocity for ever.
\<close>

theorem friction_coast_asymmetry:
  "(0 \<le> g_svx st \<longrightarrow> g_svx ((ast_physics ^^ nat (g_svx st)) st) = 0) \<and>
   (0 \<le> g_svy st \<longrightarrow> g_svy ((ast_physics ^^ nat (g_svy st)) st) = 0) \<and>
   (-23 \<le> g_svx st \<and> g_svx st < 0 \<longrightarrow> (\<forall>k. g_svx ((ast_physics ^^ k) st) = g_svx st)) \<and>
   (-23 \<le> g_svy st \<and> g_svy st < 0 \<longrightarrow> (\<forall>k. g_svy ((ast_physics ^^ k) st) = g_svy st))"
proof -
  have stop: "(friction ^^ nat v) v = 0" if "0 \<le> v" for v
    using friction_iter_stops [OF that, of "nat v"] that by simp
  show ?thesis using ship_velocity_coast [of _ st] stop friction_iter_drift by simp
qed

theorem friction_coast_asymmetry_witness:
  "g_svx ((ast_physics ^^ nat 40) ((ast_start (\<lambda>k. int k) 0)\<lparr>g_svx := 40, g_svy := -5\<rparr>)) = 0 \<and>
   g_svy ((ast_physics ^^ 1000) ((ast_start (\<lambda>k. int k) 0)\<lparr>g_svx := 40, g_svy := -5\<rparr>)) = -5"
  using friction_coast_asymmetry [of "(ast_start (\<lambda>k. int k) 0)\<lparr>g_svx := 40, g_svy := -5\<rparr>"]
  by (simp del: funpow.simps)

end
