(* ===== verification/Launcher.thy ===== *)
theory Launcher
  imports SSD1306 Input "HOL-Library.List_Lexorder" "HOL-Library.Char_ord"
begin

text \<open>
  The launcher \<open>src/main.py\<close>: the PBM P4 loader with each of its \<open>ValueError\<close>s, the
  blit of the image into the driver's buffer, the fallback screens of the image and
  logo loaders, \<open>launch_game\<close> with its \<open>except Exception\<close> and \<open>finally\<close>, and the
  selection menu over a sampled button trace. The file system is a map from paths to
  contents, \<open>framebuf.text\<close> a parameter, and what a game does when it is run one of
  three outcomes.
\<close>

unbundle bit_operations_syntax

section \<open>Bytes of a PBM header\<close>

text \<open>The ASCII whitespace of \<open>bytes.strip()\<close> and \<open>bytes.split()\<close>.\<close>

definition py_space :: "byte \<Rightarrow> bool" where
  "py_space b \<longleftrightarrow> b \<in> set [32, 9, 10, 13, 11, 12]"

text \<open>\<open>f.readline()\<close> in binary mode: up to and including the next newline byte.\<close>

definition readline :: "byte list \<Rightarrow> byte list \<times> byte list" where
  "readline f =
     (let l = takeWhile (\<lambda>b. b \<noteq> 10) f; r = dropWhile (\<lambda>b. b \<noteq> 10) f
      in if r = [] then (l, []) else (l @ [10], tl r))"

definition strip :: "byte list \<Rightarrow> byte list" where
  "strip l = rev (dropWhile py_space (rev (dropWhile py_space l)))"

text \<open>\<open>bytes.split()\<close>: the maximal runs of non-whitespace bytes.\<close>

fun split_acc :: "byte list \<Rightarrow> byte list \<Rightarrow> byte list list" where
  "split_acc [] cur = (if cur = [] then [] else [cur])"
| "split_acc (b # bs) cur =
     (if py_space b then (if cur = [] then split_acc bs [] else cur # split_acc bs [])
      else split_acc bs (cur @ [b]))"

definition split_ws :: "byte list \<Rightarrow> byte list list" where
  "split_ws l = split_acc l []"

text \<open>
  \<open>int(token)\<close> on a token without whitespace: an optional sign, then decimal digits
  with single underscores between them; anything else raises \<open>ValueError\<close> (None).
\<close>

definition is_digit :: "byte \<Rightarrow> bool" where
  "is_digit b \<longleftrightarrow> 48 \<le> b \<and> b \<le> 57"

fun digits_ok :: "byte list \<Rightarrow> bool" where
  "digits_ok [] = False"
| "digits_ok [d] = is_digit d"
| "digits_ok (d # u # rest) =
     (is_digit d \<and> (if u = 95 then digits_ok rest else digits_ok (u # rest)))"

definition dec_val :: "byte list \<Rightarrow> nat" where
  "dec_val ds = foldl (\<lambda>n d. 10 * n + (unat d - 48)) 0 (filter (\<lambda>b. b \<noteq> 95) ds)"

definition py_int :: "byte list \<Rightarrow> int option" where
  "py_int t =
     (case t of
        [] \<Rightarrow> None
      | s # ds \<Rightarrow>
          if s = 45 then (if digits_ok ds then Some (- int (dec_val ds)) else None)
          else if s = 43 then (if digits_ok ds then Some (int (dec_val ds)) else None)
          else if digits_ok t then Some (int (dec_val t)) else None)"

section \<open>The PBM P4 loader\<close>

text \<open>
  The exceptions the launcher may see: opening a missing file (\<open>OSError\<close>), the three
  \<open>ValueError\<close>s of \<open>read_pbm_p4\<close> and the one of \<open>int()\<close>, and the driver's
  exceptions.
\<close>

datatype lerror = NoFile | NotP4 | HeaderEOF | BadInt | BadSize nat int | Drv drv_error

type_synonym files = "string \<Rightarrow> byte list option"

text \<open>The header loop: read lines until two tokens, skipping blank and comment lines.\<close>

function pbm_tokens :: "byte list \<Rightarrow> byte list list \<Rightarrow> lerror + byte list list \<times> byte list" where
  "pbm_tokens f toks =
     (if 2 \<le> length toks then Inr (toks, f)
      else (let (ln, f') = readline f
            in if ln = [] then Inl HeaderEOF
               else (let l = strip ln
                     in if l = [] \<or> hd l = 35 then pbm_tokens f' toks
                        else pbm_tokens f' (toks @ split_ws l))))"
  by pat_completeness auto
termination
proof (relation "measure (\<lambda>(f, toks). length f)", simp_all)
  have rl: "length (snd (readline f)) < length f" if "fst (readline f) \<noteq> []" for f :: "byte list"
  proof (cases "dropWhile (\<lambda>b. b \<noteq> 10) f = []")
    case True
    with that show ?thesis by (cases f) (simp_all add: readline_def Let_def)
  next
    case False
    then have "length (tl (dropWhile (\<lambda>b. b \<noteq> 10) f)) < length f"
      using length_dropWhile_le [of "\<lambda>b. b \<noteq> 10" f] by (cases "dropWhile (\<lambda>b. b \<noteq> 10) f") simp_all
    with False show ?thesis by (auto simp: readline_def Let_def)
  qed
  show "length f' < length f" if "(ln, f') = readline f" "ln \<noteq> []" for f :: "byte list" and ln f'
    using that rl [of f] by (metis fst_conv snd_conv)
  then show "length f' < length f" if "(ln, f') = readline f" "ln \<noteq> []" for f :: "byte list" and ln f'
    using that by blast
qed

declare pbm_tokens.simps [simp del]

definition read_pbm_p4 :: "files \<Rightarrow> string \<Rightarrow> lerror + int \<times> int \<times> byte list" where
  "read_pbm_p4 fs path =
     (case fs path of
        None \<Rightarrow> Inl NoFile
      | Some f \<Rightarrow>
          (let (mg, f1) = readline f
           in if strip mg \<noteq> [80, 52] then Inl NotP4
              else ebind (pbm_tokens f1 []) (\<lambda>(toks, rest).
                case (py_int (toks ! 0), py_int (toks ! 1)) of
                  (Some w, Some h) \<Rightarrow>
                    (let expected = (w + 7) div 8 * h
                     in if int (length rest) \<noteq> expected then Inl (BadSize (length rest) expected)
                        else Inr (w, h, rest))
                | _ \<Rightarrow> Inl BadInt)))"

section \<open>Drawing a PBM into the display buffer\<close>

text \<open>\<open>(pbm[row_start + (x >> 3)] >> (7 - (x & 7))) & 1\<close>: PBM rows are MSB first.\<close>

definition pbm_on :: "byte list \<Rightarrow> nat \<Rightarrow> nat \<Rightarrow> nat \<Rightarrow> bool" where
  "pbm_on pbm row_bytes x y = bit (pbm ! (y * row_bytes + x div 8)) (7 - x mod 8)"

text \<open>\<open>buf[dx + (dy >> 3) * dw] |= 1 << (dy & 7)\<close>; an index past the buffer raises.\<close>

definition pbm_plot :: "byte list \<Rightarrow> nat \<Rightarrow> nat \<Rightarrow> nat \<Rightarrow> lerror + byte list" where
  "pbm_plot buf dw dx dy =
     (let idx = dx + dy div 8 * dw
      in if idx < length buf then Inr (buf[idx := (buf ! idx) OR bitmask (dy mod 8)])
         else Inl (Drv IndexError))"

definition pbm_blit :: "byte list \<Rightarrow> nat \<Rightarrow> nat \<Rightarrow> nat \<Rightarrow> nat \<Rightarrow> nat \<Rightarrow> nat \<Rightarrow> byte list \<Rightarrow> lerror + byte list" where
  "pbm_blit pbm row_bytes x0 y0 dw max_w max_h buf =
     fold (\<lambda>y r. fold (\<lambda>x r. ebind r (\<lambda>b.
                   if pbm_on pbm row_bytes x y then pbm_plot b dw (x0 + x) (y0 + y) else Inr b))
                 [0..<max_w] r) [0..<max_h] (Inr buf)"

definition drv_exc :: "drv_error + 'a \<Rightarrow> lerror + 'a" where
  "drv_exc r = (case r of Inl e \<Rightarrow> Inl (Drv e) | Inr a \<Rightarrow> Inr a)"

definition draw_pbm_to_display :: "ssd1306 \<Rightarrow> files \<Rightarrow> string \<Rightarrow> nat \<Rightarrow> nat \<Rightarrow> lerror + ssd1306" where
  "draw_pbm_to_display d fs path x0 y0 =
     ebind (read_pbm_p4 fs path) (\<lambda>(w, h, pbm).
       (let max_w = nat (min w (int (width d) - int x0)); max_h = nat (min h (int (height d) - int y0));
            row_bytes = nat ((w + 7) div 8); d1 = fill_d d 0
        in ebind (pbm_blit pbm row_bytes x0 y0 (width d) max_w max_h (buffer d1)) (\<lambda>b.
             drv_exc (show_disp (fill_rect_d (d1\<lparr>buffer := b\<rparr>) 0 0 (int (width d)) 1 0)))))"

section \<open>Image, logo and game launch\<close>

text \<open>\<open>framebuf.text(s, x, y)\<close>, which the model leaves as a parameter.\<close>

type_synonym text_fn = "ssd1306 \<Rightarrow> string \<Rightarrow> int \<Rightarrow> int \<Rightarrow> ssd1306"

definition GAMES_FOLDER :: string where "GAMES_FOLDER = ''games''"

text \<open>
  On any exception of the loader, a text screen; an exception of that screen's
  \<open>show()\<close> escapes (Inl).
\<close>

definition load_and_display_image :: "text_fn \<Rightarrow> files \<Rightarrow> ssd1306 \<Rightarrow> string \<Rightarrow> drv_error + ssd1306" where
  "load_and_display_image txt fs d name =
     (case draw_pbm_to_display d fs (GAMES_FOLDER @ ''/'' @ name @ ''.pbm'') 0 0 of
        Inr d' \<Rightarrow> Inr d'
      | Inl _ \<Rightarrow> show_disp (txt (txt (fill_d d 0) (take 16 name) 0 25) ''[No image]'' 0 40))"

definition show_logo :: "text_fn \<Rightarrow> files \<Rightarrow> ssd1306 \<Rightarrow> drv_error + ssd1306" where
  "show_logo txt fs d =
     (case draw_pbm_to_display d fs ''logo.pbm'' 0 0 of
        Inr d' \<Rightarrow> Inr d'
      | Inl _ \<Rightarrow> show_disp (txt (fill_d d 0) ''Welcome!'' 25 25))"

text \<open>
  What the imported module does: return normally, raise an \<open>Exception\<close>, or call
  \<open>sys.exit()\<close>, which raises \<open>SystemExit\<close>, a \<open>BaseException\<close> that \<open>except Exception\<close>
  does not catch.
\<close>

datatype game_end = Returns | Raises | Exits

text \<open>
  \<open>launch_game\<close>: the crash screen on an \<open>Exception\<close>, the blank screen of the
  \<open>finally\<close> clause in every case; the flag says that \<open>SystemExit\<close> propagates.
\<close>

definition launch_game :: "text_fn \<Rightarrow> game_end \<Rightarrow> ssd1306 \<Rightarrow> string \<Rightarrow> drv_error + bool \<times> ssd1306" where
  "launch_game txt g d name =
     (case g of
        Returns \<Rightarrow> ebind (show_disp (fill_d d 0)) (\<lambda>d'. Inr (False, d'))
      | Raises \<Rightarrow>
          ebind (show_disp (txt (txt (fill_d d 0) ''Game crash'' 0 0) (take 16 name) 0 10)) (\<lambda>d1.
          ebind (show_disp (fill_d d1 0)) (\<lambda>d'. Inr (False, d')))
      | Exits \<Rightarrow> ebind (show_disp (fill_d d 0)) (\<lambda>d'. Inr (True, d')))"

section \<open>The selection menu\<close>

text \<open>\<open>[f[:-3] for f in os.listdir(GAMES_FOLDER) if f.endswith(".py")]\<close>, sorted.\<close>

definition game_list :: "string list \<Rightarrow> string list" where
  "game_list files = sort (map (\<lambda>f. take (length f - 3) f) (filter (\<lambda>f. drop (length f - 3) f = ''.py'') files))"

datatype menu_out = MRun ssd1306 nat | MQuit ssd1306 | MCrash drv_error

text \<open>
  One of the two cursor moves: when its button reads pressed, select entry \<open>c\<close> and show
  its image.
\<close>

definition menu_select :: "text_fn \<Rightarrow> files \<Rightarrow> string list \<Rightarrow> bool \<Rightarrow> nat \<Rightarrow> ssd1306 \<times> nat \<Rightarrow>
                           drv_error + ssd1306 \<times> nat" where
  "menu_select txt fs games pressed c dc =
     (if pressed then ebind (load_and_display_image txt fs (fst dc) (games ! c)) (\<lambda>d'. Inr (d', c)) else Inr dc)"

text \<open>UP or DOWN: the start screen, the game, then the entry's image again.\<close>

definition menu_start :: "text_fn \<Rightarrow> files \<Rightarrow> (string \<Rightarrow> game_end) \<Rightarrow> string list \<Rightarrow> ssd1306 \<Rightarrow> nat \<Rightarrow> menu_out" where
  "menu_start txt fs play games d c =
     (case ebind (show_disp (txt (fill_d d 0) ''Starting game...'' 0 0)) (\<lambda>d3.
             launch_game txt (play (games ! c)) d3 (games ! c)) of
        Inl e \<Rightarrow> MCrash e
      | Inr (True, d4) \<Rightarrow> MQuit d4
      | Inr (False, d4) \<Rightarrow>
          (case load_and_display_image txt fs d4 (games ! c) of
             Inl e \<Rightarrow> MCrash e
           | Inr d5 \<Rightarrow> MRun d5 c))"

text \<open>
  One pass of the \<open>while True\<close> loop of \<open>run_menu\<close>. The three tests read the buttons
  at three moments, so a pass takes three samples: RIGHT from the first, LEFT from the
  second, UP and DOWN from the third.
\<close>

definition menu_iter :: "text_fn \<Rightarrow> files \<Rightarrow> (string \<Rightarrow> game_end) \<Rightarrow> string list \<Rightarrow> ssd1306 \<Rightarrow> nat \<Rightarrow>
                         sample \<times> sample \<times> sample \<Rightarrow> menu_out" where
  "menu_iter txt fs play games d cur smp =
     (let (sr, sl, su) = smp; n = length games;
          r1 = menu_select txt fs games (s_rt sr = 0) ((cur + 1) mod n) (d, cur);
          r2 = ebind r1 (\<lambda>(d1, c1). menu_select txt fs games (s_lf sl = 0) (nat ((int c1 - 1) mod int n)) (d1, c1))
      in case r2 of
           Inl e \<Rightarrow> MCrash e
         | Inr (d2, c2) \<Rightarrow> if s_up su = 0 \<or> s_dn su = 0 then menu_start txt fs play games d2 c2 else MRun d2 c2)"

fun menu_loop :: "text_fn \<Rightarrow> files \<Rightarrow> (string \<Rightarrow> game_end) \<Rightarrow> string list \<Rightarrow> ssd1306 \<Rightarrow> nat \<Rightarrow>
                  (sample \<times> sample \<times> sample) list \<Rightarrow> menu_out" where
  "menu_loop txt fs play games d cur [] = MRun d cur"
| "menu_loop txt fs play games d cur (s # ss) =
     (case menu_iter txt fs play games d cur s of
        MRun d' c' \<Rightarrow> menu_loop txt fs play games d' c' ss
      | out \<Rightarrow> out)"

definition run_menu :: "text_fn \<Rightarrow> files \<Rightarrow> string list \<Rightarrow> (string \<Rightarrow> game_end) \<Rightarrow> ssd1306 \<Rightarrow>
                        (sample \<times> sample \<times> sample) list \<Rightarrow> menu_out" where
  "run_menu txt fs files play d ss =
     (let games = game_list files
      in if games = [] then
           (case show_disp (txt (txt (fill_d d 0) ''Nessun gioco'' 10 20) ''trovato!'' 30 35) of
              Inl e \<Rightarrow> MCrash e
            | Inr d' \<Rightarrow> MQuit d')
         else
           (case load_and_display_image txt fs d (games ! 0) of
              Inl e \<Rightarrow> MCrash e
            | Inr d1 \<Rightarrow> menu_loop txt fs play games d1 0 ss))"

text \<open>The program: the logo, then the menu.\<close>

definition launcher_main :: "text_fn \<Rightarrow> files \<Rightarrow> string list \<Rightarrow> (string \<Rightarrow> game_end) \<Rightarrow> ssd1306 \<Rightarrow>
                             (sample \<times> sample \<times> sample) list \<Rightarrow> menu_out" where
  "launcher_main txt fs files play d ss =
     (case show_logo txt fs d of
        Inl e \<Rightarrow> MCrash e
      | Inr d1 \<Rightarrow> run_menu txt fs files play d1 ss)"

section \<open>A working display\<close>

text \<open>
  A display whose bus acknowledges every transfer and whose geometry is consistent, and a
  \<open>text\<close> routine that draws into the buffer only.
\<close>

definition disp_ok :: "ssd1306 \<Rightarrow> bool" where
  "disp_ok d \<longleftrightarrow> drv_wf d \<and> no_nack (bus d)"

definition text_ok :: "text_fn \<Rightarrow> bool" where
  "text_ok txt \<longleftrightarrow> (\<forall>d s x y. \<exists>b. txt d s x y = d\<lparr>buffer := b\<rparr> \<and> length b = length (buffer d))"

section \<open>PBM files\<close>

text \<open>The decimal bytes of a number, and the P4 file of a bitmap as a PBM writer lays it out.\<close>

fun dec_bytes :: "nat \<Rightarrow> byte list" where
  "dec_bytes n = (if n < 10 then [of_nat (48 + n)] else dec_bytes (n div 10) @ [of_nat (48 + n mod 10)])"

declare dec_bytes.simps [simp del]

definition pbm_file :: "nat \<Rightarrow> nat \<Rightarrow> byte list \<Rightarrow> byte list" where
  "pbm_file w h data = [80, 52, 10] @ dec_bytes w @ [32] @ dec_bytes h @ [10] @ data"

section \<open>The header parser\<close>

lemma digit_byte: "n < 10 \<Longrightarrow> is_digit (of_nat (48 + n)) \<and> unat (of_nat (48 + n) :: byte) = 48 + n"
proof -
  assume n: "n < 10"
  have "unat (of_nat (48 + n) :: byte) = (48 + n) mod 2 ^ LENGTH(8)" by (rule unat_of_nat)
  then have u: "unat (of_nat (48 + n) :: byte) = 48 + n" using n by simp
  moreover have "is_digit (of_nat (48 + n))"
    unfolding is_digit_def word_le_nat_alt u using n by (simp add: unat_of_nat)
  ultimately show ?thesis by simp
qed

lemma dec_bytes_digits: "dec_bytes n \<noteq> [] \<and> list_all is_digit (dec_bytes n)"
proof (induction n rule: dec_bytes.induct)
  case (1 n)
  show ?case
    using 1 digit_byte [of n] digit_byte [of "n mod 10"] by (simp add: dec_bytes.simps [of n])
qed

lemma is_digit_not: "is_digit b \<Longrightarrow> b \<noteq> 95 \<and> b \<noteq> 45 \<and> b \<noteq> 43 \<and> b \<noteq> 10 \<and> b \<noteq> 35 \<and> \<not> py_space b"
  by (auto simp: is_digit_def py_space_def)

lemma digits_ok_digits: "xs \<noteq> [] \<Longrightarrow> list_all is_digit xs \<Longrightarrow> digits_ok xs"
  by (induction xs rule: digits_ok.induct) (auto dest: is_digit_not)

lemma dec_val_snoc:
  "b \<noteq> 95 \<Longrightarrow> dec_val (xs @ [b]) = 10 * dec_val xs + (unat b - 48)"
  by (simp add: dec_val_def)

lemma dec_val_dec_bytes: "dec_val (dec_bytes n) = n"
proof (induction n rule: dec_bytes.induct)
  case (1 n)
  show ?case
  proof (cases "n < 10")
    case True
    then show ?thesis using digit_byte [of n] is_digit_not by (simp add: dec_bytes.simps [of n] dec_val_def)
  next
    case False
    have "n mod 10 < 10" by simp
    note d = digit_byte [OF this]
    have "dec_val (dec_bytes n) = 10 * (n div 10) + n mod 10"
      using False 1 d is_digit_not [of "of_nat (48 + n mod 10)"]
      by (simp add: dec_bytes.simps [of n] dec_val_snoc)
    then show ?thesis by simp
  qed
qed

lemma py_int_dec_bytes: "py_int (dec_bytes n) = Some (int n)"
proof -
  obtain b bs where e: "dec_bytes n = b # bs" using dec_bytes_digits [of n] by (cases "dec_bytes n") auto
  then have "is_digit b" using dec_bytes_digits [of n] by simp
  then show ?thesis
    using e digits_ok_digits [of "dec_bytes n"] dec_bytes_digits [of n] dec_val_dec_bytes [of n]
    by (simp add: py_int_def is_digit_not)
qed

lemma readline_line: "10 \<notin> set xs \<Longrightarrow> readline (xs @ 10 # ys) = (xs @ [10], ys)"
proof -
  assume "10 \<notin> set xs"
  then have "\<And>x. x \<in> set xs \<Longrightarrow> x \<noteq> 10" by auto
  then show ?thesis by (simp add: readline_def takeWhile_append2 dropWhile_append2)
qed

lemma split_acc_word:
  "list_all (Not \<circ> py_space) xs \<Longrightarrow> split_acc (xs @ ys) cur = split_acc ys (cur @ xs)"
  by (induction xs arbitrary: cur) auto

lemma split_two_words:
  assumes "xs \<noteq> []" "ys \<noteq> []" "list_all (Not \<circ> py_space) xs" "list_all (Not \<circ> py_space) ys"
  shows "split_ws (xs @ 32 # ys) = [xs, ys]"
proof -
  have "split_ws (xs @ 32 # ys) = xs # split_acc ys []"
    using assms(1,3) by (simp add: split_ws_def split_acc_word py_space_def)
  also have "split_acc ys [] = [ys]"
    using split_acc_word [OF assms(4), of "[]" "[]"] assms(2) by simp
  finally show ?thesis .
qed

lemma strip_line:
  assumes "xs \<noteq> []" "\<not> py_space (hd xs)" "\<not> py_space (last xs)"
  shows "strip (xs @ [10]) = xs"
proof -
  obtain a as where xs: "xs = a # as" using assms(1) by (cases xs) auto
  have "dropWhile py_space (xs @ [10]) = xs @ [10]" using assms(2) xs by simp
  moreover obtain z zs where r: "rev xs = z # zs" using assms(1) by (cases "rev xs") auto
  moreover have "\<not> py_space z" using assms(3) r by (metis last_rev list.sel(1) rev_rev_ident)
  ultimately show ?thesis by (simp add: strip_def py_space_def)
qed

lemma digits_no_space: "list_all is_digit xs \<Longrightarrow> list_all (Not \<circ> py_space) xs \<and> 10 \<notin> set xs"
  by (induction xs) (auto dest: is_digit_not)

lemma pbm_tokens_two:
  "pbm_tokens (dec_bytes w @ 32 # dec_bytes h @ 10 # data) [] = Inr ([dec_bytes w, dec_bytes h], data)"
proof -
  let ?l = "dec_bytes w @ 32 # dec_bytes h"
  have dw: "dec_bytes w \<noteq> []" "list_all is_digit (dec_bytes w)" and dh: "dec_bytes h \<noteq> []" "list_all is_digit (dec_bytes h)"
    using dec_bytes_digits by blast+
  note nw = digits_no_space [OF dw(2)] and nh = digits_no_space [OF dh(2)]
  have "10 \<notin> set ?l" using nw nh by simp
  then have rl: "readline (?l @ 10 # data) = (?l @ [10], data)" by (rule readline_line)
  have hw: "\<not> py_space (hd ?l) \<and> hd ?l \<noteq> 35"
    using dw is_digit_not [of "hd (dec_bytes w)"] by (cases "dec_bytes w") auto
  have "\<not> py_space (last ?l)"
    using dh is_digit_not [of "last (dec_bytes h)"] by (simp add: list_all_iff)
  with hw have st: "strip (?l @ [10]) = ?l" by (intro strip_line) simp_all
  have sp: "split_ws ?l = [dec_bytes w, dec_bytes h]" using dw dh nw nh by (intro split_two_words) simp_all
  have "pbm_tokens (?l @ 10 # data) [] = pbm_tokens data [dec_bytes w, dec_bytes h]"
    using rl st sp hw dw(1) by (simp add: pbm_tokens.simps [of "dec_bytes w @ 32 # dec_bytes h @ 10 # data"] Let_def)
  also have "\<dots> = Inr ([dec_bytes w, dec_bytes h], data)" by (simp add: pbm_tokens.simps [of data])
  finally show ?thesis by simp
qed

text \<open>C36: the loader reads back every P4 file a PBM writer produces: for a data part of
  \<open>((w + 7) // 8) * h\<close> bytes, \<open>read_pbm_p4\<close> returns the width, the height and the data.\<close>

theorem read_pbm_roundtrip:
  "length data = (w + 7) div 8 * h \<Longrightarrow>
   read_pbm_p4 (fs(path \<mapsto> pbm_file w h data)) path = Inr (int w, int h, data)"
proof -
  assume len: "length data = (w + 7) div 8 * h"
  have "readline (pbm_file w h data) = ([80, 52, 10], dec_bytes w @ 32 # dec_bytes h @ 10 # data)"
    using readline_line [of "[80, 52]"] by (simp add: pbm_file_def)
  moreover have "strip [80, 52, 10] = [80, 52]" by (simp add: strip_def py_space_def)
  moreover have "int (length data) = (int w + 7) div 8 * int h"
    using len by (simp add: zdiv_int)
  ultimately show ?thesis
    by (simp add: read_pbm_p4_def pbm_tokens_two py_int_dec_bytes)
qed

lemma read_pbm_roundtrip_witness:
  "length [0xE0, 0xA0 :: byte] = (3 + 7) div 8 * 2 \<and>
   read_pbm_p4 ((\<lambda>_. None)(''games/x.pbm'' \<mapsto> pbm_file 3 2 [0xE0, 0xA0])) ''games/x.pbm'' = Inr (3, 2, [0xE0, 0xA0])"
  using read_pbm_roundtrip [of "[0xE0, 0xA0 :: byte]" 3 2 "\<lambda>_. None" "''games/x.pbm''"] by simp

section \<open>The display stays usable\<close>

lemma show_ok: "disp_ok d \<Longrightarrow> \<exists>d'. show_disp d = Inr d' \<and> disp_ok d'"
  using drv_wf_show_pages_ok [of d] by (auto simp: disp_ok_def)

lemma show_ok_Inr: "disp_ok d \<Longrightarrow> show_disp d = Inr d' \<Longrightarrow> disp_ok d'"
  using show_ok [of d] by auto

lemma disp_ok_buffer: "length b = length (buffer d) \<Longrightarrow> disp_ok (d\<lparr>buffer := b\<rparr>) = disp_ok d"
  by (simp add: disp_ok_def drv_wf_buffer_update)

lemma disp_ok_fill [simp]: "disp_ok (fill_d d c) = disp_ok d"
  and disp_ok_fill_rect [simp]: "disp_ok (fill_rect_d d x y w h c) = disp_ok d"
  by (simp_all add: fill_d_def fill_rect_d_def disp_ok_buffer fbuf_def FrameBuffer_def)

lemma disp_ok_text [simp]: "text_ok txt \<Longrightarrow> disp_ok (txt d s x y) = disp_ok d"
  unfolding text_ok_def by (metis disp_ok_buffer)

lemma pbm_blit_length:
  "pbm_blit pbm rb x0 y0 dw mw mh buf = Inr b \<Longrightarrow> length b = length buf"
proof -
  let ?g = "\<lambda>y x b. if pbm_on pbm rb x y then pbm_plot b dw (x0 + x) (y0 + y) else Inr b"
  have row: "length b' = length buf"
    if "fold (\<lambda>x r. ebind r (?g y x)) [0..<mw] r = Inr b'" "\<And>b. r = Inr b \<Longrightarrow> length b = length buf"
    for y r b'
    by (rule fold_ebind_inv [where P = "\<lambda>b. length b = length buf", OF _ that])
       (auto simp: pbm_plot_def Let_def split: if_splits)
  assume "pbm_blit pbm rb x0 y0 dw mw mh buf = Inr b"
  then have fb: "fold (\<lambda>y r. fold (\<lambda>x r. ebind r (?g y x)) [0..<mw] r) [0..<mh] (Inr buf) = Inr b"
    by (simp add: pbm_blit_def)
  have rows: "fold (\<lambda>y r. fold (\<lambda>x r. ebind r (?g y x)) [0..<mw] r) ys r = Inr b' \<Longrightarrow>
      (\<And>b. r = Inr b \<Longrightarrow> length b = length buf) \<Longrightarrow> length b' = length buf" for ys r b'
  proof (induction ys arbitrary: r)
    case Nil then show ?case by simp
  next
    case (Cons y ys)
    show ?case
    proof (rule Cons.IH)
      show "fold (\<lambda>y r. fold (\<lambda>x r. ebind r (?g y x)) [0..<mw] r) ys (fold (\<lambda>x r. ebind r (?g y x)) [0..<mw] r) = Inr b'"
        using Cons.prems(1) by simp
      show "length b = length buf" if "fold (\<lambda>x r. ebind r (?g y x)) [0..<mw] r = Inr b" for b
        using row [OF that Cons.prems(2)] .
    qed
  qed
  show ?thesis by (rule rows [OF fb]) simp
qed

lemma drv_exc_Inr: "drv_exc r = Inr a \<longleftrightarrow> r = Inr a"
  by (cases r) (simp_all add: drv_exc_def)

lemma draw_pbm_ok:
  assumes ok: "disp_ok d" and r: "draw_pbm_to_display d fs path x0 y0 = Inr d'"
  shows "disp_ok d'"
proof -
  obtain w h pbm where rd: "read_pbm_p4 fs path = Inr (w, h, pbm)"
    and rest: "ebind (pbm_blit pbm (nat ((w + 7) div 8)) x0 y0 (width d) (nat (min w (int (width d) - int x0)))
                  (nat (min h (int (height d) - int y0))) (buffer (fill_d d 0))) (\<lambda>b.
                drv_exc (show_disp (fill_rect_d ((fill_d d 0)\<lparr>buffer := b\<rparr>) 0 0 (int (width d)) 1 0))) = Inr d'"
    using r by (auto simp: draw_pbm_to_display_def ebind_Inr_iff Let_def)
  then obtain b where bl: "pbm_blit pbm (nat ((w + 7) div 8)) x0 y0 (width d) (nat (min w (int (width d) - int x0)))
                  (nat (min h (int (height d) - int y0))) (buffer (fill_d d 0)) = Inr b"
    and sh: "show_disp (fill_rect_d ((fill_d d 0)\<lparr>buffer := b\<rparr>) 0 0 (int (width d)) 1 0) = Inr d'"
    by (auto simp: ebind_Inr_iff drv_exc_Inr)
  have "length b = length (buffer (fill_d d 0))" by (rule pbm_blit_length [OF bl])
  then have "disp_ok ((fill_d d 0)\<lparr>buffer := b\<rparr>)" using ok by (simp add: disp_ok_buffer)
  then have "disp_ok (fill_rect_d ((fill_d d 0)\<lparr>buffer := b\<rparr>) 0 0 (int (width d)) 1 0)" by simp
  from show_ok_Inr [OF this sh] show ?thesis .
qed

lemma load_ok:
  assumes "disp_ok d" "text_ok txt"
  shows "\<exists>d'. load_and_display_image txt fs d name = Inr d' \<and> disp_ok d'"
proof (cases "draw_pbm_to_display d fs (GAMES_FOLDER @ ''/'' @ name @ ''.pbm'') 0 0")
  case (Inl e)
  have "disp_ok (txt (txt (fill_d d 0) (take 16 name) 0 25) ''[No image]'' 0 40)" using assms by simp
  from show_ok [OF this] show ?thesis using Inl by (simp add: load_and_display_image_def)
next
  case (Inr d')
  then show ?thesis using draw_pbm_ok [OF assms(1) Inr] by (simp add: load_and_display_image_def)
qed

lemma launch_ok:
  assumes ok: "disp_ok d" and t: "text_ok txt"
  shows "\<exists>d'. launch_game txt g d name = Inr (g = Exits, d') \<and> disp_ok d'"
proof -
  obtain d0 where d0: "show_disp (fill_d d 0) = Inr d0" "disp_ok d0" using show_ok [of "fill_d d 0"] ok by auto
  show ?thesis
  proof (cases g)
    case Raises
    have "disp_ok (txt (txt (fill_d d 0) ''Game crash'' 0 0) (take 16 name) 0 10)" using ok t by simp
    then obtain d1 where d1: "show_disp (txt (txt (fill_d d 0) ''Game crash'' 0 0) (take 16 name) 0 10) = Inr d1"
      "disp_ok d1" using show_ok by blast
    obtain d2 where "show_disp (fill_d d1 0) = Inr d2" "disp_ok d2" using show_ok [of "fill_d d1 0"] d1(2) by auto
    with d1 Raises show ?thesis by (simp add: launch_game_def)
  qed (use d0 in \<open>simp_all add: launch_game_def\<close>)
qed

text \<open>C37: when UP or DOWN starts a game, the menu survives exactly the games that do not call
  \<open>sys.exit()\<close>: a game that returns or raises an \<open>Exception\<close> brings the menu back on the same
  entry, while one that calls \<open>sys.exit()\<close> ends the launcher, because \<open>SystemExit\<close> passes
  \<open>except Exception\<close>. Neither case crashes the launcher on a working display.\<close>

theorem menu_exit_iff_sys_exit:
  "text_ok txt \<Longrightarrow> disp_ok d \<Longrightarrow> s_rt sr \<noteq> 0 \<Longrightarrow> s_lf sl \<noteq> 0 \<Longrightarrow> s_up su = 0 \<or> s_dn su = 0 \<Longrightarrow>
   (case menu_iter txt fs play games d cur (sr, sl, su) of
      MQuit _ \<Rightarrow> play (games ! cur) = Exits
    | MRun _ c \<Rightarrow> play (games ! cur) \<noteq> Exits \<and> c = cur
    | MCrash _ \<Rightarrow> False)"
proof -
  assume t: "text_ok txt" and ok: "disp_ok d" and r: "s_rt sr \<noteq> 0" and l: "s_lf sl \<noteq> 0"
    and u: "s_up su = 0 \<or> s_dn su = 0"
  let ?g = "games ! cur"
  have "disp_ok (txt (fill_d d 0) ''Starting game...'' 0 0)" using t ok by simp
  then obtain d3 where d3: "show_disp (txt (fill_d d 0) ''Starting game...'' 0 0) = Inr d3" "disp_ok d3"
    using show_ok by blast
  obtain d4 where d4: "launch_game txt (play ?g) d3 ?g = Inr (play ?g = Exits, d4)" "disp_ok d4"
    using launch_ok [OF d3(2) t] by blast
  obtain d5 where d5: "load_and_display_image txt fs d4 ?g = Inr d5"
    using load_ok [OF d4(2) t] by blast
  have m: "menu_iter txt fs play games d cur (sr, sl, su) =
           (if play ?g = Exits then MQuit d4 else MRun d5 cur)"
    using r l u d3 d4 d5 by (simp add: menu_iter_def menu_select_def menu_start_def Let_def)
  show ?thesis by (simp add: m)
qed

lemma menu_exit_iff_sys_exit_witness:
  "text_ok (\<lambda>d s x y. pixel_d d x y 1) \<and>
   disp_ok \<lparr>width = 8, height = 8, external_vcc = False, pages = 1, buffer = replicate 8 0,
            line = replicate RAM_COLS 0, bus = \<lparr>i2c_log = [], i2c_nack = (\<lambda>_. False)\<rparr>, addr = 0x3C,
            tmp = [0, 0]\<rparr> \<and>
   s_rt (levels_at 1 1 1 1 0) \<noteq> 0 \<and> s_lf (levels_at 1 1 1 1 0) \<noteq> 0 \<and>
   (s_up (levels_at 0 1 1 1 0) = 0 \<or> s_dn (levels_at 0 1 1 1 0) = 0) \<and>
   (case menu_iter (\<lambda>d s x y. pixel_d d x y 1) (\<lambda>_. None) (\<lambda>_. Exits) [''2048'', ''klotski'']
           \<lparr>width = 8, height = 8, external_vcc = False, pages = 1, buffer = replicate 8 0,
            line = replicate RAM_COLS 0, bus = \<lparr>i2c_log = [], i2c_nack = (\<lambda>_. False)\<rparr>, addr = 0x3C,
            tmp = [0, 0]\<rparr> 0 (levels_at 1 1 1 1 0, levels_at 1 1 1 1 0, levels_at 0 1 1 1 0) of
      MQuit _ \<Rightarrow> (\<lambda>_. Exits) ([''2048'', ''klotski''] ! 0) = Exits
    | MRun _ c \<Rightarrow> (\<lambda>_. Exits) ([''2048'', ''klotski''] ! 0) \<noteq> Exits \<and> c = 0
    | MCrash _ \<Rightarrow> False)"
proof -
  have t: "text_ok (\<lambda>d s x y. pixel_d d x y 1)"
    by (auto simp: text_ok_def pixel_d_def fbuf_def FrameBuffer_def)
  have ok: "disp_ok \<lparr>width = 8, height = 8, external_vcc = False, pages = 1, buffer = replicate 8 0,
            line = replicate RAM_COLS 0, bus = \<lparr>i2c_log = [], i2c_nack = (\<lambda>_. False)\<rparr>, addr = 0x3C,
            tmp = [0, 0]\<rparr>"
    by (simp add: disp_ok_def drv_wf_def no_nack_def RAM_COLS_def COL_OFFSET_def)
  show ?thesis
    using menu_exit_iff_sys_exit [OF t ok, where sr = "levels_at 1 1 1 1 0" and sl = "levels_at 1 1 1 1 0"
          and su = "levels_at 0 1 1 1 0" and fs = "\<lambda>_. None" and play = "\<lambda>_. Exits"
          and games = "[''2048'', ''klotski'']" and cur = 0] t ok
    by (simp add: levels_at_def)
qed

lemma menu_select_index:
  "menu_select txt fs games p c (d, cur) = Inr (d', c') \<Longrightarrow> c' = c \<or> c' = cur"
  by (auto simp: menu_select_def ebind_Inr_iff split: if_splits)

lemma menu_start_index: "menu_start txt fs play games d c = MRun d' c' \<Longrightarrow> c' = c"
  by (auto simp: menu_start_def split: sum.splits prod.splits bool.splits)

lemma menu_iter_index:
  assumes "games \<noteq> []" "cur < length games" "menu_iter txt fs play games d cur (sr, sl, su) = MRun d' c"
  shows "c < length games"
proof -
  let ?n = "length games"
  have n: "0 < int ?n" using assms(1) by simp
  define R where "R = ebind (menu_select txt fs games (s_rt sr = 0) ((cur + 1) mod ?n) (d, cur))
      (\<lambda>(d1, c1). menu_select txt fs games (s_lf sl = 0) (nat ((int c1 - 1) mod int ?n)) (d1, c1))"
  have m: "menu_iter txt fs play games d cur (sr, sl, su) =
           (case R of Inl e \<Rightarrow> MCrash e
            | Inr (d2, c2) \<Rightarrow> if s_up su = 0 \<or> s_dn su = 0 then menu_start txt fs play games d2 c2 else MRun d2 c2)"
    unfolding menu_iter_def R_def Let_def prod.case by (rule refl)
  obtain d2 c2 where r2: "R = Inr (d2, c2)" and c: "c = c2"
  proof (cases R)
    case (Inl e)
    with assms(3) m show ?thesis by simp
  next
    case (Inr dc)
    obtain d2 c2 where dc: "dc = (d2, c2)" by (cases dc) auto
    with assms(3) m Inr have "c = c2" by (auto split: if_splits dest: menu_start_index)
    with Inr dc that show ?thesis by blast
  qed
  from r2 obtain d1 c1 where r1: "menu_select txt fs games (s_rt sr = 0) ((cur + 1) mod ?n) (d, cur) = Inr (d1, c1)"
    and s2: "menu_select txt fs games (s_lf sl = 0) (nat ((int c1 - 1) mod int ?n)) (d1, c1) = Inr (d2, c2)"
    by (auto simp: R_def ebind_Inr_iff)
  have "c1 < ?n" using menu_select_index [OF r1] assms(1,2) by auto
  moreover have "nat ((int c1 - 1) mod int ?n) < ?n"
    using pos_mod_bound [OF n, of "int c1 - 1"] pos_mod_sign [OF n, of "int c1 - 1"] by (simp add: nat_less_iff)
  ultimately show ?thesis using menu_select_index [OF s2] c by auto
qed

lemma menu_loop_index:
  "games \<noteq> [] \<Longrightarrow> cur < length games \<Longrightarrow> menu_loop txt fs play games d cur ss = MRun d' c \<Longrightarrow> c < length games"
proof (induction ss arbitrary: d cur)
  case Nil then show ?case by simp
next
  case (Cons s ss)
  obtain sr sl su where s: "s = (sr, sl, su)" by (cases s) auto
  show ?case
  proof (cases "menu_iter txt fs play games d cur s")
    case (MRun d1 c1)
    have "c1 < length games" using menu_iter_index [OF Cons.prems(1,2)] MRun s by blast
    moreover have "menu_loop txt fs play games d1 c1 ss = MRun d' c" using Cons.prems(3) MRun by simp
    ultimately show ?thesis using Cons.IH Cons.prems(1) by blast
  next
    case (MQuit x)
    then show ?thesis using Cons.prems(3) by simp
  next
    case (MCrash x)
    then show ?thesis using Cons.prems(3) by simp
  qed
qed

text \<open>The PBM format allows the whole header on the magic number's line; the loader
  compares that entire line with \<open>P4\<close> and rejects such a file.\<close>

lemma pbm_one_line_header_rejected:
  "read_pbm_p4 (\<lambda>_. Some [80, 52, 32, 51, 32, 50, 10, 0xE0, 0xA0]) path = Inl NotP4"
  by code_simp

end
