(* ===== verification/Spec2Isabelle.thy ===== *)
theory Spec2Isabelle
  imports Rotation Input Game2048 Draw2048 Klotski DrawKlotski Minesweeper DrawMinesweeper Asteroids Launcher
begin

text \<open>
  A verification library for the Pico handheld console of this repository: a menu
  launcher (\<open>src/main.py\<close>), eight games (\<open>src/2048.py\<close>, \<open>src/klotski.py\<close>,
  \<open>src/minesweeper.py\<close>, \<open>src/dino.py\<close>, \<open>src/asteroids.py\<close>, \<open>src/frogger.py\<close>,
  \<open>src/galaga.py\<close>, \<open>src/donkey_kong.py\<close>) and the SSD1306 display driver
  (\<open>src/ssd1306.py\<close>), all single-threaded MicroPython polling loops.

  \<^bold>\<open>Parts and how they interact.\<close> Every game draws into the driver's frame buffer,
  either through a per-pixel portrait remap (\<open>draw_pixel\<close> in 2048, Klotski and
  Minesweeper) or by composing a landscape or portrait scratch buffer and rotating it
  in one pass (\<open>show_virtual\<close> in Dino, \<open>show_centered_sideways\<close> and \<open>blit_pbm\<close> in
  Asteroids, Frogger, Galaga and Donkey Kong), then calls \<open>show\<close>, which writes the
  buffer page by page to the controller over I2C. Input is four active-low buttons,
  sampled once per tick by an \<open>EdgeButtons\<close> object; screens are separated by
  \<open>wait_released\<close>; two-button chords are detected by short blocking polling loops.

  \<^bold>\<open>Theories.\<close>
  \<^item> \<open>Prelude\<close>: bytes (\<open>8 word\<close>), Python slice read and slice assignment,
    exceptions as \<open>Inl\<close> of a sum with the bind \<open>ebind\<close>, bit facts on bytes
    (collection \<open>byte_bits\<close>), row-major address arithmetic.
  \<^item> \<open>Framebuf\<close>: MicroPython's \<open>framebuf\<close> module (not in the repository,
    modelled from the spec): the \<open>MONO_VLSB\<close> and \<open>MONO_HLSB\<close> layouts, \<open>pixel\<close>,
    \<open>fill_rect\<close>, \<open>fill\<close>. Lemmas: byte addressing is injective and in range
    (\<open>fb_pos_inj\<close>, \<open>fb_pos_bound\<close>), a read after a write returns the written bit and
    nothing else changes (\<open>fb_getpixel_setpixel\<close>, \<open>get_pixel_pixel\<close>), the
    effect of a filled rectangle (\<open>fb_getpixel_fill_rows\<close>).
  \<^item> \<open>SSD1306\<close>: the I2C bus as a transaction log with a NACK oracle
    (\<open>writeto\<close>, raising \<open>OSError\<close>), the driver object as the record
    \<open>ssd1306\<close>, and one definition per method: \<open>write_cmd\<close>, \<open>write_data\<close>,
    \<open>init_display\<close>, \<open>clear_controller_ram\<close>, \<open>poweroff\<close>, \<open>contrast\<close>,
    \<open>invert\<close>, the drawing proxies, and \<open>show\<close> (\<open>show_disp\<close>, with the
    per-page body \<open>show_page\<close> and the reused line buffer). The abstract
    specification of a flush is \<open>page_frame\<close>; \<open>show_disp_frames\<close> proves that
    the loop implements it, and the hidden-column and all-zero-frame properties
    follow from it; \<open>pixel_show_on_wire\<close> takes a pixel drawn through the
    driver to the page, RAM column and bit that carry it on the bus.

  \<^item> \<open>Rotation\<close>: the portrait remap \<open>draw_pixel\<close> (2048, Klotski, Minesweeper:
    logical \<open>(x, y)\<close> to physical \<open>(y, 63 - x)\<close>), Dino's \<open>show_virtual\<close> byte blit
    and the rotate loop of \<open>show_centered_sideways\<close>/\<open>blit_pbm\<close> (Asteroids).
    Lemmas: \<open>draw_pixel\<close> sets exactly the rotated pixel; the byte blit equals
    the per-pixel remap of the same drawing; the rotation loses no pixel (it has an
    inverse).
  \<^item> \<open>Input\<close>: a button sample is a record of the four pin levels and the
    \<open>ticks_ms()\<close> clock; every polling loop consumes a list of samples and returns
    what is left, \<open>None\<close> when the list ends inside the loop. \<open>EdgeButtons.update\<close>
    (\<open>eb_update\<close>), \<open>wait_released\<close>, the title-screen answer loop
    (\<open>screen_choice\<close>), Klotski's \<open>detect_ud_action\<close> and Minesweeper's
    \<open>detect_action_chords\<close>. Lemmas: edges are exactly the 1-to-0 transitions,
    \<open>wait_released\<close> returns right after the first sample with all four lines
    released, the hold loop returns within 72 samples when samples are at least 10 ms
    apart (its \<open>sleep_ms(10)\<close>; \<open>paced\<close> names such a trace).
  \<^item> \<open>Game2048\<close>: the 4x4 board (\<open>int list list\<close>), \<open>compress_line\<close>,
    \<open>merge_line\<close>, the four moves, \<open>add_tile\<close> and \<open>new_board\<close> with the random
    draws as arguments, \<open>any_moves\<close>, \<open>max_tile\<close> and the main loop as a step
    function on events. Lemmas: a row slide is the reference rule \<open>slide_ref\<close>;
    the other moves are the left move under mirroring and transposition; tiles
    stay 0 or powers of two, the sum is conserved; \<open>any_moves\<close> holds exactly
    when some move changes the board; the loop keeps its invariant.
  \<^item> \<open>Klotski\<close>: the 5x4 board of piece ids, \<open>PIECES\<close>, \<open>PUZZLES\<close>,
    \<open>can_move\<close>, \<open>move_piece\<close> (with \<open>KeyError\<close>/\<open>TypeError\<close> as values of
    \<open>kerror\<close>), both menus and \<open>main()\<close> split as the code is
    (\<open>k_iter\<close>, \<open>k_dispatch\<close>, \<open>k_moved\<close>, \<open>k_loop\<close>, \<open>k_main\<close>). Lemmas:
    well-formed boards (every piece exactly its rectangle) are kept by moves, the
    program never raises and keeps \<open>kinv\<close>, the menus return valid indices, and on a
    paced trace a continuous chord hold completes pass after pass, each a reset.
  \<^item> \<open>Minesweeper\<close>: the four 8x8 grids, \<open>neighbors\<close>, \<open>place_mines\<close> with the
    \<open>getrandbits\<close> results as a stream \<open>rnd\<close> and the draw counter, the flood
    reveal \<open>flood_loop\<close> (a \<open>function\<close> whose termination measure is twice the
    number of unseen cells plus the queue length), the counters and \<open>main()\<close>
    (\<open>ms_iter\<close>, \<open>ms_reveal\<close>, \<open>ms_title\<close>, \<open>ms_run\<close>). Lemmas: placement puts 10
    mines away from the first cell with correct counts, the flood reveals only safe
    unflagged cells, the first reveal is safe, every reached state keeps
    \<open>ms_inv\<close>, \<open>is_win\<close> means all safe cells are revealed, and the cursor moves
    before a simultaneous reveal chord.
  \<^item> \<open>Font3x5\<close>: what the three portrait games share of their text drawing:
    Python's \<open>str()\<close> (\<open>py_str\<close>), the bit test, the glyph loops \<open>glyph_px\<close>, the
    text loop \<open>text_px\<close> over a game's glyph table, and \<open>text_width_3x5\<close>. Lemmas:
    a glyph and a text stay inside their measured box.
  \<^item> \<open>Draw2048\<close>: the drawing code of 2048 (\<open>GLYPH3x5\<close>, \<open>draw_text_3x5\<close>,
    \<open>draw_text_center\<close>, the narrow \<open>DIG2x5\<close> font, \<open>draw_rect\<close>,
    \<open>draw_tile_number\<close>, \<open>draw_board\<close>, the three screens), each drawing as the
    list of \<open>draw_pixel\<close> calls it makes, applied by \<open>Rotation.draw_all\<close>; Python's
    \<open>str()\<close> is \<open>py_str\<close>. Lemmas: text and digit strings stay inside their
    measured width, centred text of at most 64 pixels stays on the screen, tile
    numbers of 1, 3, 4 or 5 digits stay strictly inside their cell (two-digit
    numbers do not: \<open>tile_16_overflows\<close>), and the narrow font draws 2048 as 2046.
  \<^item> \<open>DrawKlotski\<close>: the drawing code of Klotski (its glyph table \<open>KGLYPH\<close>,
    \<open>pattern_fill\<close>, \<open>render\<close> split as \<open>render_piece\<close>/\<open>render_cell\<close>/
    \<open>render_pieces\<close>/\<open>render_pixels\<close>, with \<open>PIECES[pid]\<close> raising \<open>KeyError\<close>,
    and the two screens, and \<open>k_render\<close> with its \<open>show()\<close>). Lemmas: the texture
    stays inside a piece's outline, the frame of any state the main loop reaches is
    drawn and flushed without an exception, missing glyphs (H, Z) and the clipped last
    line of the win screen.
  \<^item> \<open>DrawMinesweeper\<close>: the drawing code of Minesweeper (glyph table, flag and mine
    sprites, \<open>draw_grid\<close> through \<open>draw_cell\<close>/\<open>draw_cell_content\<close>, header, hints,
    \<open>render_game\<close>, screens). Lemma: a cell's flag, mine or one-digit count stays
    strictly inside its 7x7 outline.
  \<^item> \<open>Asteroids\<close>: the state of \<open>src/asteroids.py\<close>: fixed-point positions,
    \<open>wrap_fp\<close>, \<open>DIR\<close>, spawning with the random draws as a stream \<open>rnd\<close> and a
    draw counter, and one pass of \<open>play_once\<close> as \<open>ast_input\<close>, \<open>ast_physics\<close>,
    \<open>ast_hits\<close> (through \<open>hit_one\<close>, \<open>first_hit\<close>, \<open>split_child\<close>),
    \<open>ast_ship_hit\<close> and \<open>ast_next_wave\<close>, run over a trace by \<open>ast_run\<close>. Lemmas:
    every reached state keeps all objects on the field with bounded speeds
    (\<open>ast_inv\<close>, via \<open>pre_phys\<close> between input and physics); friction brings a
    rightward or downward coast to rest but never stops a slow leftward or upward
    drift; one bullet can destroy several asteroids in a pass; an asteroid
    can spawn on the ship.
  \<^item> \<open>Launcher\<close>: \<open>src/main.py\<close>. The PBM P4 loader \<open>read_pbm_p4\<close> over file
    contents (a map from paths to byte lists), with the Python builtins it uses
    (\<open>readline\<close>, \<open>strip\<close>, \<open>split_ws\<close>, \<open>py_int\<close>) and each of its exceptions as
    a value of \<open>lerror\<close>; the blit \<open>draw_pbm_to_display\<close> into the driver
    buffer; \<open>load_and_display_image\<close>, \<open>show_logo\<close>, \<open>launch_game\<close> and the menu
    (\<open>menu_select\<close>, \<open>menu_start\<close>, \<open>menu_iter\<close>, \<open>menu_loop\<close>, \<open>run_menu\<close>).
    \<open>framebuf.text\<close> is a parameter (assumed by \<open>text_ok\<close> to write the buffer
    only), and a launched game is one of three outcomes: it returns, raises an
    \<open>Exception\<close>, or calls \<open>sys.exit()\<close>. Lemmas: the loader reads back every P4
    file a writer lays out, the display stays usable through every screen, the menu
    entry stays in range, and a game's \<open>sys.exit()\<close> ends the launcher while its
    exceptions return to the menu.

  \<^bold>\<open>Bounds and fuel.\<close> Loops that wait for the player take the trace as their
  argument and stop when it ends, so they are total without fuel; the main loops
  take a pass count \<open>n\<close> (\<open>k_loop\<close>, \<open>ms_run\<close>), and the invariants hold for every
  \<open>n\<close>; Klotski's hold-reset property needs at most 74 samples per pass on a paced
  trace (two reads before the hold loop and its 72). The flood reveal and the PBM header loop need no fuel: their termination is
  proved (measures: unseen cells and queue length; bytes left in the file). The
  launcher's menu takes three button samples per pass, one for each of its three
  button tests. Asteroids' spawn loop tries 20 points, as the code does; the speed
  bounds of its invariant (256 for the ship, 446 for bullets, 125 for asteroids) are
  what one pass can reach, and all lie far below the field size, so one correction of
  \<open>wrap_fp\<close> is enough.

  \<^bold>\<open>Not modelled.\<close> Timing (\<open>time.sleep\<close> is a no-op of the model; the
  clock is the time stamp of each sample); \<open>print\<close> and the launcher's
  \<open>sys.path\<close> set-up; \<open>framebuf.text\<close> (MicroPython's built-in 8x8 font, not in
  the repository); the drawing and screens of Asteroids, which go through the SH1106
  driver and \<open>framebuf\<close> line and text routines, none of which is in the repository;
  Dino, Frogger, Galaga and Donkey Kong beyond the rotation helpers (floating-point
  physics, sprite tables); and the SH1106 driver module that four games import but
  that is not in the repository.
\<close>

end
